theory Spec2Isabelle
  imports Complex_Main "HOL-Library.Monad_Syntax"
begin

section \<open>Data model\<close>

text \<open>
  The embedding follows \<^verbatim>\<open>src/tinyspline.c\<close>. The header \<^verbatim>\<open>tinyspline.h\<close> is not part
  of the sources at hand, so the struct layouts are read off the field accesses of the C code.

  \<^item> A C \<^verbatim>\<open>float\<close> that holds a knot, a coordinate or a blending factor is modelled as a
    \<^typ>\<open>real\<close>: the rounding of these values is not modelled, and a quotient with the
    divisor \<open>0\<close>, an infinity or a NaN in C, is \<open>0\<close> here. The theorems below are about
    indices, sizes, which values are copied where, and which formula is applied; none of them
    is about how close two computed values are.
  \<^item> The one \<^verbatim>\<open>float\<close> that decides a size, the number of points of the De Boor table, is
    modelled with the rounding of binary32 (the operands are \<^verbatim>\<open>size_t\<close> and \<^verbatim>\<open>float\<close>, and
    the product is taken to be evaluated in \<^verbatim>\<open>float\<close>).
  \<^item> \<^verbatim>\<open>size_t\<close> values are \<^typ>\<open>nat\<close>, \<^verbatim>\<open>int\<close> values are \<^typ>\<open>int\<close>; all sizes are
    assumed small enough that no machine arithmetic overflows. A size or count that the C
    code computes below zero (where \<^verbatim>\<open>size_t\<close> would wrap around) is outside the model.
  \<^item> A buffer is a list; the \<^verbatim>\<open>NULL\<close> pointer is the empty buffer \<^term>\<open>[]\<close>.
  \<^item> The result of an operation is an \<^typ>\<open>'a option\<close>: \<^term>\<open>None\<close> stands for an execution that
    leaves the defined behaviour (an access outside a buffer, a read of released memory, a
    size below zero), \<^term>\<open>Some (Inl e)\<close> for the negative return code \<open>e\<close>, and
    \<^term>\<open>Some (Inr r)\<close> for a non-negative return code together with the output structure.
  \<^item> C keeps field names apart per struct; here the fields carry the prefixes \<open>bs_\<close>,
    \<open>net_\<close> and \<open>seq_\<close>.
\<close>

datatype tsError = TS_MALLOC | TS_DIM_ZERO | TS_DEG_GE_NCTRLP | TS_U_UNDEFINED | TS_MULTIPLICITY

datatype tsBSplineType = TS_OPENED | TS_CLAMPED

record tsBSpline =
  bs_deg :: nat
  bs_order :: nat
  bs_dim :: nat
  bs_n_ctrlp :: nat
  bs_n_knots :: nat
  bs_ctrlp :: "real list"
  bs_knots :: "real list"

record tsDeBoorNet =
  net_k :: int
  net_s :: int
  net_h :: int
  net_deg :: nat
  net_dim :: nat
  net_n_affected :: nat
  net_n_points :: nat
  net_last_idx :: nat
  net_points :: "real list"

record tsBSplineSequence =
  seq_n :: nat
  seq_bsplines :: "tsBSpline list"

text \<open>
  The two constants of the tolerant comparison are macros of the missing header; they are
  parameters of the model.
\<close>

record tolerance =
  FLT_MAX_ABS_ERROR :: real
  FLT_MAX_REL_ERROR :: real

text \<open>
  The allocator is external. \<^verbatim>\<open>malloc\<close> is a parameter that says whether a request for a
  number of cells (floats of a buffer, or curves of a sequence) succeeds. Fresh memory is
  indeterminate in C; the model fills it with \<open>0\<close>.
\<close>

type_synonym allocator = "nat \<Rightarrow> bool"

subsection \<open>Buffer accesses\<close>

definition load :: "'a list \<Rightarrow> int \<Rightarrow> 'a option" where
  "load xs i = (if 0 \<le> i \<and> i < int (length xs) then Some (xs ! nat i) else None)"

definition store :: "'a list \<Rightarrow> int \<Rightarrow> 'a \<Rightarrow> 'a list option" where
  "store xs i v = (if 0 \<le> i \<and> i < int (length xs) then Some (xs[nat i := v]) else None)"

text \<open>A value assigned to a \<^verbatim>\<open>size_t\<close>.\<close>

definition size_t :: "int \<Rightarrow> nat option" where
  "size_t i = (if 0 \<le> i then Some (nat i) else None)"

text \<open>
  \<open>memcpy dst to src from n\<close> is \<^verbatim>\<open>memcpy(&dst[to], &src[from], n * sizeof(float))\<close>: it
  returns the new contents of \<open>dst\<close>.
\<close>

definition memcpy :: "'a list \<Rightarrow> int \<Rightarrow> 'a list \<Rightarrow> int \<Rightarrow> int \<Rightarrow> 'a list option" where
  "memcpy dst to src from n =
     (if 0 \<le> to \<and> 0 \<le> from \<and> 0 \<le> n \<and> to + n \<le> int (length dst) \<and> from + n \<le> int (length src)
      then Some (take (nat to) dst @ take (nat n) (drop (nat from) src) @ drop (nat (to + n)) dst)
      else None)"

section \<open>Operations\<close>

definition ts_deboornet_default :: tsDeBoorNet where
  "ts_deboornet_default =
     \<lparr>net_k = 0, net_s = 0, net_h = 0, net_deg = 0, net_dim = 0, net_n_affected = 0,
      net_n_points = 0, net_last_idx = 0, net_points = []\<rparr>"

definition ts_bspline_default :: tsBSpline where
  "ts_bspline_default =
     \<lparr>bs_deg = 0, bs_order = 0, bs_dim = 0, bs_n_ctrlp = 0, bs_n_knots = 0,
      bs_ctrlp = [], bs_knots = []\<rparr>"

definition ts_bsplinesequence_default :: tsBSplineSequence where
  "ts_bsplinesequence_default = \<lparr>seq_n = 0, seq_bsplines = []\<rparr>"

text \<open>
  \<^verbatim>\<open>ts_fequals\<close>. When both arguments are \<open>0\<close> and the absolute test fails, the C code
  divides \<open>0\<close> by \<open>0\<close>; the quotient is a NaN and the comparison with it is false.
\<close>

definition ts_fequals :: "tolerance \<Rightarrow> real \<Rightarrow> real \<Rightarrow> bool" where
  "ts_fequals tol x y =
     (if \<bar>x - y\<bar> < FLT_MAX_ABS_ERROR tol then True
      else if x = 0 \<and> y = 0 then False
      else (let r = (if \<bar>x\<bar> > \<bar>y\<bar> then \<bar>(x - y) / x\<bar> else \<bar>(x - y) / y\<bar>)
            in r \<le> FLT_MAX_REL_ERROR tol))"

subsection \<open>Evaluation\<close>

text \<open>
  The scan for the knot index: \<^verbatim>\<open>for (k = 0; k < n_knots; k++)\<close> with the counter \<open>s\<close> of
  the knots that compare equal to \<open>u\<close>. The result is the pair of \<open>k\<close> (before the
  decrement that follows the loop) and \<open>s\<close>.
\<close>

function scan_knots :: "tolerance \<Rightarrow> tsBSpline \<Rightarrow> real \<Rightarrow> int \<Rightarrow> int \<Rightarrow> (int \<times> int) option" where
  "scan_knots tol bspline u k s =
     (if k < int (bs_n_knots bspline) then
        (case load (bs_knots bspline) k of
           None \<Rightarrow> None
         | Some uk \<Rightarrow>
             if ts_fequals tol u uk then scan_knots tol bspline u (k + 1) (s + 1)
             else if u < uk then Some (k, s)
             else scan_knots tol bspline u (k + 1) s)
      else Some (k, s))"
  by pat_completeness auto
termination
  by (relation "measure (\<lambda>(tol, bspline, u, k, s). nat (int (bs_n_knots bspline) - k))") auto

declare scan_knots.simps [simp del]

text \<open>
  The innermost loop of De Boor's algorithm, over the \<open>dim\<close> coordinates of one point. The
  state is the buffer with the three running indices \<open>idx_l\<close>, \<open>idx_r\<close> and \<open>idx_to\<close>.
\<close>

type_synonym deboor_state = "real list \<times> int \<times> int \<times> int"

function interpolate :: "real \<Rightarrow> real \<Rightarrow> nat \<Rightarrow> nat \<Rightarrow> deboor_state \<Rightarrow> deboor_state option" where
  "interpolate a a_hat dimn n (points, idx_l, idx_r, idx_to) =
     (if n < dimn then
        do {
          pl \<leftarrow> load points idx_l;
          pr \<leftarrow> load points idx_r;
          points' \<leftarrow> store points idx_to (a_hat * pl + a * pr);
          interpolate a a_hat dimn (n + 1) (points', idx_l + 1, idx_r + 1, idx_to + 1)
        }
      else Some (points, idx_l, idx_r, idx_to))"
  by pat_completeness auto
termination
  by (relation "measure (\<lambda>(a, a_hat, dimn, n, st). dimn - n)") auto

declare interpolate.simps [simp del]

text \<open>The loop over the indices \<open>i\<close> of one round \<open>r\<close>.\<close>

function deboor_row :: "tsBSpline \<Rightarrow> real \<Rightarrow> int \<Rightarrow> int \<Rightarrow> int \<Rightarrow> deboor_state \<Rightarrow> deboor_state option" where
  "deboor_row bspline u r lst_cp i st =
     (if i \<le> lst_cp then
        do {
          ui \<leftarrow> load (bs_knots bspline) i;
          uj \<leftarrow> load (bs_knots bspline) (i + int (bs_deg bspline) - r + 1);
          let a = (u - ui) / (uj - ui);
          let a_hat = 1 - a;
          st' \<leftarrow> interpolate a a_hat (bs_dim bspline) 0 st;
          deboor_row bspline u r lst_cp (i + 1) st'
        }
      else Some st)"
  by pat_completeness auto
termination
  by (relation "measure (\<lambda>(bspline, u, r, lst_cp, i, st). nat (lst_cp + 1 - i))") auto

declare deboor_row.simps [simp del]

text \<open>The loop over the rounds \<open>r = 1, \<dots>, h\<close>.\<close>

function deboor_rounds :: "tsBSpline \<Rightarrow> real \<Rightarrow> int \<Rightarrow> int \<Rightarrow> int \<Rightarrow> int \<Rightarrow> deboor_state \<Rightarrow> deboor_state option" where
  "deboor_rounds bspline u fst_cp lst_cp h r st =
     (if r \<le> h then
        do {
          (points, idx_l, idx_r, idx_to) \<leftarrow> deboor_row bspline u r lst_cp (fst_cp + r) st;
          deboor_rounds bspline u fst_cp lst_cp h (r + 1)
            (points, idx_l + int (bs_dim bspline), idx_r + int (bs_dim bspline), idx_to)
        }
      else Some st)"
  by pat_completeness auto
termination
  by (relation "measure (\<lambda>(bspline, u, fst_cp, lst_cp, h, r, st). nat (h + 1 - r))") auto

declare deboor_rounds.simps [simp del]

text \<open>
  The three branches of \<^verbatim>\<open>ts_bspline_evaluate\<close> after the scan. \<open>net\<close> is the output
  structure with the fields set so far, \<open>k\<close> and \<open>s\<close> are the local copies of its fields.
\<close>

definition evaluate_full_multiplicity ::
  "allocator \<Rightarrow> tsBSpline \<Rightarrow> tsDeBoorNet \<Rightarrow> int \<Rightarrow> int \<Rightarrow> (tsError + int \<times> tsDeBoorNet) option" where
  "evaluate_full_multiplicity malloc bspline net k s =
     (let dimn = bs_dim bspline; fst_cp = k - s; snd_cp = fst_cp + 1 in
      if fst_cp < 0 \<or> snd_cp \<ge> int (bs_n_ctrlp bspline) then
        if \<not> malloc dimn then Some (Inl TS_MALLOC)
        else do {
          points \<leftarrow>
            (if fst_cp < 0 then memcpy (replicate dimn 0) 0 (bs_ctrlp bspline) 0 (int dimn)
             else memcpy (replicate dimn 0) 0 (bs_ctrlp bspline) (fst_cp * int dimn) (int dimn));
          Some (Inr (1, net\<lparr>net_n_affected := 1, net_n_points := 1, net_last_idx := 0,
                             net_points := points\<rparr>))
        }
      else
        if \<not> malloc (2 * dimn) then Some (Inl TS_MALLOC)
        else do {
          points \<leftarrow>
            memcpy (replicate (2 * dimn) 0) 0 (bs_ctrlp bspline) (fst_cp * int dimn) (2 * int dimn);
          Some (Inr (2, net\<lparr>net_n_affected := 2, net_n_points := 2, net_last_idx := dimn,
                             net_points := points\<rparr>))
        })"

text \<open>
  The number of points of the table is computed in \<^verbatim>\<open>float\<close>:
  \<^verbatim>\<open>n_affected * (n_affected + 1) * 0.5f\<close>. The product of the two \<^verbatim>\<open>size_t\<close> values is
  converted to binary32, which keeps 24 significant bits and rounds to the nearest value,
  a tie to the even one. \<open>excess n\<close> is the number of low bits that \<open>n\<close> has beyond 24, and
  \<open>binary32_of_nat n\<close> is the value of the \<^verbatim>\<open>float\<close>. The product with \<^verbatim>\<open>0.5f\<close> is exact,
  and the assignment to the \<^verbatim>\<open>size_t\<close> field cuts off the fraction.
\<close>

fun excess :: "nat \<Rightarrow> nat" where
  "excess n = (if n < 2 ^ 24 then 0 else Suc (excess (n div 2)))"

declare excess.simps [simp del]

definition binary32_of_nat :: "nat \<Rightarrow> nat" where
  "binary32_of_nat n =
     (let e = excess n; q = n div 2 ^ e; r = n mod 2 ^ e in
      (if 2 * r < 2 ^ e then q
       else if 2 ^ e < 2 * r then q + 1
       else if even q then q else q + 1) * 2 ^ e)"

definition evaluate_de_boor ::
  "allocator \<Rightarrow> tsBSpline \<Rightarrow> real \<Rightarrow> tsDeBoorNet \<Rightarrow> int \<Rightarrow> int \<Rightarrow> (tsError + int \<times> tsDeBoorNet) option" where
  "evaluate_de_boor malloc bspline u net k s =
     (let deg = bs_deg bspline; dimn = bs_dim bspline; fst_cp = k - int deg; lst_cp = k - s in
      if fst_cp < 0 \<or> lst_cp \<ge> int (bs_n_ctrlp bspline) then Some (Inl TS_U_UNDEFINED)
      else
        do {
          n_affected \<leftarrow> size_t (lst_cp - fst_cp + 1);
          let n_points = nat \<lfloor>real (binary32_of_nat (n_affected * (n_affected + 1))) * 0.5\<rfloor>;
          n_before \<leftarrow> size_t (int n_points - 1);
          let last_idx = n_before * dimn;
          if \<not> malloc (n_points * dimn) then Some (Inl TS_MALLOC)
          else do {
            points \<leftarrow>
              memcpy (replicate (n_points * dimn) 0) 0 (bs_ctrlp bspline) (fst_cp * int dimn)
                (int (n_affected * dimn));
            (points', idx_l, idx_r, idx_to) \<leftarrow>
              deboor_rounds bspline u fst_cp lst_cp (net_h net) 1
                (points, 0, int dimn, int (n_affected * dimn));
            Some (Inr (0, net\<lparr>net_n_affected := n_affected, net_n_points := n_points,
                               net_last_idx := last_idx, net_points := points'\<rparr>))
          }
        })"

text \<open>The scan from \<open>k = 0\<close> and \<open>s = 0\<close>, followed by the decrement \<^verbatim>\<open>deBoorNet->k--\<close>.\<close>

definition find_knot :: "tolerance \<Rightarrow> tsBSpline \<Rightarrow> real \<Rightarrow> (int \<times> int) option" where
  "find_knot tol bspline u =
     do {
       (k, s) \<leftarrow> scan_knots tol bspline u 0 0;
       Some (k - 1, s)
     }"

definition ts_bspline_evaluate ::
  "allocator \<Rightarrow> tolerance \<Rightarrow> tsBSpline \<Rightarrow> real \<Rightarrow> (tsError + int \<times> tsDeBoorNet) option" where
  "ts_bspline_evaluate malloc tol bspline u =
     do {
       (k, s) \<leftarrow> find_knot tol bspline u;
       let net = ts_deboornet_default
             \<lparr>net_deg := bs_deg bspline, net_dim := bs_dim bspline,
              net_k := k, net_s := s, net_h := int (bs_deg bspline) - s\<rparr>;
       if s > int (bs_order bspline) then Some (Inl TS_MULTIPLICITY)
       else if s = int (bs_order bspline) then evaluate_full_multiplicity malloc bspline net k s
       else evaluate_de_boor malloc bspline u net k s
     }"

subsection \<open>Construction and copy\<close>

text \<open>The loops of \<^verbatim>\<open>ts_bspline_new\<close> that fill the knot vector.\<close>

function fill_uniform ::
  "nat \<Rightarrow> nat \<Rightarrow> real list \<times> nat \<times> nat \<Rightarrow> (real list \<times> nat \<times> nat) option" where
  "fill_uniform end' dominator (knots, current, numerator) =
     (if current < end' then
        do {
          knots' \<leftarrow> store knots (int current) (real numerator / real dominator);
          fill_uniform end' dominator (knots', current + 1, numerator + 1)
        }
      else Some (knots, current, numerator))"
  by pat_completeness auto
termination
  by (relation "measure (\<lambda>(end', dominator, knots, current, numerator). end' - current)") auto

declare fill_uniform.simps [simp del]

function fill_const :: "nat \<Rightarrow> real \<Rightarrow> real list \<times> nat \<Rightarrow> (real list \<times> nat) option" where
  "fill_const end' v (knots, current) =
     (if current < end' then
        do {
          knots' \<leftarrow> store knots (int current) v;
          fill_const end' v (knots', current + 1)
        }
      else Some (knots, current))"
  by pat_completeness auto
termination
  by (relation "measure (\<lambda>(end', v, knots, current). end' - current)") auto

declare fill_const.simps [simp del]

definition ts_bspline_new ::
  "allocator \<Rightarrow> nat \<Rightarrow> nat \<Rightarrow> nat \<Rightarrow> tsBSplineType \<Rightarrow> (tsError + tsBSpline) option" where
  "ts_bspline_new malloc deg dimn n_ctrlp type =
     (if dimn < 1 then Some (Inl TS_DIM_ZERO)
      else if deg \<ge> n_ctrlp then Some (Inl TS_DEG_GE_NCTRLP)
      else
        (let order = deg + 1; n_knots = n_ctrlp + order in
         if \<not> malloc (n_ctrlp * dimn) then Some (Inl TS_MALLOC)
         else if \<not> malloc n_knots then Some (Inl TS_MALLOC)
         else do {
           knots \<leftarrow>
             (if type = TS_OPENED then
                do {
                  (knots, current, numerator) \<leftarrow>
                    fill_uniform n_knots (n_knots - 1) (replicate n_knots 0, 0, 0);
                  Some knots
                }
              else
                do {
                  (knots1, current1) \<leftarrow> fill_const order 0 (replicate n_knots 0, 0);
                  (knots2, current2, numerator) \<leftarrow>
                    fill_uniform (n_knots - order) (n_knots - (2 * deg) - 1) (knots1, current1, 1);
                  (knots3, current3) \<leftarrow> fill_const n_knots 1 (knots2, current2);
                  Some knots3
                });
           Some (Inr \<lparr>bs_deg = deg, bs_order = order, bs_dim = dimn, bs_n_ctrlp = n_ctrlp,
                      bs_n_knots = n_knots, bs_ctrlp = replicate (n_ctrlp * dimn) 0,
                      bs_knots = knots\<rparr>)
         }))"

definition ts_bspline_copy :: "allocator \<Rightarrow> tsBSpline \<Rightarrow> (tsError + tsBSpline) option" where
  "ts_bspline_copy malloc original =
     do {
       val \<leftarrow> ts_bspline_new malloc (bs_deg original) (bs_dim original) (bs_n_ctrlp original)
                TS_CLAMPED;
       case val of
         Inl e \<Rightarrow> Some (Inl e)
       | Inr copy \<Rightarrow>
           do {
             ctrlp \<leftarrow> memcpy (bs_ctrlp copy) 0 (bs_ctrlp original) 0
                        (int (bs_n_ctrlp original * bs_dim original));
             knots \<leftarrow> memcpy (bs_knots copy) 0 (bs_knots original) 0
                        (int (bs_n_knots original));
             Some (Inr (copy\<lparr>bs_ctrlp := ctrlp, bs_knots := knots\<rparr>))
           }
     }"

definition ts_bsplinesequence_new :: "allocator \<Rightarrow> nat \<Rightarrow> tsError + tsBSplineSequence" where
  "ts_bsplinesequence_new malloc n =
     (if n > 0 then
        if \<not> malloc n then Inl TS_MALLOC
        else Inr \<lparr>seq_n = n, seq_bsplines = replicate n ts_bspline_default\<rparr>
      else Inr ts_bsplinesequence_default)"

subsection \<open>Knot insertion\<close>

text \<open>
  The loop that copies one point per iteration from the net, along an edge of the triangular
  table: \<open>from\<close> advances by \<open>stride\<close>, and \<open>stride\<close> by \<open>stride_inc\<close>. The same loop
  occurs twice in \<^verbatim>\<open>ts_bspline_insert_knot\<close> and once in \<^verbatim>\<open>ts_bspline_split\<close>.
\<close>

type_synonym edge_state = "real list \<times> int \<times> int \<times> int"

function copy_edge ::
  "nat \<Rightarrow> int \<Rightarrow> real list \<Rightarrow> nat \<Rightarrow> nat \<Rightarrow> edge_state \<Rightarrow> edge_state option" where
  "copy_edge dimn stride_inc points n idx (ctrlp, from, stride, to) =
     (if idx < n then
        do {
          ctrlp' \<leftarrow> memcpy ctrlp to points from (int dimn);
          copy_edge dimn stride_inc points n (idx + 1)
            (ctrlp', from + stride, stride + stride_inc, to + int dimn)
        }
      else Some (ctrlp, from, stride, to))"
  by pat_completeness auto
termination
  by (relation "measure (\<lambda>(dimn, stride_inc, points, n, idx, st). n - idx)") auto

declare copy_edge.simps [simp del]

text \<open>The loop that writes \<open>u\<close> into \<open>n\<close> consecutive knots, starting at index \<open>to\<close>.\<close>

function insert_u :: "real \<Rightarrow> nat \<Rightarrow> nat \<Rightarrow> real list \<times> int \<Rightarrow> (real list \<times> int) option" where
  "insert_u u n idx (knots, to) =
     (if idx < n then
        do {
          knots' \<leftarrow> store knots to u;
          insert_u u n (idx + 1) (knots', to + 1)
        }
      else Some (knots, to))"
  by pat_completeness auto
termination
  by (relation "measure (\<lambda>(u, n, idx, st). n - idx)") auto

declare insert_u.simps [simp del]

definition ts_bspline_insert_knot ::
  "allocator \<Rightarrow> tolerance \<Rightarrow> tsBSpline \<Rightarrow> real \<Rightarrow> nat \<Rightarrow> (tsError + tsBSpline) option" where
  "ts_bspline_insert_knot malloc tol bspline u n =
     do {
       ret \<leftarrow> ts_bspline_evaluate malloc tol bspline u;
       case ret of
         Inl e \<Rightarrow> Some (Inl e)
       | Inr (ret, net) \<Rightarrow>
           if net_s net + int n > int (bs_order bspline) then Some (Inl TS_MULTIPLICITY)
           else
             (let deg = int (bs_deg bspline); dimn = int (bs_dim bspline);
                  N = int (net_n_affected net); k = net_k net
              in do {
                ret \<leftarrow> ts_bspline_new malloc (bs_deg bspline) (bs_dim bspline)
                         (bs_n_ctrlp bspline + n) TS_OPENED;
                case ret of
                  Inl e \<Rightarrow> Some (Inl e)
                | Inr result \<Rightarrow>
                    do {
                      ctrlp1 \<leftarrow> memcpy (bs_ctrlp result) 0 (bs_ctrlp bspline) 0 ((k - deg) * dimn);
                      (ctrlp2, from, stride, to) \<leftarrow>
                        copy_edge (bs_dim bspline) (- dimn) (net_points net) n 0
                          (ctrlp1, 0, N * dimn, (k - deg) * dimn);
                      ctrlp3 \<leftarrow> memcpy ctrlp2 to (net_points net) from ((N - int n) * dimn);
                      (ctrlp4, from', stride', to') \<leftarrow>
                        copy_edge (bs_dim bspline) (- dimn) (net_points net) n 0
                          (ctrlp3, from - dimn, - (N - int n + 1) * dimn, to + (N - int n) * dimn);
                      ctrlp5 \<leftarrow> memcpy ctrlp4 to' (bs_ctrlp bspline) (((k - deg) + N) * dimn)
                                  ((int (bs_n_ctrlp bspline) - ((k - deg) + N)) * dimn);
                      knots1 \<leftarrow> memcpy (bs_knots result) 0 (bs_knots bspline) 0 (k + 1);
                      (knots2, to_k) \<leftarrow> insert_u u n 0 (knots1, k + 1);
                      knots3 \<leftarrow> memcpy knots2 to_k (bs_knots bspline) (k + 1)
                                  (int (bs_n_knots bspline) - (k + 1));
                      Some (Inr (result\<lparr>bs_ctrlp := ctrlp5, bs_knots := knots3\<rparr>))
                    }
              })
     }"

subsection \<open>Splitting\<close>

text \<open>
  One pass of the loop \<^verbatim>\<open>for (idx = 0; idx < 2; idx++)\<close> of the general case of
  \<^verbatim>\<open>ts_bspline_split\<close>. The arguments after the curve \<open>part\<close> under construction are the
  entries at \<open>idx\<close> of the arrays \<open>n_ctrlp\<close>, \<open>from_b\<close>, \<open>to_b\<close>, \<open>from_n\<close>, \<open>to_n\<close>,
  \<open>stride\<close>, \<open>from_k\<close>, \<open>to_k\<close>, \<open>amount_k\<close> and \<open>to_u\<close>.
\<close>

definition split_part ::
  "tsBSpline \<Rightarrow> tsDeBoorNet \<Rightarrow> real \<Rightarrow> tsBSpline \<Rightarrow> int \<Rightarrow> int \<Rightarrow> int \<Rightarrow> int \<Rightarrow> int \<Rightarrow> int \<Rightarrow>
   int \<Rightarrow> int \<Rightarrow> int \<Rightarrow> int \<Rightarrow> tsBSpline option" where
  "split_part bspline net u part n_ctrlp from_b to_b from_n to_n stride from_k to_k amount_k to_u =
     (let dimn = int (bs_dim bspline); N = int (net_n_affected net) in
      do {
        ctrlp1 \<leftarrow> memcpy (bs_ctrlp part) to_b (bs_ctrlp bspline) from_b ((n_ctrlp - N) * dimn);
        (ctrlp2, from_n', stride', to_n') \<leftarrow>
          copy_edge (bs_dim bspline) (- dimn) (net_points net) (net_n_affected net) 0
            (ctrlp1, from_n, stride, to_n);
        knots1 \<leftarrow> memcpy (bs_knots part) to_k (bs_knots bspline) from_k amount_k;
        (knots2, to_u') \<leftarrow> insert_u u (bs_order bspline) 0 (knots1, to_u);
        Some (part\<lparr>bs_ctrlp := ctrlp2, bs_knots := knots2\<rparr>)
      })"

text \<open>The branch \<^verbatim>\<open>ret_eval == 0\<close>.\<close>

definition split_de_boor ::
  "allocator \<Rightarrow> tsBSpline \<Rightarrow> real \<Rightarrow> tsDeBoorNet \<Rightarrow> tsBSplineSequence \<Rightarrow>
   (tsError + int \<times> tsBSplineSequence) option" where
  "split_de_boor malloc bspline u net split =
     (let deg = int (bs_deg bspline); dimn = int (bs_dim bspline);
          N = int (net_n_affected net); k = net_k net; s = net_s net
      in do {
        n_ctrlp0 \<leftarrow> size_t (k - deg + N);
        n_ctrlp1 \<leftarrow> size_t (int (bs_n_ctrlp bspline) - (k - s) + N - 1);
        ret \<leftarrow> ts_bspline_new malloc (bs_deg bspline) (bs_dim bspline) n_ctrlp0 TS_CLAMPED;
        case ret of
          Inl e \<Rightarrow> Some (Inl e)
        | Inr part0 \<Rightarrow>
            do {
              ret \<leftarrow> ts_bspline_new malloc (bs_deg bspline) (bs_dim bspline) n_ctrlp1 TS_CLAMPED;
              case ret of
                Inl e \<Rightarrow> Some (Inl e)
              | Inr part1 \<Rightarrow>
                  do {
                    part0' \<leftarrow>
                      split_part bspline net u part0 (int n_ctrlp0)
                        0 0
                        0 ((int n_ctrlp0 - N) * dimn) (N * dimn)
                        0 0 (k - s + 1)
                        (k - s + 1);
                    part1' \<leftarrow>
                      split_part bspline net u part1 (int n_ctrlp1)
                        ((k - s + 1) * dimn) (N * dimn)
                        ((int (net_n_points net) - 1) * dimn) 0 (- dimn)
                        (k + 1) (int (bs_order bspline)) (int (bs_n_knots bspline) - (k + 1))
                        0;
                    bsplines0 \<leftarrow> store (seq_bsplines split) 0 part0';
                    bsplines1 \<leftarrow> store bsplines0 1 part1';
                    Some (Inr (0, split\<lparr>seq_bsplines := bsplines1\<rparr>))
                  }
            }
      })"

text \<open>The branch \<^verbatim>\<open>ret_eval == 1\<close>.\<close>

definition split_copy ::
  "allocator \<Rightarrow> tolerance \<Rightarrow> tsBSpline \<Rightarrow> real \<Rightarrow> tsBSplineSequence \<Rightarrow>
   (tsError + int \<times> tsBSplineSequence) option" where
  "split_copy malloc tol bspline u split =
     do {
       slot \<leftarrow> load (seq_bsplines split) 0;
       ret \<leftarrow> ts_bspline_copy malloc bspline;
       case ret of
         Inl e \<Rightarrow> Some (Inl e)
       | Inr copy \<Rightarrow>
           do {
             bsplines \<leftarrow> store (seq_bsplines split) 0 copy;
             knot \<leftarrow> load (bs_knots bspline) (int (bs_deg bspline));
             Some (Inr (if ts_fequals tol knot u then 1 else 2, split\<lparr>seq_bsplines := bsplines\<rparr>))
           }
     }"

text \<open>The last branch, taken when the evaluation returned \<open>2\<close>.\<close>

definition split_partition ::
  "allocator \<Rightarrow> tsBSpline \<Rightarrow> tsDeBoorNet \<Rightarrow> tsBSplineSequence \<Rightarrow>
   (tsError + int \<times> tsBSplineSequence) option" where
  "split_partition malloc bspline net split =
     (let dimn = int (bs_dim bspline); k = net_k net; s = net_s net in
      do {
        n_ctrlp0 \<leftarrow> size_t (k - s + 1);
        n_ctrlp1 \<leftarrow> size_t (int (bs_n_ctrlp bspline) - (k - s + 1));
        ret \<leftarrow> ts_bspline_new malloc (bs_deg bspline) (bs_dim bspline) n_ctrlp0 TS_CLAMPED;
        case ret of
          Inl e \<Rightarrow> Some (Inl e)
        | Inr part0 \<Rightarrow>
            do {
              ret \<leftarrow> ts_bspline_new malloc (bs_deg bspline) (bs_dim bspline) n_ctrlp1 TS_CLAMPED;
              case ret of
                Inl e \<Rightarrow> Some (Inl e)
              | Inr part1 \<Rightarrow>
                  (let n_knots0 = int (bs_n_knots part0); n_knots1 = int (bs_n_knots part1) in
                   do {
                     ctrlp0 \<leftarrow> memcpy (bs_ctrlp part0) 0 (bs_ctrlp bspline) 0 (int n_ctrlp0 * dimn);
                     knots0 \<leftarrow> memcpy (bs_knots part0) 0 (bs_knots bspline) 0 n_knots0;
                     ctrlp1 \<leftarrow> memcpy (bs_ctrlp part1) 0 (bs_ctrlp bspline) (int n_ctrlp0 * dimn)
                                 (int n_ctrlp1 * dimn);
                     knots1 \<leftarrow> memcpy (bs_knots part1) 0 (bs_knots bspline)
                                 (int (bs_n_knots bspline) - n_knots1) n_knots1;
                     bsplines0 \<leftarrow> store (seq_bsplines split) 0
                                    (part0\<lparr>bs_ctrlp := ctrlp0, bs_knots := knots0\<rparr>);
                     bsplines1 \<leftarrow> store bsplines0 1
                                    (part1\<lparr>bs_ctrlp := ctrlp1, bs_knots := knots1\<rparr>);
                     Some (Inr (0, split\<lparr>seq_bsplines := bsplines1\<rparr>))
                   })
            }
      })"

text \<open>
  The test whether \<open>u\<close> is one of the two boundary knots; the second knot is read only when
  the first comparison fails, as with \<^verbatim>\<open>||\<close>.
\<close>

definition at_boundary :: "tolerance \<Rightarrow> tsBSpline \<Rightarrow> real \<Rightarrow> bool option" where
  "at_boundary tol bspline u =
     do {
       lower \<leftarrow> load (bs_knots bspline) (int (bs_deg bspline));
       if ts_fequals tol lower u then Some True
       else do {
         upper \<leftarrow> load (bs_knots bspline) (int (bs_n_knots bspline) - int (bs_order bspline));
         Some (ts_fequals tol upper u)
       }
     }"

definition ts_bspline_split ::
  "allocator \<Rightarrow> tolerance \<Rightarrow> tsBSpline \<Rightarrow> real \<Rightarrow> (tsError + int \<times> tsBSplineSequence) option" where
  "ts_bspline_split malloc tol bspline u =
     do {
       ret_eval \<leftarrow> ts_bspline_evaluate malloc tol bspline u;
       case ret_eval of
         Inl e \<Rightarrow> Some (Inl e)
       | Inr (ret_eval, net) \<Rightarrow>
           do {
             boundary \<leftarrow> at_boundary tol bspline u;
             let ret_eval = (if boundary then 1 else ret_eval);
             let n_bsplines_in_seq = (if ret_eval = 1 then 1 else 2);
             case ts_bsplinesequence_new malloc n_bsplines_in_seq of
               Inl e \<Rightarrow> Some (Inl e)
             | Inr split \<Rightarrow>
                 if ret_eval = 0 then split_de_boor malloc bspline u net split
                 else if ret_eval = 1 then split_copy malloc tol bspline u split
                 else split_partition malloc bspline net split
           }
     }"

subsection \<open>Decomposition into Bezier segments\<close>

text \<open>
  The loop of \<^verbatim>\<open>ts_bspline_to_bezier\<close>. The pointer \<open>current\<close> is the input curve in the
  first iteration. After an iteration with \<^verbatim>\<open>ret_split < 2\<close> it points to the second curve
  of \<open>split\<close>, and \<open>split\<close> is released at the end of that iteration, before the loop
  condition lets the next iteration start: \<open>current\<close> is \<^term>\<open>None\<close> then, and the next
  iteration reads released memory.
\<close>

function to_bezier_loop ::
  "allocator \<Rightarrow> tolerance \<Rightarrow> tsBSpline \<Rightarrow> tsBSplineSequence \<Rightarrow> int \<Rightarrow> tsBSpline option \<Rightarrow>
   (tsError + tsBSplineSequence) option" where
  "to_bezier_loop malloc tol bspline sequence i None = None"
| "to_bezier_loop malloc tol bspline sequence i (Some current) =
     do {
       u \<leftarrow> load (bs_knots bspline) (int (bs_order bspline));
       ret_split \<leftarrow> ts_bspline_split malloc tol current u;
       case ret_split of
         Inl e \<Rightarrow> Some (Inl e)
       | Inr (ret_split, split) \<Rightarrow>
           if ret_split < 2 then
             do {
               slot \<leftarrow> load (seq_bsplines sequence) i;
               piece \<leftarrow> load (seq_bsplines split) 0;
               ret_copy \<leftarrow> ts_bspline_copy malloc piece;
               case ret_copy of
                 Inl e \<Rightarrow> Some (Inl e)
               | Inr copy \<Rightarrow>
                   do {
                     bsplines \<leftarrow> store (seq_bsplines sequence) i copy;
                     to_bezier_loop malloc tol bspline (sequence\<lparr>seq_bsplines := bsplines\<rparr>)
                       (i + 1) None
                   }
             }
           else Some (Inr sequence)
     }"
  by pat_completeness auto
termination
  by (relation "measure (\<lambda>(malloc, tol, bspline, sequence, i, current).
        case current of None \<Rightarrow> 0 | Some c \<Rightarrow> 1)") auto

declare to_bezier_loop.simps [simp del]

definition ts_bspline_to_bezier ::
  "allocator \<Rightarrow> tolerance \<Rightarrow> tsBSpline \<Rightarrow> (tsError + tsBSplineSequence) option" where
  "ts_bspline_to_bezier malloc tol bspline =
     do {
       n_bsplines \<leftarrow> size_t (int (bs_n_knots bspline) - 2 * int (bs_order bspline));
       case ts_bsplinesequence_new malloc n_bsplines of
         Inl e \<Rightarrow> Some (Inl e)
       | Inr sequence \<Rightarrow> to_bezier_loop malloc tol bspline sequence 0 (Some bspline)
     }"

section \<open>Well-formed curves and the vocabulary of the specification\<close>

text \<open>
  A curve as \<^verbatim>\<open>ts_bspline_new\<close> builds it: the counts fit together and the two buffers
  have the sizes the counts announce.
\<close>

definition bspline_wf :: "tsBSpline \<Rightarrow> bool" where
  "bspline_wf b \<longleftrightarrow>
     1 \<le> bs_dim b \<and> bs_deg b < bs_n_ctrlp b \<and> bs_order b = bs_deg b + 1 \<and>
     bs_n_knots b = bs_n_ctrlp b + bs_order b \<and>
     length (bs_ctrlp b) = bs_n_ctrlp b * bs_dim b \<and>
     length (bs_knots b) = bs_n_knots b"

text \<open>The \<open>j\<close>-th control point, and whether \<open>j\<close> is the index of a control point.\<close>

definition control_point :: "tsBSpline \<Rightarrow> nat \<Rightarrow> real list" where
  "control_point b j = take (bs_dim b) (drop (j * bs_dim b) (bs_ctrlp b))"

definition is_ctrlp_index :: "tsBSpline \<Rightarrow> int \<Rightarrow> bool" where
  "is_ctrlp_index b j \<longleftrightarrow> 0 \<le> j \<and> j < int (bs_n_ctrlp b)"

subsection \<open>The De Boor table as the specification describes it\<close>

text \<open>
  The specification describes a triangular table of points. Row 0 holds the affected control
  points. In round \<open>r\<close>, for each index \<open>i\<close> from \<open>k - deg + r\<close> to \<open>k - s\<close>, the factor is
  \<open>a = (u - knots[i]) / (knots[i + deg - r + 1] - knots[i])\<close> and the new point is
  \<open>(1 - a) * left + a * right\<close>, coordinate by coordinate, where \<open>left\<close> and \<open>right\<close> are
  neighbours in the row before. These definitions follow the words of the specification,
  not the code; the theorem for claim C1 compares the two.
\<close>

definition interpolated :: "real \<Rightarrow> real list \<Rightarrow> real list \<Rightarrow> real list" where
  "interpolated a left right = map2 (\<lambda>l r. (1 - a) * l + a * r) left right"

definition blend_factor :: "tsBSpline \<Rightarrow> real \<Rightarrow> nat \<Rightarrow> nat \<Rightarrow> real" where
  "blend_factor b u r i =
     (u - bs_knots b ! i) / (bs_knots b ! (i + bs_deg b - r + 1) - bs_knots b ! i)"

fun next_row :: "tsBSpline \<Rightarrow> real \<Rightarrow> nat \<Rightarrow> nat \<Rightarrow> real list list \<Rightarrow> real list list" where
  "next_row b u r i (left # right # rest) =
     interpolated (blend_factor b u r i) left right # next_row b u r (i + 1) (right # rest)"
| "next_row b u r i rest = []"

fun later_rows ::
  "tsBSpline \<Rightarrow> real \<Rightarrow> nat \<Rightarrow> nat \<Rightarrow> nat \<Rightarrow> real list list \<Rightarrow> real list list list" where
  "later_rows b u first r 0 prev = []"
| "later_rows b u first r (Suc h) prev =
     (let row = next_row b u r (first + r) prev in row # later_rows b u first (r + 1) h row)"

definition de_boor_table :: "tsBSpline \<Rightarrow> real \<Rightarrow> nat \<Rightarrow> nat \<Rightarrow> real list list list" where
  "de_boor_table b u first N =
     (let row0 = map (control_point b) [first ..< first + N]
      in row0 # later_rows b u first 1 (N - 1) row0)"

text \<open>
  The number of points in the rows before row \<open>j\<close> of a table whose row 0 has \<open>N\<close> points.
\<close>

definition row_start :: "nat \<Rightarrow> nat \<Rightarrow> nat" where
  "row_start N j = (\<Sum>i<j. N - i)"

subsection \<open>The De Boor recurrence on index functions\<close>

text \<open>
  To compare a curve with the curve after a knot insertion, the recurrence of the table is
  stated once more, for a single coordinate and on functions of the index: \<open>t\<close> gives the
  knots, \<open>P\<close> the coordinate of the control points, and \<open>p\<close> is the degree. The value
  \<open>de_boor t P p x r i\<close> is the point with index \<open>i\<close> in row \<open>r\<close> of the table for the
  parameter \<open>x\<close>.
\<close>

fun de_boor :: "(int \<Rightarrow> real) \<Rightarrow> (int \<Rightarrow> real) \<Rightarrow> int \<Rightarrow> real \<Rightarrow> nat \<Rightarrow> int \<Rightarrow> real" where
  "de_boor t P p x 0 i = P i"
| "de_boor t P p x (Suc r) i =
     (1 - (x - t i) / (t (i + p - int r) - t i)) * de_boor t P p x r (i - 1)
       + (x - t i) / (t (i + p - int r) - t i) * de_boor t P p x r i"

text \<open>
  The knots and the control points after \<open>u\<close> has been inserted once behind the knot with
  index \<open>k\<close>: the knots from \<open>k + 1\<close> on move up by one place, the control points up to
  \<open>k - p\<close> stay, those behind \<open>k\<close> move up by one place, and those in between are
  points of row 1 of the table for \<open>u\<close>.
\<close>

definition knot_inserted :: "(int \<Rightarrow> real) \<Rightarrow> int \<Rightarrow> real \<Rightarrow> int \<Rightarrow> real" where
  "knot_inserted t k u j = (if j \<le> k then t j else if j = k + 1 then u else t (j - 1))"

definition ctrlp_inserted ::
  "(int \<Rightarrow> real) \<Rightarrow> (int \<Rightarrow> real) \<Rightarrow> int \<Rightarrow> int \<Rightarrow> real \<Rightarrow> int \<Rightarrow> real" where
  "ctrlp_inserted t P p k u i =
     (if i \<le> k - p then P i
      else if i \<le> k then
        (1 - (u - t i) / (t (i + p) - t i)) * P (i - 1) + (u - t i) / (t (i + p) - t i) * P i
      else P (i - 1))"

text \<open>
  The knot vector and one coordinate of the control points of a curve, as such functions.
  Outside the buffer \<open>knot_at\<close> repeats the first and the last knot, and \<open>coord_at\<close> is
  \<open>0\<close>.
\<close>

definition knot_at :: "tsBSpline \<Rightarrow> int \<Rightarrow> real" where
  "knot_at b j =
     (if j < 0 then hd (bs_knots b)
      else if j < int (length (bs_knots b)) then bs_knots b ! nat j
      else last (bs_knots b))"

definition coord_at :: "tsBSpline \<Rightarrow> nat \<Rightarrow> int \<Rightarrow> real" where
  "coord_at b c i =
     (if 0 \<le> i \<and> i < int (bs_n_ctrlp b) then bs_ctrlp b ! (nat i * bs_dim b + c) else 0)"

text \<open>
  A parameter is sharp for a knot vector when the tolerant comparison with each knot says
  what equality says.
\<close>

definition sharp :: "tolerance \<Rightarrow> real list \<Rightarrow> real \<Rightarrow> bool" where
  "sharp tol ks x \<longleftrightarrow> (\<forall>y \<in> set ks. ts_fequals tol x y \<longleftrightarrow> y = x)"

text \<open>An allocator that serves every request.\<close>

definition unlimited :: allocator where
  "unlimited = (\<lambda>n. True)"

subsection \<open>Example inputs\<close>

definition example_tolerance :: tolerance where
  "example_tolerance = \<lparr>FLT_MAX_ABS_ERROR = 1 / 10 ^ 7, FLT_MAX_REL_ERROR = 1 / 10 ^ 5\<rparr>"

text \<open>A polygon of degree 1 through three points of the line.\<close>

definition example_polygon :: tsBSpline where
  "example_polygon =
     \<lparr>bs_deg = 1, bs_order = 2, bs_dim = 1, bs_n_ctrlp = 3, bs_n_knots = 5,
      bs_ctrlp = [0, 1, 0], bs_knots = [0, 0, 1 / 2, 1, 1]\<rparr>"

text \<open>
  Two straight pieces of degree 1 in the plane, joined at the knot \<open>1/2\<close> of full
  multiplicity.
\<close>

definition example_joined :: tsBSpline where
  "example_joined =
     \<lparr>bs_deg = 1, bs_order = 2, bs_dim = 2, bs_n_ctrlp = 4, bs_n_knots = 6,
      bs_ctrlp = [0, 0, 1, 10, 2, 20, 3, 30], bs_knots = [0, 0, 1 / 2, 1 / 2, 1, 1]\<rparr>"

text \<open>A polygon whose first knot occurs three times, once more than the order.\<close>

definition example_overfull :: tsBSpline where
  "example_overfull =
     \<lparr>bs_deg = 1, bs_order = 2, bs_dim = 1, bs_n_ctrlp = 3, bs_n_knots = 5,
      bs_ctrlp = [0, 1, 2], bs_knots = [0, 0, 0, 1, 1]\<rparr>"

text \<open>A single Bezier segment of degree 2: no knot between the two clamped ends.\<close>

definition example_bezier :: tsBSpline where
  "example_bezier =
     \<lparr>bs_deg = 2, bs_order = 3, bs_dim = 1, bs_n_ctrlp = 3, bs_n_knots = 6,
      bs_ctrlp = [0, 1, 2], bs_knots = [0, 0, 0, 1, 1, 1]\<rparr>"

text \<open>A clamped curve of degree 2 with one inner knot.\<close>

definition example_parabola :: tsBSpline where
  "example_parabola =
     \<lparr>bs_deg = 2, bs_order = 3, bs_dim = 1, bs_n_ctrlp = 4, bs_n_knots = 7,
      bs_ctrlp = [0, 1, 2, 3], bs_knots = [0, 0, 0, 1 / 2, 1, 1, 1]\<rparr>"

text \<open>
  A curve of degree 5792 with a single segment: 5793 control points, and the clamped knot
  vector of 5793 knots \<open>0\<close> and 5793 knots \<open>1\<close>.
\<close>

definition example_steep :: tsBSpline where
  "example_steep =
     \<lparr>bs_deg = 5792, bs_order = 5793, bs_dim = 1, bs_n_ctrlp = 5793, bs_n_knots = 11586,
      bs_ctrlp = replicate 5793 0, bs_knots = replicate 5793 0 @ replicate 5793 1\<rparr>"

section \<open>Properties of the evaluation\<close>

subsection \<open>The number of points in binary32\<close>

text \<open>
  A product below \<open>2^24\<close> is a \<^verbatim>\<open>float\<close>, and so is an even one below \<open>2^25\<close>. The
  product \<open>N (N + 1)\<close> is even, so the number of points is \<open>N (N + 1) / 2\<close> up to \<open>N = 5792\<close>.
  \<open>N = 5793\<close> is the first value at which the \<^verbatim>\<open>float\<close> differs from the product.
\<close>

lemma excess_small: "n < 2 ^ 24 \<Longrightarrow> excess n = 0"
  by (subst excess.simps) simp

lemma binary32_small: "n < 2 ^ 24 \<Longrightarrow> binary32_of_nat n = n"
  by (simp add: binary32_of_nat_def excess_small)

lemma excess_next: "2 ^ 24 \<le> n \<Longrightarrow> n < 2 ^ 25 \<Longrightarrow> excess n = 1"
  by (subst excess.simps) (simp add: excess_small)

lemma binary32_even:
  assumes "n < 2 ^ 25" and "even n"
  shows "binary32_of_nat n = n"
proof (cases "n < 2 ^ 24")
  case True
  then show ?thesis by (rule binary32_small)
next
  case False
  with assms(1) have e: "excess n = 1" by (simp add: excess_next)
  from assms(2) have "n mod 2 = 0" "n div 2 * 2 = n" by simp_all
  then show ?thesis by (simp add: binary32_of_nat_def e)
qed

lemma binary32_product:
  assumes "N \<le> 5792"
  shows "binary32_of_nat (N * (N + 1)) = N * (N + 1)"
proof (rule binary32_even)
  have "N * (N + 1) \<le> 5792 * (5792 + 1)"
    using assms by (intro mult_le_mono) simp_all
  then show "N * (N + 1) < 2 ^ 25" by simp
  show "even (N * (N + 1))" by simp
qed

lemma binary32_affected:
  assumes "bspline_wf b" and "0 \<le> s" and "bs_order b \<le> 5792"
  shows "binary32_of_nat (nat (int (bs_deg b) - s + 1) * (nat (int (bs_deg b) - s + 1) + 1))
       = nat (int (bs_deg b) - s + 1) * (nat (int (bs_deg b) - s + 1) + 1)"
  using assms by (intro binary32_product) (simp add: bspline_wf_def)

subsection \<open>Unfolding\<close>

lemmas evaluate_unfold =
  ts_bspline_evaluate_def find_knot_def evaluate_de_boor_def evaluate_full_multiplicity_def
  scan_knots.simps deboor_rounds.simps deboor_row.simps interpolate.simps
  load_def store_def memcpy_def size_t_def ts_fequals_def ts_deboornet_default_def Let_def
  binary32_small

lemma memcpy_length: "memcpy dst to src from n = Some r \<Longrightarrow> length r = length dst"
  by (auto simp: memcpy_def split: if_splits)

lemma store_length: "store xs i v = Some r \<Longrightarrow> length r = length xs"
  by (auto simp: store_def split: if_splits)

lemma interpolate_length:
  "interpolate a a_hat dimn n st = Some st' \<Longrightarrow> length (fst st') = length (fst st)"
proof (induction a a_hat dimn n st arbitrary: st' rule: interpolate.induct)
  case (1 a a_hat dimn n points idx_l idx_r idx_to)
  show ?case
  proof (cases "n < dimn")
    case True
    with "1.prems" obtain pl pr points' where
      *: "load points idx_l = Some pl" "load points idx_r = Some pr"
         "store points idx_to (a_hat * pl + a * pr) = Some points'"
         "interpolate a a_hat dimn (n + 1) (points', idx_l + 1, idx_r + 1, idx_to + 1) = Some st'"
      by (subst (asm) interpolate.simps) (auto simp: bind_eq_Some_conv)
    from "1.IH"[OF True *(1) *(2) *(3) *(4)] store_length[OF *(3)] show ?thesis by simp
  next
    case False
    with "1.prems" show ?thesis by (subst (asm) interpolate.simps) auto
  qed
qed

lemma deboor_row_length:
  "deboor_row b u r lst i st = Some st' \<Longrightarrow> length (fst st') = length (fst st)"
proof (induction b u r lst i st arbitrary: st' rule: deboor_row.induct)
  case (1 b u r lst i st)
  show ?case
  proof (cases "i \<le> lst")
    case True
    with "1.prems" obtain ui uj st1 where
      *: "load (bs_knots b) i = Some ui" "load (bs_knots b) (i + int (bs_deg b) - r + 1) = Some uj"
         "interpolate ((u - ui) / (uj - ui)) (1 - (u - ui) / (uj - ui)) (bs_dim b) 0 st = Some st1"
         "deboor_row b u r lst (i + 1) st1 = Some st'"
      by (subst (asm) deboor_row.simps) (auto simp: bind_eq_Some_conv Let_def)
    from "1.IH"[OF True *(1) *(2) refl refl *(3) *(4)] interpolate_length[OF *(3)]
    show ?thesis by simp
  next
    case False
    with "1.prems" show ?thesis by (subst (asm) deboor_row.simps) auto
  qed
qed

lemma deboor_rounds_length:
  "deboor_rounds b u fs lst h r st = Some st' \<Longrightarrow> length (fst st') = length (fst st)"
proof (induction b u fs lst h r st arbitrary: st' rule: deboor_rounds.induct)
  case (1 b u fs lst h r st)
  show ?case
  proof (cases "r \<le> h")
    case True
    with "1.prems" obtain points idx_l idx_r idx_to where
      *: "deboor_row b u r lst (fs + r) st = Some (points, idx_l, idx_r, idx_to)"
         "deboor_rounds b u fs lst h (r + 1)
            (points, idx_l + int (bs_dim b), idx_r + int (bs_dim b), idx_to) = Some st'"
      by (subst (asm) deboor_rounds.simps) (auto simp: bind_eq_Some_conv)
    from "1.IH"[OF True *(1) refl refl refl *(2)] deboor_row_length[OF *(1)]
    show ?thesis by simp
  next
    case False
    with "1.prems" show ?thesis by (subst (asm) deboor_rounds.simps) auto
  qed
qed

lemma evaluate_cases:
  assumes "find_knot tol b u = Some (k, s)"
  defines "net \<equiv> ts_deboornet_default
             \<lparr>net_deg := bs_deg b, net_dim := bs_dim b,
              net_k := k, net_s := s, net_h := int (bs_deg b) - s\<rparr>"
  shows "ts_bspline_evaluate malloc tol b u =
     (if s > int (bs_order b) then Some (Inl TS_MULTIPLICITY)
      else if s = int (bs_order b) then evaluate_full_multiplicity malloc b net k s
      else evaluate_de_boor malloc b u net k s)"
  using assms by (simp add: ts_bspline_evaluate_def Let_def)

lemma full_multiplicity_shape:
  assumes "evaluate_full_multiplicity malloc b net0 k s = Some (Inr (ret, net))"
  shows "ret \<in> {1, 2} \<and> net_last_idx net = (net_n_points net - 1) * bs_dim b
       \<and> length (net_points net) = net_n_points net * bs_dim b
       \<and> net_deg net = net_deg net0 \<and> net_dim net = net_dim net0
       \<and> 1 \<le> net_n_points net"
  using assms
  by (auto simp: evaluate_full_multiplicity_def Let_def bind_eq_Some_conv
      split: if_splits dest!: memcpy_length)

lemma de_boor_shape:
  assumes "evaluate_de_boor malloc b u net0 k s = Some (Inr (ret, net))"
  shows "ret = 0 \<and> net_last_idx net = (net_n_points net - 1) * bs_dim b
       \<and> length (net_points net) = net_n_points net * bs_dim b
       \<and> net_deg net = net_deg net0 \<and> net_dim net = net_dim net0
       \<and> 1 \<le> net_n_points net"
proof -
  define fs where "fs = k - int (bs_deg b)"
  define ls where "ls = k - s"
  from assms obtain N L points points' idx_l idx_r idx_to where
    *: "size_t (ls - fs + 1) = Some N"
       "size_t (int (nat \<lfloor>real (binary32_of_nat (N * (N + 1))) * 0.5\<rfloor>) - 1) = Some L"
       "memcpy (replicate (nat \<lfloor>real (binary32_of_nat (N * (N + 1))) * 0.5\<rfloor> * bs_dim b) 0) 0 (bs_ctrlp b)
          (fs * int (bs_dim b)) (int (N * bs_dim b)) = Some points"
       "deboor_rounds b u fs ls (net_h net0) 1 (points, 0, int (bs_dim b), int (N * bs_dim b))
          = Some (points', idx_l, idx_r, idx_to)"
       "ret = 0"
       "net = net0\<lparr>net_n_affected := N, net_n_points := nat \<lfloor>real (binary32_of_nat (N * (N + 1))) * 0.5\<rfloor>,
                   net_last_idx := L * bs_dim b, net_points := points'\<rparr>"
    unfolding evaluate_de_boor_def Let_def fs_def[symmetric] ls_def[symmetric]
    by (auto simp: bind_eq_Some_conv split: if_splits)
  define P where "P = nat \<lfloor>real (binary32_of_nat (N * (N + 1))) * 0.5\<rfloor>"
  have len: "length points' = P * bs_dim b"
    using deboor_rounds_length[OF *(4)] memcpy_length[OF *(3)] by (simp add: P_def)
  from *(2) have L: "L = P - 1" "1 \<le> P"
    unfolding P_def[symmetric] by (auto simp: size_t_def split: if_splits)
  from * len L show ?thesis by (simp add: P_def)
qed

text \<open>
  Claim C10. Whenever the evaluation succeeds, with return code 0, 1 or 2, the net it returns
  satisfies \<open>last_idx = (n_points - 1) * dim\<close>, its buffer \<open>points\<close> holds exactly
  \<open>n_points * dim\<close> floats, its fields \<open>deg\<close> and \<open>dim\<close> are those of the curve, and the
  \<open>dim\<close> floats at offset \<open>last_idx\<close> lie inside the buffer.
\<close>

theorem evaluate_net_shape:
  assumes "ts_bspline_evaluate malloc tol b u = Some (Inr (ret, net))"
  shows "ret \<in> {0, 1, 2}
       \<and> net_last_idx net = (net_n_points net - 1) * net_dim net
       \<and> length (net_points net) = net_n_points net * net_dim net
       \<and> net_deg net = bs_deg b \<and> net_dim net = bs_dim b
       \<and> net_last_idx net + net_dim net \<le> length (net_points net)"
proof -
  from assms obtain k s where sc: "find_knot tol b u = Some (k, s)"
    by (auto simp: ts_bspline_evaluate_def bind_eq_Some_conv)
  define net0 where "net0 = ts_deboornet_default
             \<lparr>net_deg := bs_deg b, net_dim := bs_dim b,
              net_k := k, net_s := s, net_h := int (bs_deg b) - s\<rparr>"
  have net0: "net_deg net0 = bs_deg b" "net_dim net0 = bs_dim b"
    by (simp_all add: net0_def)
  from assms consider
      (full) "evaluate_full_multiplicity malloc b net0 k s = Some (Inr (ret, net))"
    | (gen) "evaluate_de_boor malloc b u net0 k s = Some (Inr (ret, net))"
    unfolding evaluate_cases[OF sc] net0_def by (auto split: if_splits)
  then have "ret \<in> {0, 1, 2} \<and> net_last_idx net = (net_n_points net - 1) * bs_dim b
       \<and> length (net_points net) = net_n_points net * bs_dim b
       \<and> net_deg net = bs_deg b \<and> net_dim net = bs_dim b \<and> 1 \<le> net_n_points net"
  proof cases
    case full
    from full_multiplicity_shape[OF full] net0 show ?thesis by auto
  next
    case gen
    from de_boor_shape[OF gen] net0 show ?thesis by auto
  qed
  moreover have "(n - 1) * d + d = n * d" if "1 \<le> n" for n d :: nat
    using that by (cases n) auto
  ultimately show ?thesis by auto
qed

theorem evaluate_net_shape_witness:
  "ts_bspline_evaluate unlimited example_tolerance example_polygon (1 / 4) =
     Some (Inr (0, \<lparr>net_k = 1, net_s = 0, net_h = 1, net_deg = 1, net_dim = 1,
                    net_n_affected = 2, net_n_points = 3, net_last_idx = 2,
                    net_points = [0, 1, 1 / 2]\<rparr>))
   \<and> (2::nat) = (3 - 1) * 1 \<and> length [0, 1, 1 / 2 :: real] = 3 * 1 \<and> (2::nat) + 1 \<le> 3"
proof -
  have h: "ts_bspline_evaluate unlimited example_tolerance example_polygon (1 / 4) =
     Some (Inr (0, \<lparr>net_k = 1, net_s = 0, net_h = 1, net_deg = 1, net_dim = 1,
                    net_n_affected = 2, net_n_points = 3, net_last_idx = 2,
                    net_points = [0, 1, 1 / 2]\<rparr>))"
    by (simp add: evaluate_unfold unlimited_def example_tolerance_def example_polygon_def)
  show ?thesis using h evaluate_net_shape [OF h] by (simp add: example_polygon_def)
qed

subsection \<open>The scan always ends\<close>

lemma scan_knots_total:
  "0 \<le> k \<Longrightarrow> bs_n_knots b \<le> length (bs_knots b) \<Longrightarrow>
   \<exists>k' s'. scan_knots tol b u k s = Some (k', s')"
proof (induction tol b u k s rule: scan_knots.induct)
  case (1 tol b u k s)
  show ?case
  proof (cases "k < int (bs_n_knots b)")
    case True
    with "1.prems" obtain uk where uk: "load (bs_knots b) k = Some uk"
      by (auto simp: load_def)
    show ?thesis
      using "1.IH"(1)[OF True uk] "1.IH"(2)[OF True uk] "1.prems" True uk
      by (subst scan_knots.simps) auto
  next
    case False
    then show ?thesis by (subst scan_knots.simps) auto
  qed
qed

lemma find_knot_total:
  assumes "length (bs_knots b) = bs_n_knots b"
  shows "\<exists>k s. find_knot tol b u = Some (k, s)"
proof -
  from scan_knots_total[of 0 b tol u 0] assms
  obtain k' s where "scan_knots tol b u 0 0 = Some (k', s)"
    by auto
  then show ?thesis by (simp add: find_knot_def)
qed

lemma evaluate_find_knot:
  assumes "ts_bspline_evaluate malloc tol b u = Some (Inr (ret, net))"
  shows "find_knot tol b u = Some (net_k net, net_s net)"
proof -
  from assms obtain k s where ks: "find_knot tol b u = Some (k, s)"
    by (auto simp: ts_bspline_evaluate_def bind_eq_Some_conv)
  from assms have "net_k net = k \<and> net_s net = s"
    unfolding evaluate_cases[OF ks]
    by (auto simp: evaluate_full_multiplicity_def evaluate_de_boor_def Let_def bind_eq_Some_conv
        split: if_splits)
  with ks show ?thesis by simp
qed

subsection \<open>The two error returns\<close>

lemma full_multiplicity_no_error:
  "evaluate_full_multiplicity malloc b net0 k s \<noteq> Some (Inl TS_MULTIPLICITY)"
  "evaluate_full_multiplicity malloc b net0 k s \<noteq> Some (Inl TS_U_UNDEFINED)"
  by (auto simp: evaluate_full_multiplicity_def Let_def bind_eq_Some_conv split: if_splits)

lemma de_boor_errors:
  "evaluate_de_boor malloc b u net0 k s \<noteq> Some (Inl TS_MULTIPLICITY)"
  "evaluate_de_boor malloc b u net0 k s = Some (Inl TS_U_UNDEFINED)
     \<longleftrightarrow> k - int (bs_deg b) < 0 \<or> int (bs_n_ctrlp b) \<le> k - s"
  "evaluate_de_boor malloc b u net0 k s = Some (Inr (ret, net))
     \<Longrightarrow> 0 \<le> k - int (bs_deg b) \<and> k - s < int (bs_n_ctrlp b)"
  by (auto simp: evaluate_de_boor_def Let_def bind_eq_Some_conv split: if_splits)

text \<open>
  Claim C4. With \<open>k\<close> and \<open>s\<close> as the scan leaves them, the evaluation fails with
  \<open>TS_MULTIPLICITY\<close> exactly when \<open>s\<close> exceeds the order; when \<open>s\<close> is below the order it
  fails with \<open>TS_U_UNDEFINED\<close> exactly when \<open>k - deg < 0\<close> or \<open>k - s \<ge> n_ctrlp\<close>; and a net is
  returned only when neither condition holds (a failure is a value \<open>Inl e\<close>, which carries no
  net: the C code resets the output structure with \<^verbatim>\<open>ts_deboornet_free\<close>).
\<close>

theorem evaluate_errors:
  assumes "length (bs_knots b) = bs_n_knots b"
  shows "\<exists>k s. find_knot tol b u = Some (k, s)
     \<and> (ts_bspline_evaluate malloc tol b u = Some (Inl TS_MULTIPLICITY) \<longleftrightarrow> int (bs_order b) < s)
     \<and> (s < int (bs_order b) \<longrightarrow>
          (ts_bspline_evaluate malloc tol b u = Some (Inl TS_U_UNDEFINED)
             \<longleftrightarrow> k - int (bs_deg b) < 0 \<or> int (bs_n_ctrlp b) \<le> k - s))
     \<and> (\<forall>ret net. ts_bspline_evaluate malloc tol b u = Some (Inr (ret, net)) \<longrightarrow>
          s \<le> int (bs_order b)
          \<and> (s < int (bs_order b) \<longrightarrow> 0 \<le> k - int (bs_deg b) \<and> k - s < int (bs_n_ctrlp b)))"
proof -
  from find_knot_total[OF assms] obtain k s where ks: "find_knot tol b u = Some (k, s)"
    by blast
  show ?thesis
    unfolding ks evaluate_cases[OF ks]
    using full_multiplicity_no_error de_boor_errors
    by (intro exI[of _ k] exI[of _ s]) (auto split: if_splits)
qed

theorem evaluate_errors_witness:
  "length (bs_knots example_polygon) = bs_n_knots example_polygon
   \<and> find_knot example_tolerance example_polygon 2 = Some (4, 0)
   \<and> ts_bspline_evaluate unlimited example_tolerance example_polygon 2 = Some (Inl TS_U_UNDEFINED)
   \<and> (\<exists>k s. find_knot example_tolerance example_polygon 2 = Some (k, s)
        \<and> (s < int (bs_order example_polygon) \<longrightarrow>
             (ts_bspline_evaluate unlimited example_tolerance example_polygon 2
                = Some (Inl TS_U_UNDEFINED)
              \<longleftrightarrow> k - int (bs_deg example_polygon) < 0
                  \<or> int (bs_n_ctrlp example_polygon) \<le> k - s)))"
proof -
  have h: "length (bs_knots example_polygon) = bs_n_knots example_polygon"
    by (simp add: example_polygon_def)
  have "find_knot example_tolerance example_polygon 2 = Some (4, 0)"
    by (simp add: evaluate_unfold example_tolerance_def example_polygon_def)
  moreover
  have "ts_bspline_evaluate unlimited example_tolerance example_polygon 2
          = Some (Inl TS_U_UNDEFINED)"
    by (simp add: evaluate_unfold unlimited_def example_tolerance_def example_polygon_def)
  ultimately show ?thesis
    using h evaluate_errors [OF h, of example_tolerance 2 unlimited] by auto
qed

subsection \<open>A knot of full multiplicity\<close>

lemma memcpy_fresh:
  assumes "0 \<le> from" "nat from + n \<le> length src"
  shows "memcpy (replicate n z) 0 src from (int n) = Some (take n (drop (nat from) src))"
  using assms by (simp add: memcpy_def)

lemma take_two_points:
  "take (2 * d) (drop (j * d) xs) = take d (drop (j * d) xs) @ take d (drop ((j + 1) * d) xs)"
proof -
  have "take (d + d) (drop (j * d) xs)
      = take d (drop (j * d) xs) @ take d (drop d (drop (j * d) xs))"
    by (rule take_add)
  then show ?thesis by (simp add: mult_2 add.commute)
qed

text \<open>
  Claim C5. When the counted multiplicity \<open>s\<close> equals the order, nothing is interpolated. If
  exactly one of the indices \<open>k - s\<close> and \<open>k - s + 1\<close> is the index of a control point, the
  return code is 1, \<open>n_points\<close> is 1 and the buffer is that control point. If both are, the
  return code is 2, \<open>n_points\<close> is 2 and the buffer is the two control points, one after the
  other.
\<close>

theorem evaluate_full_multiplicity_copies:
  assumes wf: "bspline_wf b" and ks: "find_knot tol b u = Some (k, s)"
    and full: "s = int (bs_order b)"
    and m1: "malloc (bs_dim b)" and m2: "malloc (2 * bs_dim b)"
  shows "(is_ctrlp_index b (k - s) \<noteq> is_ctrlp_index b (k - s + 1) \<longrightarrow>
           (\<exists>net. ts_bspline_evaluate malloc tol b u = Some (Inr (1, net))
              \<and> net_n_points net = 1 \<and> net_n_affected net = 1
              \<and> net_points net =
                  control_point b (nat (if is_ctrlp_index b (k - s) then k - s else k - s + 1))))
       \<and> (is_ctrlp_index b (k - s) \<and> is_ctrlp_index b (k - s + 1) \<longrightarrow>
           (\<exists>net. ts_bspline_evaluate malloc tol b u = Some (Inr (2, net))
              \<and> net_n_points net = 2 \<and> net_n_affected net = 2
              \<and> net_points net = control_point b (nat (k - s)) @ control_point b (nat (k - s + 1))))"
proof -
  define d where "d = bs_dim b"
  define f where "f = k - s"
  have len: "length (bs_ctrlp b) = bs_n_ctrlp b * d"
    using wf by (simp add: bspline_wf_def d_def)
  have fit: "nat j * d + d \<le> length (bs_ctrlp b)" if "is_ctrlp_index b j" for j
  proof -
    from that have "nat j + 1 \<le> bs_n_ctrlp b" by (auto simp: is_ctrlp_index_def)
    then have "(nat j + 1) * d \<le> bs_n_ctrlp b * d" by (rule mult_le_mono1)
    then show ?thesis by (simp add: len)
  qed
  have ev: "ts_bspline_evaluate malloc tol b u =
      evaluate_full_multiplicity malloc b
        (ts_deboornet_default\<lparr>net_deg := bs_deg b, net_dim := bs_dim b,
              net_k := k, net_s := s, net_h := int (bs_deg b) - s\<rparr>) k s"
    unfolding evaluate_cases[OF ks] using full by simp
  have one: ?thesis if "\<not> is_ctrlp_index b f" "is_ctrlp_index b (f + 1)"
  proof -
    from that have f: "f = - 1" by (auto simp: is_ctrlp_index_def)
    from fit[OF that(2)] have "nat 0 + d \<le> length (bs_ctrlp b)" by (simp add: f)
    from memcpy_fresh[OF _ this, of 0] that m1 show ?thesis
      unfolding ev evaluate_full_multiplicity_def Let_def f_def[symmetric] d_def[symmetric]
      by (simp add: f control_point_def d_def is_ctrlp_index_def)
  qed
  have other: ?thesis if "is_ctrlp_index b f" "\<not> is_ctrlp_index b (f + 1)"
  proof -
    from that have f: "0 \<le> f" "int (bs_n_ctrlp b) \<le> f + 1" by (auto simp: is_ctrlp_index_def)
    from fit[OF that(1)] have "nat (f * int d) + d \<le> length (bs_ctrlp b)"
      using f by (simp add: nat_mult_distrib)
    from memcpy_fresh[OF _ this] that m1 f show ?thesis
      unfolding ev evaluate_full_multiplicity_def Let_def f_def[symmetric] d_def[symmetric]
      by (simp add: control_point_def d_def nat_mult_distrib)
  qed
  have both: ?thesis if "is_ctrlp_index b f" "is_ctrlp_index b (f + 1)"
  proof -
    from that have f: "0 \<le> f" "f + 1 < int (bs_n_ctrlp b)" by (auto simp: is_ctrlp_index_def)
    from fit[OF that(2)] f have "nat (f * int d) + 2 * d \<le> length (bs_ctrlp b)"
      by (simp add: nat_mult_distrib nat_add_distrib)
    from memcpy_fresh[OF _ this] that m2 f show ?thesis
      unfolding ev evaluate_full_multiplicity_def Let_def f_def[symmetric] d_def[symmetric]
      using take_two_points[of d "nat f" "bs_ctrlp b"]
      by (simp add: control_point_def d_def nat_mult_distrib nat_add_distrib)
  qed
  have neither: ?thesis if "\<not> is_ctrlp_index b f" "\<not> is_ctrlp_index b (f + 1)"
    using that by (simp add: f_def)
  from one other both neither show ?thesis by blast
qed

theorem evaluate_full_multiplicity_copies_witness:
  "bspline_wf example_polygon
   \<and> find_knot example_tolerance example_polygon 1 = Some (4, 2)
   \<and> (2::int) = int (bs_order example_polygon)
   \<and> is_ctrlp_index example_polygon (4 - 2) \<and> \<not> is_ctrlp_index example_polygon (4 - 2 + 1)
   \<and> (\<exists>net. ts_bspline_evaluate unlimited example_tolerance example_polygon 1 = Some (Inr (1, net))
         \<and> net_n_points net = 1 \<and> net_points net = control_point example_polygon 2)
   \<and> bspline_wf example_joined
   \<and> find_knot example_tolerance example_joined (1 / 2) = Some (3, 2)
   \<and> is_ctrlp_index example_joined (3 - 2) \<and> is_ctrlp_index example_joined (3 - 2 + 1)
   \<and> (\<exists>net. ts_bspline_evaluate unlimited example_tolerance example_joined (1 / 2)
           = Some (Inr (2, net))
         \<and> net_n_points net = 2
         \<and> net_points net = control_point example_joined 1 @ control_point example_joined 2)"
proof -
  have wf1: "bspline_wf example_polygon"
    by (simp add: bspline_wf_def example_polygon_def)
  have ks1: "find_knot example_tolerance example_polygon 1 = Some (4, 2)"
    by (simp add: evaluate_unfold example_tolerance_def example_polygon_def)
  have s1: "(2::int) = int (bs_order example_polygon)"
    by (simp add: example_polygon_def)
  have wf2: "bspline_wf example_joined"
    by (simp add: bspline_wf_def example_joined_def)
  have ks2: "find_knot example_tolerance example_joined (1 / 2) = Some (3, 2)"
    by (simp add: evaluate_unfold example_tolerance_def example_joined_def)
  have s2: "(2::int) = int (bs_order example_joined)"
    by (simp add: example_joined_def)
  have m: "unlimited n" for n
    by (simp add: unlimited_def)
  have i1: "is_ctrlp_index example_polygon (4 - 2) \<and> \<not> is_ctrlp_index example_polygon (4 - 2 + 1)"
    by (simp add: is_ctrlp_index_def example_polygon_def)
  have i2: "is_ctrlp_index example_joined (3 - 2) \<and> is_ctrlp_index example_joined (3 - 2 + 1)"
    by (simp add: is_ctrlp_index_def example_joined_def)
  from evaluate_full_multiplicity_copies [where malloc = unlimited, OF wf1 ks1 s1 m m] i1
  have r1: "\<exists>net. ts_bspline_evaluate unlimited example_tolerance example_polygon 1
                 = Some (Inr (1, net))
         \<and> net_n_points net = 1 \<and> net_points net = control_point example_polygon 2"
    by auto
  from evaluate_full_multiplicity_copies [where malloc = unlimited, OF wf2 ks2 s2 m m] i2
  have r2: "\<exists>net. ts_bspline_evaluate unlimited example_tolerance example_joined (1 / 2)
           = Some (Inr (2, net))
         \<and> net_n_points net = 2
         \<and> net_points net = control_point example_joined 1 @ control_point example_joined 2"
    by auto
  from wf1 ks1 s1 i1 r1 wf2 ks2 i2 r2 show ?thesis by blast
qed

section \<open>Properties of the knot insertion\<close>

text \<open>
  Claim C7. If the evaluation at \<open>u\<close> succeeds with counted multiplicity \<open>s\<close> and
  \<open>s + n\<close> exceeds the order, the insertion fails with \<open>TS_MULTIPLICITY\<close>; if the evaluation
  fails, the insertion fails with the same error. A failure carries no curve.
\<close>

theorem insert_knot_errors:
  "(ts_bspline_evaluate malloc tol b u = Some (Inr (ret, net))
      \<and> find_knot tol b u = Some (k, s) \<and> int (bs_order b) < s + int n
      \<longrightarrow> ts_bspline_insert_knot malloc tol b u n = Some (Inl TS_MULTIPLICITY))
   \<and> (ts_bspline_evaluate malloc tol b u = Some (Inl e)
      \<longrightarrow> ts_bspline_insert_knot malloc tol b u n = Some (Inl e))"
proof -
  have "net_s net = s"
    if "ts_bspline_evaluate malloc tol b u = Some (Inr (ret, net))"
      and "find_knot tol b u = Some (k, s)"
    using evaluate_find_knot[OF that(1)] that(2) by simp
  then show ?thesis
    by (auto simp: ts_bspline_insert_knot_def)
qed

theorem insert_knot_errors_witness:
  "ts_bspline_evaluate unlimited example_tolerance example_polygon (1 / 4) =
     Some (Inr (0, \<lparr>net_k = 1, net_s = 0, net_h = 1, net_deg = 1, net_dim = 1,
                    net_n_affected = 2, net_n_points = 3, net_last_idx = 2,
                    net_points = [0, 1, 1 / 2]\<rparr>))
   \<and> find_knot example_tolerance example_polygon (1 / 4) = Some (1, 0)
   \<and> int (bs_order example_polygon) < 0 + int 3
   \<and> ts_bspline_insert_knot unlimited example_tolerance example_polygon (1 / 4) 3
       = Some (Inl TS_MULTIPLICITY)
   \<and> ts_bspline_evaluate unlimited example_tolerance example_polygon 2 = Some (Inl TS_U_UNDEFINED)
   \<and> ts_bspline_insert_knot unlimited example_tolerance example_polygon 2 1
       = Some (Inl TS_U_UNDEFINED)"
proof -
  have e1: "ts_bspline_evaluate unlimited example_tolerance example_polygon (1 / 4) =
     Some (Inr (0, \<lparr>net_k = 1, net_s = 0, net_h = 1, net_deg = 1, net_dim = 1,
                    net_n_affected = 2, net_n_points = 3, net_last_idx = 2,
                    net_points = [0, 1, 1 / 2]\<rparr>))"
    by (simp add: evaluate_unfold unlimited_def example_tolerance_def example_polygon_def)
  have k1: "find_knot example_tolerance example_polygon (1 / 4) = Some (1, 0)"
    by (simp add: evaluate_unfold example_tolerance_def example_polygon_def)
  have o1: "int (bs_order example_polygon) < 0 + int 3"
    by (simp add: example_polygon_def)
  have e2: "ts_bspline_evaluate unlimited example_tolerance example_polygon 2
              = Some (Inl TS_U_UNDEFINED)"
    by (simp add: evaluate_unfold unlimited_def example_tolerance_def example_polygon_def)
  from insert_knot_errors [where malloc = unlimited and tol = example_tolerance
      and b = example_polygon and u = "1 / 4" and ret = 0 and k = 1 and s = 0 and n = 3]
    e1 k1 o1
  have r1: "ts_bspline_insert_knot unlimited example_tolerance example_polygon (1 / 4) 3
       = Some (Inl TS_MULTIPLICITY)"
    by blast
  from insert_knot_errors [where malloc = unlimited and tol = example_tolerance
      and b = example_polygon and u = 2 and e = TS_U_UNDEFINED and n = 1]
    e2
  have r2: "ts_bspline_insert_knot unlimited example_tolerance example_polygon 2 1
       = Some (Inl TS_U_UNDEFINED)"
    by blast
  from e1 k1 o1 r1 e2 r2 show ?thesis by blast
qed

section \<open>Properties of construction and copy\<close>

lemma fill_const_ok:
  "end' \<le> length knots \<Longrightarrow>
   \<exists>knots'. fill_const end' v (knots, current) = Some (knots', max current end')
      \<and> length knots' = length knots"
proof (induction end' v "(knots, current)" arbitrary: knots current rule: fill_const.induct)
  case (1 end' v knots current)
  show ?case
  proof (cases "current < end'")
    case True
    with "1.prems" have st: "store knots (int current) v = Some (knots[current := v])"
      by (simp add: store_def)
    from "1.hyps"[OF True st] "1.prems"
    obtain knots' where "fill_const end' v (knots[current := v], current + 1) = Some (knots', max (current + 1) end')"
      "length knots' = length knots" by auto
    with True st show ?thesis
      by (subst fill_const.simps) (simp add: max_def)
  next
    case False
    then show ?thesis by (subst fill_const.simps) (simp add: max_def)
  qed
qed

lemma fill_uniform_ok:
  "end' \<le> length knots \<Longrightarrow>
   \<exists>knots' numerator'. fill_uniform end' dominator (knots, current, numerator)
        = Some (knots', max current end', numerator')
      \<and> length knots' = length knots"
proof (induction end' dominator "(knots, current, numerator)" arbitrary: knots current numerator
    rule: fill_uniform.induct)
  case (1 end' dominator knots current numerator)
  show ?case
  proof (cases "current < end'")
    case True
    define x where "x = real numerator / real dominator"
    from True "1.prems" have st: "store knots (int current) x = Some (knots[current := x])"
      by (simp add: store_def)
    from "1.hyps"[OF True st[unfolded x_def]] "1.prems"
    obtain knots' numerator' where
      "fill_uniform end' dominator (knots[current := x], current + 1, numerator + 1)
         = Some (knots', max (current + 1) end', numerator')"
      "length knots' = length knots" by (auto simp: x_def)
    with True st show ?thesis
      by (subst fill_uniform.simps) (simp add: max_def x_def)
  next
    case False
    then show ?thesis by (subst fill_uniform.simps) (simp add: max_def)
  qed
qed

lemma ts_bspline_new_ok:
  assumes "1 \<le> d" "deg < n" "malloc (n * d)" "malloc (n + (deg + 1))"
  shows "\<exists>kn. length kn = n + (deg + 1)
     \<and> ts_bspline_new malloc deg d n t =
         Some (Inr \<lparr>bs_deg = deg, bs_order = deg + 1, bs_dim = d, bs_n_ctrlp = n,
                    bs_n_knots = n + (deg + 1), bs_ctrlp = replicate (n * d) 0, bs_knots = kn\<rparr>)"
proof -
  define ord where "ord = deg + 1"
  define m where "m = n + ord"
  define fresh :: "real list" where "fresh = replicate m 0"
  have fresh: "length fresh = m" by (simp add: fresh_def)
  have "\<exists>kn. length kn = m \<and>
     (if t = TS_OPENED then
        do {
          (knots, current, numerator) \<leftarrow> fill_uniform m (m - 1) (fresh, 0, 0);
          Some knots
        }
      else
        do {
          (knots1, current1) \<leftarrow> fill_const ord 0 (fresh, 0);
          (knots2, current2, numerator) \<leftarrow>
            fill_uniform (m - ord) (m - (2 * deg) - 1) (knots1, current1, 1);
          (knots3, current3) \<leftarrow> fill_const m 1 (knots2, current2);
          Some knots3
        }) = Some kn"
  proof (cases "t = TS_OPENED")
    case True
    from fill_uniform_ok[of m fresh "m - 1" 0 0] fresh
    obtain kn num where "fill_uniform m (m - 1) (fresh, 0, 0) = Some (kn, max 0 m, num)"
      "length kn = m" by auto
    with True show ?thesis by simp
  next
    case False
    from fill_const_ok[of ord fresh 0 0] fresh
    obtain k1 where k1: "fill_const ord 0 (fresh, 0) = Some (k1, max 0 ord)"
      "length k1 = m" by (auto simp: m_def)
    from fill_uniform_ok[of "m - ord" k1 "m - (2 * deg) - 1" "max 0 ord" 1] k1(2)
    obtain k2 num where k2: "fill_uniform (m - ord) (m - (2 * deg) - 1) (k1, max 0 ord, 1)
        = Some (k2, max (max 0 ord) (m - ord), num)" "length k2 = m" by auto
    from fill_const_ok[of m k2 1 "max (max 0 ord) (m - ord)"] k2(2)
    obtain k3 where k3: "fill_const m 1 (k2, max (max 0 ord) (m - ord))
        = Some (k3, max (max (max 0 ord) (m - ord)) m)" "length k3 = m" by auto
    from False k1 k2 k3 show ?thesis by simp
  qed
  then obtain kn where kn: "length kn = m" and eq: "(if t = TS_OPENED then
        do {
          (knots, current, numerator) \<leftarrow> fill_uniform m (m - 1) (fresh, 0, 0);
          Some knots
        }
      else
        do {
          (knots1, current1) \<leftarrow> fill_const ord 0 (fresh, 0);
          (knots2, current2, numerator) \<leftarrow>
            fill_uniform (m - ord) (m - (2 * deg) - 1) (knots1, current1, 1);
          (knots3, current3) \<leftarrow> fill_const m 1 (knots2, current2);
          Some knots3
        }) = Some kn" by blast
  have "ts_bspline_new malloc deg d n t =
         Some (Inr \<lparr>bs_deg = deg, bs_order = ord, bs_dim = d, bs_n_ctrlp = n,
                    bs_n_knots = m, bs_ctrlp = replicate (n * d) 0, bs_knots = kn\<rparr>)"
    unfolding ts_bspline_new_def Let_def ord_def[symmetric] m_def[symmetric] fresh_def[symmetric] eq
    using assms by (simp add: m_def ord_def)
  with kn show ?thesis unfolding m_def ord_def by blast
qed

lemma memcpy_whole:
  assumes "length dst = n" "0 \<le> from" "nat from + n \<le> length src"
  shows "memcpy dst 0 src from (int n) = Some (take n (drop (nat from) src))"
  using assms by (simp add: memcpy_def)

lemma ts_bspline_copy_ok:
  assumes wf: "bspline_wf b" and m: "malloc (bs_n_ctrlp b * bs_dim b)" "malloc (bs_n_knots b)"
  shows "ts_bspline_copy malloc b = Some (Inr b)"
proof -
  from wf have *: "1 \<le> bs_dim b" "bs_deg b < bs_n_ctrlp b" "bs_order b = bs_deg b + 1"
    "bs_n_knots b = bs_n_ctrlp b + (bs_deg b + 1)"
    "length (bs_ctrlp b) = bs_n_ctrlp b * bs_dim b" "length (bs_knots b) = bs_n_knots b"
    by (simp_all add: bspline_wf_def)
  from ts_bspline_new_ok[OF *(1) *(2), of malloc TS_CLAMPED] m *(4)
  obtain kn where kn: "length kn = bs_n_knots b"
    "ts_bspline_new malloc (bs_deg b) (bs_dim b) (bs_n_ctrlp b) TS_CLAMPED =
       Some (Inr \<lparr>bs_deg = bs_deg b, bs_order = bs_deg b + 1, bs_dim = bs_dim b,
                  bs_n_ctrlp = bs_n_ctrlp b, bs_n_knots = bs_n_ctrlp b + (bs_deg b + 1),
                  bs_ctrlp = replicate (bs_n_ctrlp b * bs_dim b) 0, bs_knots = kn\<rparr>)"
    by auto
  have c: "memcpy (replicate (bs_n_ctrlp b * bs_dim b) 0) 0 (bs_ctrlp b) 0
             (int (bs_n_ctrlp b * bs_dim b)) = Some (bs_ctrlp b)"
    using memcpy_whole[of "replicate (bs_n_ctrlp b * bs_dim b) 0" "bs_n_ctrlp b * bs_dim b" 0 "bs_ctrlp b"] *(5)
    by simp
  have k: "memcpy kn 0 (bs_knots b) 0 (int (bs_n_knots b)) = Some (bs_knots b)"
    using memcpy_whole[of kn "bs_n_knots b" 0 "bs_knots b"] kn(1) *(6) by simp
  show ?thesis
    unfolding ts_bspline_copy_def kn(2) using c k * by simp
qed

section \<open>Properties of the tolerant comparison and of the scan\<close>

lemma ts_fequals_sym: "ts_fequals tol x y = ts_fequals tol y x"
proof -
  have a: "\<bar>x - y\<bar> = \<bar>y - x\<bar>" by simp
  have b: "\<bar>(x - y) / z\<bar> = \<bar>(y - x) / z\<bar>" for z
    by (simp add: abs_divide abs_minus_commute)
  have c: "\<bar>(x - y) / y\<bar> = \<bar>(y - x) / x\<bar>" if "\<bar>x\<bar> = \<bar>y\<bar>"
    using that by (simp add: abs_divide abs_minus_commute)
  show ?thesis
    unfolding ts_fequals_def Let_def a
    using b c by (auto simp: not_less abs_minus_commute)
qed

lemma ts_fequals_between:
  assumes rel: "FLT_MAX_REL_ERROR tol < 1"
    and eq: "ts_fequals tol u a" and ab: "a \<le> b" and bu: "b \<le> u"
  shows "ts_fequals tol u b"
proof (cases "\<bar>u - b\<bar> < FLT_MAX_ABS_ERROR tol")
  case True
  then show ?thesis by (simp add: ts_fequals_def)
next
  case False
  with ab bu have na: "\<not> \<bar>u - a\<bar> < FLT_MAX_ABS_ERROR tol" by linarith
  define R where "R = FLT_MAX_REL_ERROR tol"
  from eq na have nz: "\<not> (u = 0 \<and> a = 0)"
    and ra: "(if \<bar>u\<bar> > \<bar>a\<bar> then \<bar>(u - a) / u\<bar> else \<bar>(u - a) / a\<bar>) \<le> R"
    by (auto simp: ts_fequals_def Let_def R_def split: if_splits)
  have R: "R < 1" using rel by (simp add: R_def)
  consider (pos) "0 < u" | (zero) "u = 0" | (neg) "u < 0" by linarith
  then have "\<not> (u = 0 \<and> b = 0) \<and> (if \<bar>u\<bar> > \<bar>b\<bar> then \<bar>(u - b) / u\<bar> else \<bar>(u - b) / b\<bar>) \<le> R"
  proof cases
    case pos
    have R0: "0 \<le> R"
    proof (cases "\<bar>u\<bar> > \<bar>a\<bar>")
      case True
      with ra have "\<bar>(u - a) / u\<bar> \<le> R" by simp
      then show ?thesis using abs_ge_zero[of "(u - a) / u"] by linarith
    next
      case False
      with ra have "\<bar>(u - a) / a\<bar> \<le> R" by simp
      then show ?thesis using abs_ge_zero[of "(u - a) / a"] by linarith
    qed
    have apos: "0 < a"
    proof (rule ccontr)
      assume "\<not> 0 < a"
      then have a0: "a \<le> 0" by simp
      show False
      proof (cases "\<bar>u\<bar> > \<bar>a\<bar>")
        case True
        with ra have "\<bar>(u - a) / u\<bar> \<le> R" by simp
        moreover have "1 \<le> (u - a) / u" using pos a0 by (simp add: field_simps)
        ultimately show False using R by linarith
      next
        case False
        with pos a0 have an: "a < 0" by auto
        from False ra have "\<bar>(u - a) / a\<bar> \<le> R" by simp
        moreover have "(u - a) / a \<le> - 1" using pos an by (simp add: field_simps)
        ultimately show False using R by linarith
      qed
    qed
    show ?thesis
    proof (cases "\<bar>u\<bar> > \<bar>b\<bar>")
      case True
      with pos apos ab bu have lt: "a < u" by auto
      then have "\<bar>u\<bar> > \<bar>a\<bar>" using apos by simp
      with ra have "\<bar>(u - a) / u\<bar> \<le> R" by simp
      moreover have "\<bar>(u - b) / u\<bar> \<le> \<bar>(u - a) / u\<bar>"
        using pos ab bu lt by (simp add: abs_divide field_simps)
      ultimately show ?thesis using True pos by auto
    next
      case False
      with pos apos ab bu have "b = u" by auto
      with False pos R0 show ?thesis by simp
    qed
  next
    case zero
    show ?thesis
      using R R_def ab bu eq less_eq_real_def na ts_fequals_def zero by force
  next
    case neg
    from neg ab bu have bn: "b < 0" and an: "a < 0" by auto
    from neg ab bu have le: "\<not> \<bar>u\<bar> > \<bar>a\<bar>" "\<not> \<bar>u\<bar> > \<bar>b\<bar>" by auto
    with ra have "\<bar>(u - a) / a\<bar> \<le> R" by simp
    moreover have "\<bar>(u - b) / b\<bar> \<le> \<bar>(u - a) / a\<bar>"
    proof -
      have "\<bar>(u - b) / b\<bar> = 1 - u / b" using bn bu by (simp add: abs_divide field_simps)
      moreover have "\<bar>(u - a) / a\<bar> = 1 - u / a" using an ab bu by (simp add: abs_divide field_simps)
      moreover have "u / a \<le> u / b"
        using neg an bn ab by (simp add: field_simps)
      ultimately show ?thesis by linarith
    qed
    ultimately show ?thesis using le bn by auto
  qed
  with False show ?thesis by (simp add: ts_fequals_def Let_def R_def)
qed

lemma scan_knots_spec:
  assumes "scan_knots tol b u k0 s0 = Some (k', s')" "0 \<le> k0" "k0 \<le> int (bs_n_knots b)"
    "length (bs_knots b) = bs_n_knots b"
  shows "k0 \<le> k' \<and> k' \<le> int (bs_n_knots b)
    \<and> s' = s0 + int (length (filter (ts_fequals tol u)
                (take (nat (k' - k0)) (drop (nat k0) (bs_knots b)))))
    \<and> (\<forall>x \<in> set (take (nat (k' - k0)) (drop (nat k0) (bs_knots b))). ts_fequals tol u x \<or> \<not> u < x)
    \<and> (k' < int (bs_n_knots b) \<longrightarrow>
          \<not> ts_fequals tol u (bs_knots b ! nat k') \<and> u < bs_knots b ! nat k')"
  using assms
proof (induction tol b u k0 s0 rule: scan_knots.induct)
  case (1 tol b u k s)
  define K where "K = bs_knots b"
  show ?case
  proof (cases "k < int (bs_n_knots b)")
    case True
    with "1.prems" have uk: "load (bs_knots b) k = Some (K ! nat k)"
      by (simp add: load_def K_def)
    have cons: "take (nat (k' - k)) (drop (nat k) K) = K ! nat k # take (nat (k' - (k + 1))) (drop (nat (k + 1)) K)"
      if "k + 1 \<le> k'"
    proof -
      from that "1.prems" have "nat (k' - k) = Suc (nat (k' - (k + 1)))" by simp
      moreover from True "1.prems" have "drop (nat k) K = K ! nat k # drop (nat (k + 1)) K"
        by (simp add: K_def Cons_nth_drop_Suc nat_add_distrib)
      ultimately show ?thesis by simp
    qed
    show ?thesis
    proof (cases "ts_fequals tol u (K ! nat k)")
      case eq: True
      with "1.prems"(1) True uk have rec: "scan_knots tol b u (k + 1) (s + 1) = Some (k', s')"
        by (subst (asm) scan_knots.simps) simp
      from "1.IH"(1)[OF True uk[unfolded K_def] eq[unfolded K_def] rec] "1.prems" True
      have ih: "k + 1 \<le> k' \<and> k' \<le> int (bs_n_knots b)
        \<and> s' = s + 1 + int (length (filter (ts_fequals tol u)
                (take (nat (k' - (k + 1))) (drop (nat (k + 1)) K))))
        \<and> (\<forall>x \<in> set (take (nat (k' - (k + 1))) (drop (nat (k + 1)) K)). ts_fequals tol u x \<or> \<not> u < x)
        \<and> (k' < int (bs_n_knots b) \<longrightarrow>
          \<not> ts_fequals tol u (K ! nat k') \<and> u < K ! nat k')"
        by (simp add: K_def)
      then show ?thesis using cons eq by (simp add: K_def[symmetric])
    next
      case ne: False
      show ?thesis
      proof (cases "u < K ! nat k")
        case lt: True
        with "1.prems"(1) True uk ne have "k' = k" "s' = s"
          by (subst (asm) scan_knots.simps; simp)+
        with True ne lt show ?thesis by (simp add: K_def[symmetric])
      next
        case ge: False
        with "1.prems"(1) True uk ne have rec: "scan_knots tol b u (k + 1) s = Some (k', s')"
          by (subst (asm) scan_knots.simps) simp
        from "1.IH"(2)[OF True uk[unfolded K_def] ne[unfolded K_def] ge[unfolded K_def] rec] "1.prems" True
        have ih: "k + 1 \<le> k' \<and> k' \<le> int (bs_n_knots b)
          \<and> s' = s + int (length (filter (ts_fequals tol u)
                  (take (nat (k' - (k + 1))) (drop (nat (k + 1)) K))))
          \<and> (\<forall>x \<in> set (take (nat (k' - (k + 1))) (drop (nat (k + 1)) K)). ts_fequals tol u x \<or> \<not> u < x)
          \<and> (k' < int (bs_n_knots b) \<longrightarrow>
            \<not> ts_fequals tol u (K ! nat k') \<and> u < K ! nat k')"
          by (simp add: K_def)
        then show ?thesis using cons ne ge by (simp add: K_def[symmetric])
      qed
    qed
  next
    case False
    with "1.prems"(1) have "k' = k" "s' = s"
      by (subst (asm) scan_knots.simps; simp)+
    with False "1.prems" show ?thesis by simp
  qed
qed

lemma find_knot_spec:
  assumes "find_knot tol b u = Some (k, s)" "length (bs_knots b) = bs_n_knots b"
  shows "- 1 \<le> k \<and> k < int (bs_n_knots b)
    \<and> s = int (length (filter (ts_fequals tol u) (take (nat (k + 1)) (bs_knots b))))
    \<and> (\<forall>x \<in> set (take (nat (k + 1)) (bs_knots b)). ts_fequals tol u x \<or> \<not> u < x)
    \<and> (k + 1 < int (bs_n_knots b) \<longrightarrow>
          \<not> ts_fequals tol u (bs_knots b ! nat (k + 1)) \<and> u < bs_knots b ! nat (k + 1))"
proof -
  from assms(1) have "scan_knots tol b u 0 0 = Some (k + 1, s)"
    by (auto simp: find_knot_def bind_eq_Some_conv)
  from scan_knots_spec[OF this _ _ assms(2)] show ?thesis by simp
qed

lemma find_knot_bounds:
  assumes "find_knot tol b u = Some (k, s)" "length (bs_knots b) = bs_n_knots b"
  shows "0 \<le> s" "s \<le> k + 1" "k < int (bs_n_knots b)"
proof -
  from find_knot_spec[OF assms] have *: "- 1 \<le> k" "k < int (bs_n_knots b)"
    "s = int (length (filter (ts_fequals tol u) (take (nat (k + 1)) (bs_knots b))))"
    by auto
  show "0 \<le> s" using *(3) by simp
  have "length (filter (ts_fequals tol u) (take (nat (k + 1)) (bs_knots b))) \<le> nat (k + 1)"
    by (rule order_trans[OF length_filter_le]) simp
  with * show "s \<le> k + 1" by linarith
  show "k < int (bs_n_knots b)" by fact
qed

text \<open>The knots counted by \<open>s\<close> are the last \<open>s\<close> knots up to index \<open>k\<close>.\<close>

lemma counted_knots_contiguous:
  assumes ks: "find_knot tol b u = Some (k, s)" and len: "length (bs_knots b) = bs_n_knots b"
    and sorted: "sorted (bs_knots b)" and rel: "FLT_MAX_REL_ERROR tol < 1"
    and p: "p \<le> nat k" "0 \<le> k" "k - int p < s"
  shows "ts_fequals tol u (bs_knots b ! p)"
proof (rule ccontr)
  assume ne: "\<not> ts_fequals tol u (bs_knots b ! p)"
  define K where "K = bs_knots b"
  define P where "P = ts_fequals tol u"
  from find_knot_spec[OF ks len] have *: "k < int (length K)"
    "s = int (length (filter P (take (nat (k + 1)) K)))"
    "\<forall>x \<in> set (take (nat (k + 1)) K). P x \<or> \<not> u < x"
    by (auto simp: K_def P_def len)
  from p * have pl: "p < length K" "p < nat (k + 1)" by auto
  have split: "take (nat (k + 1)) K = take p K @ K ! p # take (nat k - p) (drop (Suc p) K)"
  proof -
    have "take (nat (k + 1)) K = take (p + Suc (nat k - p)) K"
      using p by (simp add: nat_add_distrib)
    also have "\<dots> = take p K @ take (Suc (nat k - p)) (drop p K)"
      by (rule take_add)
    also have "drop p K = K ! p # drop (Suc p) K"
      using pl by (simp add: Cons_nth_drop_Suc)
    finally show ?thesis by simp
  qed
  have "length (filter P (take (nat (k + 1)) K))
      = length (filter P (take p K)) + length (filter P (take (nat k - p) (drop (Suc p) K)))"
    unfolding split using ne by (simp add: K_def P_def)
  moreover have "length (filter P (take (nat k - p) (drop (Suc p) K))) \<le> nat k - p"
    by (rule order_trans[OF length_filter_le]) simp
  ultimately have "0 < length (filter P (take p K))"
    using *(2) p by linarith
  then obtain x where x: "x \<in> set (take p K)" "P x"
    by (metis filter_False length_greater_0_conv)
  then obtain i where i: "i < p" "K ! i = x"
    using pl by (auto simp: in_set_conv_nth)
  have "K ! p \<in> set (take (nat (k + 1)) K)" unfolding split by simp
  with *(3) ne have "K ! p \<le> u" by (auto simp: P_def K_def)
  moreover have "K ! i \<le> K ! p"
    using sorted_nth_mono[OF sorted, of i p] i(1) pl(1) by (simp add: K_def)
  ultimately have "ts_fequals tol u (K ! p)"
    using ts_fequals_between[OF rel, of u "K ! i" "K ! p"] x i by (simp add: P_def)
  with ne show False by (simp add: K_def)
qed

section \<open>The evaluation builds the De Boor table\<close>

lemma interpolate_steps:
  assumes "l + m \<le> t" "r + m \<le> t" "t + m \<le> length pts" "n + m = dimn"
  shows "interpolate a ah dimn n (pts, int l, int r, int t) =
     Some (take t pts @ map2 (\<lambda>x y. ah * x + a * y) (take m (drop l pts)) (take m (drop r pts))
             @ drop (t + m) pts,
           int (l + m), int (r + m), int (t + m))"
  using assms
proof (induction m arbitrary: pts l r t n)
  case 0
  then show ?case by (subst interpolate.simps) simp
next
  case (Suc m)
  define v where "v = ah * pts ! l + a * pts ! r"
  from Suc.prems have lt: "l < length pts" "r < length pts" "t < length pts" "n < dimn"
    by auto
  then have ld: "load pts (int l) = Some (pts ! l)" "load pts (int r) = Some (pts ! r)"
    and st: "store pts (int t) v = Some (pts[t := v])"
    by (simp_all add: load_def store_def)
  from Suc.prems have ih: "interpolate a ah dimn (n + 1) (pts[t := v], int (l + 1), int (r + 1), int (t + 1)) =
     Some (take (t + 1) (pts[t := v])
             @ map2 (\<lambda>x y. ah * x + a * y) (take m (drop (l + 1) (pts[t := v])))
                  (take m (drop (r + 1) (pts[t := v])))
             @ drop (t + 1 + m) (pts[t := v]),
           int (l + 1 + m), int (r + 1 + m), int (t + 1 + m))"
    by (intro Suc.IH) simp_all
  have 1: "take (t + 1) (pts[t := v]) = take t pts @ [v]"
    using lt by (simp add: take_Suc_conv_app_nth)
  have 2: "take m (drop (l + 1) (pts[t := v])) = take m (drop (l + 1) pts)"
    using Suc.prems by (simp add: drop_update_swap)
  have 3: "take m (drop (r + 1) (pts[t := v])) = take m (drop (r + 1) pts)"
    using Suc.prems by (simp add: drop_update_swap)
  have 4: "drop (t + 1 + m) (pts[t := v]) = drop (t + Suc m) pts"
    by simp
  have 5: "take (Suc m) (drop l pts) = pts ! l # take m (drop (l + 1) pts)"
    "take (Suc m) (drop r pts) = pts ! r # take m (drop (r + 1) pts)"
    using lt by (simp_all add: Cons_nth_drop_Suc[symmetric])
  show ?case
    apply (subst interpolate.simps)
    using lt(4) ld st ih unfolding 1 2 3 4 5
    by (simp add: v_def ac_simps)
qed

lemma interpolated_length:
  "length p = d \<Longrightarrow> length q = d \<Longrightarrow> length (interpolated a p q) = d"
  by (simp add: interpolated_def)

lemma next_row_length: "length (next_row b u r i ps) = length ps - 1"
  by (induction b u r i ps rule: next_row.induct) simp_all

lemma next_row_points:
  "\<forall>p \<in> set ps. length p = d \<Longrightarrow> \<forall>p \<in> set (next_row b u r i ps). length p = d"
  by (induction b u r i ps rule: next_row.induct) (simp_all add: interpolated_length)

lemma concat_points_length: "\<forall>p \<in> set ps. length p = d \<Longrightarrow> length (concat ps) = length ps * d"
  by (induction ps) simp_all

lemma deboor_row_step:
  assumes "i \<le> lst" "load (bs_knots b) i = Some ui"
    "load (bs_knots b) (i + int (bs_deg b) - r + 1) = Some uj"
    "interpolate ((u - ui) / (uj - ui)) (1 - (u - ui) / (uj - ui)) (bs_dim b) 0 st = Some st'"
  shows "deboor_row b u r lst i st = deboor_row b u r lst (i + 1) st'"
  using assms by (subst deboor_row.simps) (simp add: Let_def)

lemma deboor_row_steps:
  assumes "\<forall>p \<in> set ps. length p = bs_dim b" "length ps = Suc m"
    and "int i + int m = lst + 1" "r \<le> bs_deg b"
    and "i + m + bs_deg b < length (bs_knots b) + r"
    and "m * bs_dim b \<le> length B"
  shows "deboor_row b u (int r) lst (int i)
       (A @ concat ps @ C @ B, int (length A), int (length A + bs_dim b),
        int (length A + length (concat ps) + length C)) =
     Some (A @ concat ps @ C @ concat (next_row b u r i ps) @ drop (m * bs_dim b) B,
           int (length A + m * bs_dim b), int (length A + m * bs_dim b + bs_dim b),
           int (length A + length (concat ps) + length C + m * bs_dim b))"
  using assms
proof (induction m arbitrary: ps A C B i)
  case 0
  then obtain p where "ps = [p]" by (cases ps) auto
  with 0 show ?case by (subst deboor_row.simps) simp
next
  case (Suc m)
  define d where "d = bs_dim b"
  define K where "K = bs_knots b"
  from Suc.prems(2) obtain p q ps' where ps: "ps = p # q # ps'"
    by (cases ps; cases "tl ps") auto
  with Suc.prems have len: "length p = d" "length q = d" "\<forall>x \<in> set ps'. length x = d"
    "length ps' = m"
    by (auto simp: d_def)
  define a where "a = blend_factor b u r i"
  define new where "new = interpolated a p q"
  have newlen: "length new = d" by (simp add: new_def interpolated_length len)
  from Suc.prems have i: "int i \<le> lst" by simp
  from Suc.prems have rng: "i < length K" "i + bs_deg b - r + 1 < length K"
    by (auto simp: K_def)
  have ld1: "load (bs_knots b) (int i) = Some (K ! i)"
    using rng by (simp add: load_def K_def)
  have eq: "int i + int (bs_deg b) - int r + 1 = int (i + bs_deg b - r + 1)"
    using Suc.prems(4) by simp
  have ld2: "load (bs_knots b) (int i + int (bs_deg b) - int r + 1)
      = Some (K ! (i + bs_deg b - r + 1))"
    unfolding eq using rng(2) by (simp only: load_def K_def of_nat_less_iff of_nat_0_le_iff
        nat_int if_True simp_thms)
  have afac: "(u - K ! i) / (K ! (i + bs_deg b - r + 1) - K ! i) = a"
    by (simp add: a_def blend_factor_def K_def)
  define pts where "pts = A @ concat ps @ C @ B"
  define t where "t = length A + length (concat ps) + length C"
  have cl': "length (concat ps') = m * d"
    using concat_points_length[OF len(3)] len(4) by simp
  have cl: "length (concat ps) = d + d + m * d"
    using len cl' by (simp add: ps)
  have bl: "d \<le> length B" using Suc.prems(6) by (simp add: d_def)
  have tk: "take t pts = A @ concat ps @ C"
    by (simp add: pts_def t_def)
  have s1: "take d (drop (length A) pts) = p"
    by (simp add: pts_def ps len)
  have s2: "take d (drop (length A + d) pts) = q"
    by (simp add: pts_def ps len)
  have dr: "drop (t + d) pts = drop d B"
    by (simp add: pts_def t_def)
  have "interpolate a (1 - a) d 0 (pts, int (length A), int (length A + d), int t) =
     Some (take t pts @ map2 (\<lambda>x y. (1 - a) * x + a * y) (take d (drop (length A) pts))
              (take d (drop (length A + d) pts)) @ drop (t + d) pts,
           int (length A + d), int (length A + d + d), int (t + d))"
    by (rule interpolate_steps) (use cl bl in \<open>simp_all add: t_def pts_def\<close>)
  then have ip: "interpolate a (1 - a) d 0 (pts, int (length A), int (length A + d), int t) =
     Some ((A @ p) @ concat (q # ps') @ (C @ new) @ drop d B,
           int (length (A @ p)), int (length (A @ p) + d),
           int (length (A @ p) + length (concat (q # ps')) + length (C @ new)))"
    unfolding tk s1 s2 dr
    by (simp add: ps new_def interpolated_def t_def len newlen)
  have ih: "deboor_row b u (int r) lst (int (i + 1))
       ((A @ p) @ concat (q # ps') @ (C @ new) @ drop d B, int (length (A @ p)),
        int (length (A @ p) + bs_dim b),
        int (length (A @ p) + length (concat (q # ps')) + length (C @ new))) =
     Some ((A @ p) @ concat (q # ps') @ (C @ new) @ concat (next_row b u r (i + 1) (q # ps'))
             @ drop (m * bs_dim b) (drop d B),
           int (length (A @ p) + m * bs_dim b), int (length (A @ p) + m * bs_dim b + bs_dim b),
           int (length (A @ p) + length (concat (q # ps')) + length (C @ new) + m * bs_dim b))"
    by (rule Suc.IH) (use Suc.prems len in \<open>simp_all add: d_def ps\<close>)
  have i1: "int (i + 1) = int i + 1" by simp
  have step: "deboor_row b u (int r) lst (int i) (pts, int (length A), int (length A + d), int t)
      = deboor_row b u (int r) lst (int i + 1)
       ((A @ p) @ concat (q # ps') @ (C @ new) @ drop d B, int (length (A @ p)),
        int (length (A @ p) + d),
        int (length (A @ p) + length (concat (q # ps')) + length (C @ new)))"
    by (rule deboor_row_step[OF i ld1 ld2]) (use ip in \<open>simp only: afac[unfolded K_def] d_def K_def\<close>)
  have res: "(A @ p) @ concat (q # ps') @ (C @ new) @ concat (next_row b u r (i + 1) (q # ps'))
             @ drop (m * d) (drop d B)
       = A @ concat ps @ C @ concat (next_row b u r i ps) @ drop (Suc m * d) B"
    by (simp add: ps new_def a_def add.commute)
  have idx: "int (length (A @ p) + m * d) = int (length A + Suc m * d)"
    "int (length (A @ p) + m * d + d) = int (length A + Suc m * d + d)"
    "int (length (A @ p) + length (concat (q # ps')) + length (C @ new) + m * d)
       = int (length A + length (concat ps) + length C + Suc m * d)"
    by (simp_all add: ps len newlen)
  show ?case
    using step[unfolded pts_def t_def] ih[unfolded i1]
    unfolding d_def[symmetric] res idx by (simp only:)
qed

lemma deboor_rounds_step:
  assumes "r \<le> h" "deboor_row b u r lst (fs + r) st = Some (points, idx_l, idx_r, idx_to)"
  shows "deboor_rounds b u fs lst h r st =
     deboor_rounds b u fs lst h (r + 1)
       (points, idx_l + int (bs_dim b), idx_r + int (bs_dim b), idx_to)"
  using assms by (subst deboor_rounds.simps) simp

lemma deboor_rounds_steps:
  assumes "\<forall>p \<in> set prev. length p = bs_dim b" "length prev = Suc cnt"
    and "int r + int cnt = h + 1" "r + cnt \<le> bs_deg b + 1"
    and "int first + int r + int cnt = lst + 1"
    and "1 \<le> r" "first + r + cnt + bs_deg b \<le> length (bs_knots b)"
    and "length (concat (concat (later_rows b u first r cnt prev))) \<le> length B"
  shows "\<exists>idx_l idx_r idx_to.
     deboor_rounds b u (int first) lst h (int r)
       (A @ concat prev @ B, int (length A), int (length A + bs_dim b),
        int (length A + length (concat prev))) =
     Some (A @ concat prev @ concat (concat (later_rows b u first r cnt prev))
             @ drop (length (concat (concat (later_rows b u first r cnt prev)))) B,
           idx_l, idx_r, idx_to)"
  using assms
proof (induction cnt arbitrary: prev A B r)
  case 0
  then show ?case by (subst deboor_rounds.simps) simp
next
  case (Suc cnt)
  define d where "d = bs_dim b"
  define row where "row = next_row b u r (first + r) prev"
  define rest where "rest = later_rows b u first (r + 1) cnt row"
  have lr: "later_rows b u first r (Suc cnt) prev = row # rest"
    by (simp add: row_def rest_def Let_def)
  have rowlen: "length row = Suc cnt" "\<forall>p \<in> set row. length p = d"
    using Suc.prems(1,2) by (simp_all add: row_def next_row_length next_row_points d_def)
  have crow: "length (concat row) = Suc cnt * d"
    using concat_points_length[OF rowlen(2)] rowlen(1) by simp
  have cprev: "length (concat prev) = Suc (Suc cnt) * d"
    using concat_points_length[OF Suc.prems(1)] Suc.prems(2) by (simp add: d_def)
  from Suc.prems(8) have B: "Suc cnt * d \<le> length B"
    "length (concat (concat rest)) \<le> length (drop (Suc cnt * d) B)"
    unfolding lr by (simp_all add: crow)
  have rh: "int r \<le> h" using Suc.prems(3) by simp
  have fr: "int first + int r = int (first + r)" by simp
  have "deboor_row b u (int r) lst (int (first + r))
       (A @ concat prev @ [] @ B, int (length A), int (length A + bs_dim b),
        int (length A + length (concat prev) + length ([] :: real list))) =
     Some (A @ concat prev @ [] @ concat (next_row b u r (first + r) prev)
             @ drop (Suc cnt * bs_dim b) B,
           int (length A + Suc cnt * bs_dim b), int (length A + Suc cnt * bs_dim b + bs_dim b),
           int (length A + length (concat prev) + length ([] :: real list) + Suc cnt * bs_dim b))"
    by (rule deboor_row_steps) (use Suc.prems B in \<open>simp_all add: d_def\<close>)
  then have rw: "deboor_row b u (int r) lst (int first + int r)
       (A @ concat prev @ B, int (length A), int (length A + bs_dim b),
        int (length A + length (concat prev))) =
     Some (A @ concat prev @ concat row @ drop (Suc cnt * d) B,
           int (length A + Suc cnt * d), int (length A + Suc cnt * d + d),
           int (length A + length (concat prev) + Suc cnt * d))"
    unfolding fr row_def d_def by (simp only: append_Nil list.size add_0_right)
  note st = deboor_rounds_step[OF rh rw]
  have "\<exists>idx_l idx_r idx_to.
     deboor_rounds b u (int first) lst h (int (r + 1))
       ((A @ concat prev) @ concat row @ drop (Suc cnt * d) B, int (length (A @ concat prev)),
        int (length (A @ concat prev) + bs_dim b),
        int (length (A @ concat prev) + length (concat row))) =
     Some ((A @ concat prev) @ concat row @ concat (concat (later_rows b u first (r + 1) cnt row))
             @ drop (length (concat (concat (later_rows b u first (r + 1) cnt row))))
                 (drop (Suc cnt * d) B),
           idx_l, idx_r, idx_to)"
    by (rule Suc.IH) (use Suc.prems rowlen B in \<open>simp_all add: d_def rest_def\<close>)
  then obtain idx_l idx_r idx_to where ih:
    "deboor_rounds b u (int first) lst h (int (r + 1))
       ((A @ concat prev) @ concat row @ drop (Suc cnt * d) B, int (length (A @ concat prev)),
        int (length (A @ concat prev) + bs_dim b),
        int (length (A @ concat prev) + length (concat row))) =
     Some ((A @ concat prev) @ concat row @ concat (concat rest)
             @ drop (length (concat (concat rest))) (drop (Suc cnt * d) B),
           idx_l, idx_r, idx_to)"
    unfolding rest_def by blast
  have e1: "(A @ concat prev) @ concat row @ drop (Suc cnt * d) B
      = A @ concat prev @ concat row @ drop (Suc cnt * d) B" by simp
  have e2: "int (length (A @ concat prev)) = int (length A + Suc cnt * d) + int (bs_dim b)"
    "int (length (A @ concat prev) + bs_dim b) = int (length A + Suc cnt * d + d) + int (bs_dim b)"
    "int (length (A @ concat prev) + length (concat row))
       = int (length A + length (concat prev) + Suc cnt * d)"
    "int (r + 1) = int r + 1"
    by (simp_all add: cprev crow d_def)
  have e3: "(A @ concat prev) @ concat row @ concat (concat rest)
             @ drop (length (concat (concat rest))) (drop (Suc cnt * d) B)
      = A @ concat prev @ concat (concat (row # rest))
             @ drop (length (concat (concat (row # rest)))) B"
    by (simp add: crow add.commute)
  show ?case
    unfolding lr st using ih unfolding e1 e2 e3 by blast
qed

lemma control_point_length:
  "(j + 1) * bs_dim b \<le> length (bs_ctrlp b) \<Longrightarrow> length (control_point b j) = bs_dim b"
  by (simp add: control_point_def)

lemma control_points_concat:
  "(first + N) * bs_dim b \<le> length (bs_ctrlp b) \<Longrightarrow>
   concat (map (control_point b) [first ..< first + N])
     = take (N * bs_dim b) (drop (first * bs_dim b) (bs_ctrlp b))"
proof (induction N)
  case 0
  then show ?case by simp
next
  case (Suc N)
  define d where "d = bs_dim b"
  from Suc.prems have le: "(first + N) * d \<le> length (bs_ctrlp b)"
    by (simp add: d_def)
  have "take (Suc N * d) (drop (first * d) (bs_ctrlp b))
      = take (N * d + d) (drop (first * d) (bs_ctrlp b))" by (simp add: add.commute)
  also have "\<dots> = take (N * d) (drop (first * d) (bs_ctrlp b))
      @ take d (drop (N * d) (drop (first * d) (bs_ctrlp b)))"
    by (rule take_add)
  also have "drop (N * d) (drop (first * d) (bs_ctrlp b)) = drop ((first + N) * d) (bs_ctrlp b)"
    by (simp add: add_mult_distrib add.commute)
  finally show ?case
    using Suc.IH[OF le[unfolded d_def]] by (simp add: control_point_def d_def)
qed

lemma later_rows_length: "length (later_rows b u first r cnt prev) = cnt"
  by (induction cnt arbitrary: r prev) (simp_all add: Let_def)

lemma later_rows_last:
  "length prev = Suc cnt \<Longrightarrow> length (last (prev # later_rows b u first r cnt prev)) = 1"
proof (induction cnt arbitrary: r prev)
  case 0
  then show ?case by simp
next
  case (Suc cnt)
  from Suc.prems have "length (next_row b u r (first + r) prev) = Suc cnt"
    by (simp add: next_row_length)
  from Suc.IH[OF this] show ?case by (simp add: Let_def)
qed

lemma triangle_step: "Suc n * d + (n * (n + 1) div 2) * d = (Suc n * (Suc n + 1) div 2) * d"
proof -
  have "Suc n * (Suc n + 1) = n * (n + 1) + Suc n * 2" by simp
  then have "Suc n * (Suc n + 1) div 2 = n * (n + 1) div 2 + Suc n"
    by (simp only: div_mult_self1 div_mult_self2 zero_neq_numeral not_False_eq_True) 
  then show ?thesis by (simp add: add_mult_distrib)
qed

lemma later_rows_size:
  "\<forall>p \<in> set prev. length p = d \<Longrightarrow> length prev = Suc cnt \<Longrightarrow>
   length (concat (concat (later_rows b u first r cnt prev))) = (cnt * (cnt + 1) div 2) * d"
proof (induction cnt arbitrary: r prev)
  case 0
  then show ?case by simp
next
  case (Suc cnt)
  define row where "row = next_row b u r (first + r) prev"
  have rowlen: "length row = Suc cnt" "\<forall>p \<in> set row. length p = d"
    using Suc.prems by (simp_all add: row_def next_row_length next_row_points)
  have "length (concat row) = Suc cnt * d"
    using concat_points_length[OF rowlen(2)] rowlen(1) by simp
  with Suc.IH[OF rowlen(2) rowlen(1), of "r + 1"] triangle_step[of cnt d]
  show ?case by (simp add: Let_def row_def[symmetric])
qed

lemma later_rows_points:
  "\<forall>p \<in> set prev. length p = d \<Longrightarrow>
   \<forall>row \<in> set (later_rows b u first r cnt prev). \<forall>p \<in> set row. length p = d"
proof (induction cnt arbitrary: r prev)
  case 0
  then show ?case by simp
next
  case (Suc cnt)
  have row: "\<forall>p \<in> set (next_row b u r (first + r) prev). length p = d"
    by (rule next_row_points[OF Suc.prems])
  from row Suc.IH[OF row, of "r + 1"] show ?case
    by (simp add: Let_def)
qed

lemma half_product: "n * (n + 1) div 2 = n + (n - 1) * n div (2::nat)"
proof (cases n)
  case 0
  then show ?thesis by simp
next
  case (Suc m)
  have "Suc m * (Suc m + 1) = m * Suc m + Suc m * 2" by simp
  then have "Suc m * (Suc m + 1) div 2 = m * Suc m div 2 + Suc m"
    by (simp only: div_mult_self1 div_mult_self2 zero_neq_numeral not_False_eq_True)
  with Suc show ?thesis by simp
qed

lemma n_points_half: "nat \<lfloor>real (n * (n + 1)) * 0.5\<rfloor> = n * (n + 1) div 2"
proof -
  have "even (n * (n + 1))" by simp
  then obtain m where m: "n * (n + 1) = 2 * m" by (elim evenE)
  show ?thesis unfolding m by simp
qed

lemma memcpy_prefix:
  assumes "0 \<le> off" "cnt = int c" "c \<le> length dst" "nat off + c \<le> length src"
  shows "memcpy dst 0 src off cnt = Some (take c (drop (nat off) src) @ drop c dst)"
  using assms by (simp add: memcpy_def)

lemma evaluate_de_boor_ok:
  fixes N :: nat
  defines "P \<equiv> nat \<lfloor>real (binary32_of_nat (N * (N + 1))) * 0.5\<rfloor>"
  assumes "0 \<le> k - int (bs_deg b)" "k - s < int (bs_n_ctrlp b)"
    "size_t (k - s - (k - int (bs_deg b)) + 1) = Some N"
    "size_t (int P - 1) = Some L"
    "malloc (P * bs_dim b)"
    "memcpy (replicate (P * bs_dim b) 0) 0 (bs_ctrlp b) ((k - int (bs_deg b)) * int (bs_dim b))
       (int (N * bs_dim b)) = Some points"
    "deboor_rounds b u (k - int (bs_deg b)) (k - s) (net_h net0) 1
       (points, 0, int (bs_dim b), int (N * bs_dim b)) = Some (points', idx_l, idx_r, idx_to)"
  shows "evaluate_de_boor malloc b u net0 k s =
     Some (Inr (0, net0\<lparr>net_n_affected := N, net_n_points := P, net_last_idx := L * bs_dim b,
                        net_points := points'\<rparr>))"
  using assms(2-) unfolding evaluate_de_boor_def Let_def P_def by simp

text \<open>
  Let the evaluation reach the general case: \<open>s\<close> is below the order and the window from
  \<open>k - deg\<close> to \<open>k - s\<close> lies inside the control points. Let the product \<open>N (N + 1)\<close> of the
  \<open>N = deg - s + 1\<close> affected control points be a \<^verbatim>\<open>float\<close>. Then the return code is 0, and
  the buffer of the net is the table of the specification, row after row: row 0 is the
  affected control points, there are \<open>h = deg - s\<close> further rows, the last row is a single
  point, and this point is what the buffer holds at offset \<open>last_idx\<close>.
\<close>

lemma evaluate_general_case:
  assumes wf: "bspline_wf b" and ks: "find_knot tol b u = Some (k, s)"
    and lt: "s < int (bs_order b)"
    and lo: "0 \<le> k - int (bs_deg b)" and hi: "k - s < int (bs_n_ctrlp b)"
    and N: "N = nat (int (bs_deg b) - s + 1)"
    and m: "malloc (N * (N + 1) div 2 * bs_dim b)"
    and exact: "binary32_of_nat (N * (N + 1)) = N * (N + 1)"
  shows "\<exists>net p. ts_bspline_evaluate malloc tol b u = Some (Inr (0, net))
      \<and> net_k net = k \<and> net_s net = s \<and> net_h net = int (bs_deg b) - s
      \<and> net_n_affected net = N \<and> net_n_points net = N * (N + 1) div 2
      \<and> net_points net = concat (concat (de_boor_table b u (nat (k - int (bs_deg b))) N))
      \<and> length (de_boor_table b u (nat (k - int (bs_deg b))) N) = nat (int (bs_deg b) - s) + 1
      \<and> last (de_boor_table b u (nat (k - int (bs_deg b))) N) = [p]
      \<and> take (bs_dim b) (drop (net_last_idx net) (net_points net)) = p
      \<and> length (net_points net) = N * (N + 1) div 2 * bs_dim b"
proof -
  define d where "d = bs_dim b"
  define dg where "dg = bs_deg b"
  define n where "n = bs_n_ctrlp b"
  define first where "first = nat (k - int dg)"
  define P where "P = N * (N + 1) div 2"
  define row0 where "row0 = map (control_point b) [first ..< first + N]"
  define later where "later = later_rows b u first 1 (N - 1) row0"
  define B0 :: "real list" where "B0 = replicate (P * d - N * d) 0"
  from wf have w: "1 \<le> d" "dg < n" "bs_order b = dg + 1" "bs_n_knots b = n + (dg + 1)"
    "length (bs_ctrlp b) = n * d" "length (bs_knots b) = n + (dg + 1)"
    by (simp_all add: bspline_wf_def d_def dg_def n_def)
  have len: "length (bs_knots b) = bs_n_knots b" using w by simp
  note kb = find_knot_bounds[OF ks len]
  have s: "0 \<le> s" "s \<le> int dg" using kb(1) lt w by simp_all
  have N1: "1 \<le> N" "int N = int dg - s + 1" using s by (simp_all add: N dg_def)
  have fN: "int first + int N = k - s + 1" "int first = k - int dg"
    using lo N1 by (simp_all add: first_def dg_def)
  have fit: "(first + N) * d \<le> length (bs_ctrlp b)"
  proof -
    from fN hi have "first + N \<le> n" by (simp add: n_def)
    then show ?thesis unfolding w(5) by (rule mult_le_mono1)
  qed
  have tbl: "de_boor_table b u first N = row0 # later"
    by (simp add: de_boor_table_def Let_def row0_def later_def)
  have row0: "length row0 = Suc (N - 1)" "\<forall>p \<in> set row0. length p = d"
  proof -
    show "length row0 = Suc (N - 1)" using N1 by (simp add: row0_def)
    show "\<forall>p \<in> set row0. length p = d"
    proof
      fix p assume "p \<in> set row0"
      then obtain j where j: "p = control_point b j" "j < first + N"
        by (auto simp: row0_def)
      then have "(j + 1) * d \<le> (first + N) * d" by (intro mult_le_mono1) simp
      with fit have "(j + 1) * bs_dim b \<le> length (bs_ctrlp b)" by (simp add: d_def)
      from control_point_length[OF this] j show "length p = d" by (simp add: d_def)
    qed
  qed
  have c0: "concat row0 = take (N * d) (drop (first * d) (bs_ctrlp b))"
    unfolding row0_def d_def by (rule control_points_concat) (use fit in \<open>simp add: d_def\<close>)
  have l0: "length (concat row0) = N * d"
    using concat_points_length[OF row0(2)] row0(1) N1 by simp
  have llater: "length (concat (concat later)) = ((N - 1) * N div 2) * d"
    using later_rows_size[OF row0(2) row0(1), of b u first 1] N1 by (simp add: later_def)
  have PN: "P = N + (N - 1) * N div 2" unfolding P_def by (rule half_product)
  have lB0: "length B0 = length (concat (concat later))"
    by (simp add: B0_def llater PN add_mult_distrib)
  have P1: "1 \<le> P" using N1 PN by simp
  have sz: "size_t (k - s - (k - int dg) + 1) = Some N"
    using N1 by (simp add: size_t_def N dg_def)
  have np: "nat \<lfloor>real (binary32_of_nat (N * (N + 1))) * 0.5\<rfloor> = P"
    by (simp only: exact n_points_half P_def)
  have sb: "size_t (int P - 1) = Some (P - 1)"
    using P1 by (simp add: size_t_def)
  have cp: "memcpy (replicate (P * d) 0) 0 (bs_ctrlp b) ((k - int dg) * int d) (int (N * d))
      = Some (concat row0 @ B0)"
  proof -
    have off: "nat ((k - int dg) * int d) = first * d" using lo
      by (simp add: first_def nat_mult_distrib dg_def)
    have "memcpy (replicate (P * d) 0) 0 (bs_ctrlp b) ((k - int dg) * int d) (int (N * d))
      = Some (take (N * d) (drop (nat ((k - int dg) * int d)) (bs_ctrlp b))
               @ drop (N * d) (replicate (P * d) 0))"
    proof (rule memcpy_prefix)
      show "0 \<le> (k - int dg) * int d" using lo by (simp add: dg_def)
      show "int (N * d) = int (N * d)" ..
      show "N * d \<le> length (replicate (P * d) (0::real))" using PN by simp
      show "nat ((k - int dg) * int d) + N * d \<le> length (bs_ctrlp b)"
        unfolding off using fit by (simp add: add_mult_distrib)
    qed
    then show ?thesis unfolding off by (simp add: c0 B0_def)
  qed
  have "\<exists>idx_l idx_r idx_to.
     deboor_rounds b u (int first) (k - s) (int dg - s) (int 1)
       ([] @ concat row0 @ B0, int (length ([] :: real list)),
        int (length ([] :: real list) + bs_dim b),
        int (length ([] :: real list) + length (concat row0))) =
     Some ([] @ concat row0 @ concat (concat later) @ drop (length (concat (concat later))) B0,
           idx_l, idx_r, idx_to)"
    unfolding later_def
  proof (rule deboor_rounds_steps)
    show "\<forall>p \<in> set row0. length p = bs_dim b" using row0(2) by (simp add: d_def)
    show "length row0 = Suc (N - 1)" by (rule row0(1))
    show "int 1 + int (N - 1) = int dg - s + 1" using N1 by simp
    show "1 + (N - 1) \<le> bs_deg b + 1" using N1 s by (simp add: dg_def)
    show "int first + int 1 + int (N - 1) = k - s + 1" using fN N1 by simp
    show "(1::nat) \<le> 1" by simp
    show "first + 1 + (N - 1) + bs_deg b \<le> length (bs_knots b)"
      using fN N1 hi w(6) by (simp add: dg_def n_def)
    show "length (concat (concat (later_rows b u first 1 (N - 1) row0))) \<le> length B0"
      using lB0 by (simp add: later_def)
  qed
  moreover have "[] @ concat row0 @ concat (concat later) @ drop (length (concat (concat later))) B0
      = concat (concat (row0 # later))"
    using lB0 by simp
  moreover have "int first = k - int dg" "int 1 = 1" "int (length ([] :: real list)) = 0"
    "int (length ([] :: real list) + bs_dim b) = int d"
    "int (length ([] :: real list) + length (concat row0)) = int (N * d)"
    "[] @ concat row0 @ B0 = concat row0 @ B0"
    using fN(2) l0 by (simp_all add: d_def)
  ultimately obtain idx_l idx_r idx_to where rounds:
    "deboor_rounds b u (k - int dg) (k - s) (int dg - s) 1
       (concat row0 @ B0, 0, int d, int (N * d)) =
     Some (concat (concat (row0 # later)), idx_l, idx_r, idx_to)"
    by (simp only:) blast
  define net0 where "net0 = ts_deboornet_default
       \<lparr>net_deg := bs_deg b, net_dim := bs_dim b, net_k := k, net_s := s,
        net_h := int (bs_deg b) - s\<rparr>"
  define net where "net = net0\<lparr>net_n_affected := N, net_n_points := P,
        net_last_idx := (P - 1) * bs_dim b, net_points := concat (concat (row0 # later))\<rparr>"
  have h0: "net_h net0 = int dg - s" by (simp add: net0_def dg_def)
  have "evaluate_de_boor malloc b u net0 k s = Some (Inr (0, net))"
    unfolding net_def
    using evaluate_de_boor_ok[where malloc = malloc and N = N, unfolded np, OF lo hi
          sz[unfolded dg_def] sb m[folded P_def]
          cp[unfolded dg_def d_def] rounds[folded h0, unfolded dg_def d_def]] .
  then have ev: "ts_bspline_evaluate malloc tol b u = Some (Inr (0, net))"
    unfolding evaluate_cases[OF ks] net0_def using lt by simp
  have "length (last (row0 # later)) = 1"
    unfolding later_def by (rule later_rows_last) (rule row0(1))
  then obtain p where p: "last (row0 # later) = [p]"
    by (cases "last (row0 # later)") auto
  have "p \<in> set (last (row0 # later))" using p by simp
  moreover have "\<forall>row \<in> set (row0 # later). \<forall>q \<in> set row. length q = d"
    using row0(2) later_rows_points[OF row0(2), of b u first 1 "N - 1"] by (simp add: later_def)
  ultimately have pl: "length p = d"
    using last_in_set[of "row0 # later"] by blast
  have total: "length (concat (concat (row0 # later))) = P * d"
    using l0 llater PN by (simp add: add_mult_distrib)
  have "concat (concat (row0 # later)) = concat (concat (butlast (row0 # later))) @ p"
  proof -
    have "row0 # later = butlast (row0 # later) @ [last (row0 # later)]"
      by (rule append_butlast_last_id[symmetric]) simp
    then have "concat (concat (row0 # later))
        = concat (concat (butlast (row0 # later) @ [last (row0 # later)]))" by simp
    then show ?thesis unfolding p by simp
  qed
  then obtain X where X: "concat (concat (row0 # later)) = X @ p" by blast
  from arg_cong[OF X, of length] total pl have "length X + d = P * d" by simp
  then have "length X = (P - 1) * d"
    by (simp add: diff_mult_distrib)
  then have lastpt: "take d (drop ((P - 1) * d) (concat (concat (row0 # later)))) = p"
    unfolding X using pl by simp
  have "length (row0 # later) = nat (int dg - s) + 1"
    using N1 by (simp add: later_def later_rows_length nat_diff_distrib)
  with ev p lastpt total show ?thesis
    unfolding first_def[symmetric] dg_def[symmetric] tbl d_def[symmetric] first_def[symmetric]
    by (intro exI[of _ net] exI[of _ p]) (simp add: net_def net0_def ts_deboornet_default_def P_def dg_def first_def d_def)
qed

lemma example_table:
  "de_boor_table example_parabola (1 / 4) 0 3 = [[[0], [1], [2]], [[1 / 2], [5 / 4]], [[7 / 8]]]"
  by (simp add: de_boor_table_def Let_def control_point_def blend_factor_def interpolated_def
      example_parabola_def upt_rec numeral_3_eq_3)

text \<open>The table of the parabola at the parameter \<open>1/4\<close>.\<close>

lemma evaluate_parabola_table:
  "bspline_wf example_parabola
   \<and> find_knot example_tolerance example_parabola (1 / 4) = Some (2, 0)
   \<and> (0::int) < int (bs_order example_parabola)
   \<and> 0 \<le> 2 - int (bs_deg example_parabola) \<and> 2 - 0 < int (bs_n_ctrlp example_parabola)
   \<and> de_boor_table example_parabola (1 / 4) 0 3 = [[[0], [1], [2]], [[1 / 2], [5 / 4]], [[7 / 8]]]
   \<and> (\<exists>net. ts_bspline_evaluate unlimited example_tolerance example_parabola (1 / 4)
           = Some (Inr (0, net))
        \<and> net_n_affected net = 3 \<and> net_n_points net = 6
        \<and> net_points net = [0, 1, 2, 1 / 2, 5 / 4, 7 / 8]
        \<and> take 1 (drop (net_last_idx net) (net_points net)) = [7 / 8])"
proof -
  have wf: "bspline_wf example_parabola"
    by (simp add: bspline_wf_def example_parabola_def)
  have ks: "find_knot example_tolerance example_parabola (1 / 4) = Some (2, 0)"
    by (simp add: evaluate_unfold example_tolerance_def example_parabola_def)
  have lt: "(0::int) < int (bs_order example_parabola)"
    by (simp add: example_parabola_def)
  have lo: "0 \<le> 2 - int (bs_deg example_parabola)"
    by (simp add: example_parabola_def)
  have hi: "2 - 0 < int (bs_n_ctrlp example_parabola)"
    by (simp add: example_parabola_def)
  have N: "(3::nat) = nat (int (bs_deg example_parabola) - 0 + 1)"
    by (simp add: example_parabola_def)
  have m: "unlimited (3 * (3 + 1) div 2 * bs_dim example_parabola)"
    by (simp add: unlimited_def)
  have exact: "binary32_of_nat (3 * (3 + 1)) = 3 * (3 + 1)"
    by (simp add: binary32_small)
  have first: "nat (2 - int (bs_deg example_parabola)) = 0" "bs_dim example_parabola = 1"
    by (simp_all add: example_parabola_def)
  from evaluate_general_case [where malloc = unlimited, OF wf ks lt lo hi N m exact]
  have "\<exists>net. ts_bspline_evaluate unlimited example_tolerance example_parabola (1 / 4)
           = Some (Inr (0, net))
        \<and> net_n_affected net = 3 \<and> net_n_points net = 6
        \<and> net_points net = [0, 1, 2, 1 / 2, 5 / 4, 7 / 8]
        \<and> take 1 (drop (net_last_idx net) (net_points net)) = [7 / 8]"
    unfolding first example_table by auto
  with wf ks lt lo hi example_table show ?thesis by blast
qed

section \<open>A table that does not fit its buffer\<close>

text \<open>
  Where the loops of the table return, the index \<open>idx_to\<close> has advanced by one coordinate
  for every coordinate stored, and it has stayed inside the buffer.
\<close>

lemma interpolate_advance:
  assumes "interpolate a a_hat dimn n st = Some st'" and "n \<le> dimn"
  shows "snd (snd (snd st')) = snd (snd (snd st)) + int (dimn - n)
       \<and> (n < dimn \<longrightarrow> snd (snd (snd st')) \<le> int (length (fst st)))"
  using assms
proof (induction a a_hat dimn n st arbitrary: st' rule: interpolate.induct)
  case (1 a a_hat dimn n points idx_l idx_r idx_to)
  show ?case
  proof (cases "n < dimn")
    case True
    with "1.prems" obtain pl pr points' where
      *: "load points idx_l = Some pl" "load points idx_r = Some pr"
         "store points idx_to (a_hat * pl + a * pr) = Some points'"
         "interpolate a a_hat dimn (n + 1) (points', idx_l + 1, idx_r + 1, idx_to + 1) = Some st'"
      by (subst (asm) interpolate.simps) (auto simp: bind_eq_Some_conv)
    from *(3) have in_buffer: "idx_to < int (length points)"
      by (simp add: store_def split: if_splits)
    from True have "n + 1 \<le> dimn" by simp
    from "1.IH"[OF True *(1) *(2) *(3) *(4) this] store_length[OF *(3)] in_buffer True
    show ?thesis by (cases "n + 1 < dimn") auto
  next
    case False
    with "1.prems" show ?thesis by (subst (asm) interpolate.simps) auto
  qed
qed

lemma deboor_row_advance:
  assumes "deboor_row b u r lst i st = Some st'" and "i \<le> lst + 1"
  shows "snd (snd (snd st')) = snd (snd (snd st)) + (lst + 1 - i) * int (bs_dim b)
       \<and> (i \<le> lst \<and> 1 \<le> bs_dim b \<longrightarrow> snd (snd (snd st')) \<le> int (length (fst st)))"
  using assms
proof (induction b u r lst i st arbitrary: st' rule: deboor_row.induct)
  case (1 b u r lst i st)
  show ?case
  proof (cases "i \<le> lst")
    case True
    with "1.prems" obtain ui uj st1 where
      *: "load (bs_knots b) i = Some ui" "load (bs_knots b) (i + int (bs_deg b) - r + 1) = Some uj"
         "interpolate ((u - ui) / (uj - ui)) (1 - (u - ui) / (uj - ui)) (bs_dim b) 0 st = Some st1"
         "deboor_row b u r lst (i + 1) st1 = Some st'"
      by (subst (asm) deboor_row.simps) (auto simp: bind_eq_Some_conv Let_def)
    from True have next_i: "i + 1 \<le> lst + 1" by simp
    from interpolate_advance[OF *(3)]
    have point: "snd (snd (snd st1)) = snd (snd (snd st)) + int (bs_dim b)"
      "1 \<le> bs_dim b \<longrightarrow> snd (snd (snd st1)) \<le> int (length (fst st))"
      by auto
    from "1.IH"[OF True *(1) *(2) refl refl *(3) *(4) next_i]
    have rest: "snd (snd (snd st')) = snd (snd (snd st1)) + (lst + 1 - (i + 1)) * int (bs_dim b)"
      "i + 1 \<le> lst \<and> 1 \<le> bs_dim b \<longrightarrow> snd (snd (snd st')) \<le> int (length (fst st1))"
      by blast+
    have "snd (snd (snd st')) = snd (snd (snd st)) + (lst + 1 - i) * int (bs_dim b)"
      unfolding rest(1) point(1) by (simp add: algebra_simps)
    moreover have "snd (snd (snd st')) \<le> int (length (fst st))" if "1 \<le> bs_dim b"
    proof (cases "i + 1 \<le> lst")
      case True
      with rest(2) that interpolate_length[OF *(3)] show ?thesis by simp
    next
      case False
      with True have "lst + 1 - (i + 1) = 0" by simp
      with rest(1) point(2) that show ?thesis by simp
    qed
    ultimately show ?thesis by simp
  next
    case False
    with "1.prems" show ?thesis by (subst (asm) deboor_row.simps) auto
  qed
qed

lemma deboor_rounds_advance:
  assumes "deboor_rounds b u fs lst h r st = Some st'" and "r \<le> h + 1" and "fs + h \<le> lst"
  shows "2 * snd (snd (snd st')) = 2 * snd (snd (snd st))
           + (h + 1 - r) * (2 * (lst + 1 - fs) - h - r) * int (bs_dim b)
       \<and> (r \<le> h \<and> 1 \<le> bs_dim b \<longrightarrow> snd (snd (snd st')) \<le> int (length (fst st)))"
  using assms
proof (induction b u fs lst h r st arbitrary: st' rule: deboor_rounds.induct)
  case (1 b u fs lst h r st)
  show ?case
  proof (cases "r \<le> h")
    case True
    with "1.prems" obtain points idx_l idx_r idx_to where
      *: "deboor_row b u r lst (fs + r) st = Some (points, idx_l, idx_r, idx_to)"
         "deboor_rounds b u fs lst h (r + 1)
            (points, idx_l + int (bs_dim b), idx_r + int (bs_dim b), idx_to) = Some st'"
      by (subst (asm) deboor_rounds.simps) (auto simp: bind_eq_Some_conv)
    from True "1.prems"(3) have first: "fs + r \<le> lst" "fs + r \<le> lst + 1" by simp_all
    from deboor_row_advance[OF *(1) first(2)] first(1)
    have row: "idx_to = snd (snd (snd st)) + (lst + 1 - (fs + r)) * int (bs_dim b)"
      "1 \<le> bs_dim b \<longrightarrow> idx_to \<le> int (length (fst st))"
      by auto
    from True have next_r: "r + 1 \<le> h + 1" by simp
    from "1.IH"[OF True *(1) refl refl refl *(2) next_r "1.prems"(3)]
    have rest: "2 * snd (snd (snd st')) = 2 * idx_to
           + (h + 1 - (r + 1)) * (2 * (lst + 1 - fs) - h - (r + 1)) * int (bs_dim b)"
      "r + 1 \<le> h \<and> 1 \<le> bs_dim b \<longrightarrow> snd (snd (snd st')) \<le> int (length points)"
      by auto
    have "2 * snd (snd (snd st')) = 2 * snd (snd (snd st))
           + (h + 1 - r) * (2 * (lst + 1 - fs) - h - r) * int (bs_dim b)"
      unfolding rest(1) row(1) by (simp add: algebra_simps)
    moreover have "snd (snd (snd st')) \<le> int (length (fst st))" if "1 \<le> bs_dim b"
    proof (cases "r + 1 \<le> h")
      case True
      with rest(2) that deboor_row_length[OF *(1)] show ?thesis by simp
    next
      case False
      with \<open>r \<le> h\<close> have "h + 1 - (r + 1) = 0" by simp
      with rest(1) row(2) that show ?thesis by simp
    qed
    ultimately show ?thesis by simp
  next
    case False
    with "1.prems" show ?thesis by (subst (asm) deboor_rounds.simps) auto
  qed
qed

text \<open>
  The general case with a \<^verbatim>\<open>float\<close> below the product \<open>N (N + 1)\<close>: the buffer is shorter
  than the table, some point is stored behind its end, and the evaluation returns nothing.
\<close>

lemma n_points_truncated: "nat \<lfloor>real n * 0.5\<rfloor> = n div 2"
proof -
  have "\<lfloor>real n / real 2\<rfloor> = int (n div 2)" by (rule floor_divide_of_nat_eq)
  then show ?thesis by simp
qed

lemma evaluate_overrun:
  assumes wf: "bspline_wf b" and ks: "find_knot tol b u = Some (k, s)"
    and lt: "s < int (bs_order b)"
    and lo: "0 \<le> k - int (bs_deg b)" and hi: "k - s < int (bs_n_ctrlp b)"
    and N: "N = nat (int (bs_deg b) - s + 1)"
    and short: "binary32_of_nat (N * (N + 1)) < N * (N + 1)"
    and m: "malloc (nat \<lfloor>real (binary32_of_nat (N * (N + 1))) * 0.5\<rfloor> * bs_dim b)"
  shows "ts_bspline_evaluate malloc tol b u = None"
proof -
  define P where "P = nat \<lfloor>real (binary32_of_nat (N * (N + 1))) * 0.5\<rfloor>"
  define X where "X = int N * (int N + 1)"
  from wf have w: "1 \<le> bs_dim b" "bs_order b = bs_deg b + 1" "length (bs_knots b) = bs_n_knots b"
    by (simp_all add: bspline_wf_def)
  note kb = find_knot_bounds[OF ks w(3)]
  have N1: "int N = int (bs_deg b) - s + 1" using kb(1) lt w(2) by (simp add: N)
  have "\<not> N * (N + 1) < 2 ^ 24" using short binary32_small[of "N * (N + 1)"] by auto
  then have N2: "2 \<le> N" by (cases "N = 0 \<or> N = 1") auto
  have "P = binary32_of_nat (N * (N + 1)) div 2" unfolding P_def by (rule n_points_truncated)
  with short have "2 * P < N * (N + 1)" by simp
  then have "int (2 * P) < int (N * (N + 1))" by (rule iffD2[OF of_nat_less_iff])
  then have P2: "2 * int P < X" by (simp add: X_def algebra_simps)
  have rounds: "deboor_rounds b u (k - int (bs_deg b)) (k - s) (int (bs_deg b) - s) 1
      (points, 0, int (bs_dim b), int (N * bs_dim b)) = None"
    if len: "length points = P * bs_dim b" for points
  proof (rule ccontr)
    assume "deboor_rounds b u (k - int (bs_deg b)) (k - s) (int (bs_deg b) - s) 1
      (points, 0, int (bs_dim b), int (N * bs_dim b)) \<noteq> None"
    then obtain st' where st': "deboor_rounds b u (k - int (bs_deg b)) (k - s) (int (bs_deg b) - s) 1
      (points, 0, int (bs_dim b), int (N * bs_dim b)) = Some st'" by blast
    define t where "t = snd (snd (snd st'))"
    have r: "(1::int) \<le> int (bs_deg b) - s + 1" "k - int (bs_deg b) + (int (bs_deg b) - s) \<le> k - s"
      using N1 N2 by simp_all
    from deboor_rounds_advance[OF st' r] N2 N1 w(1)
    have "2 * t = 2 * int (N * bs_dim b)
           + (int N - 1) * (2 * int N - (int N - 1) - 1) * int (bs_dim b)"
      and "t \<le> int (length points)"
      by (simp_all add: t_def)
    then have "2 * t = X * int (bs_dim b)" and "t \<le> int P * int (bs_dim b)"
      by (simp_all add: X_def len algebra_simps)
    then have "X * int (bs_dim b) \<le> (2 * int P) * int (bs_dim b)" by simp
    then have "X \<le> 2 * int P" using w(1) by (simp add: mult_le_cancel_right)
    with P2 show False by simp
  qed
  have sz: "size_t (k - s - (k - int (bs_deg b)) + 1) = Some N"
    using N1 by (simp add: size_t_def)
  define net0 where "net0 = ts_deboornet_default
       \<lparr>net_deg := bs_deg b, net_dim := bs_dim b, net_k := k, net_s := s,
        net_h := int (bs_deg b) - s\<rparr>"
  have h0: "net_h net0 = int (bs_deg b) - s" by (simp add: net0_def)
  have "evaluate_de_boor malloc b u net0 k s = None"
  proof (cases "size_t (int P - 1)")
    case None
    with lo hi sz show ?thesis
      unfolding evaluate_de_boor_def Let_def P_def by simp
  next
    case L: (Some L)
    show ?thesis
    proof (cases "memcpy (replicate (P * bs_dim b) 0) 0 (bs_ctrlp b)
        ((k - int (bs_deg b)) * int (bs_dim b)) (int (N * bs_dim b))")
      case None
      with lo hi sz L m show ?thesis
        unfolding evaluate_de_boor_def Let_def P_def by simp
    next
      case (Some points)
      from memcpy_length[OF this] have "length points = P * bs_dim b" by simp
      from rounds[OF this, folded h0] lo hi sz L m Some show ?thesis
        unfolding evaluate_de_boor_def Let_def P_def by simp
    qed
  qed
  then show ?thesis
    unfolding evaluate_cases[OF ks] net0_def using lt by simp
qed

text \<open>The scan of a knot vector of zeros and ones at a parameter in between.\<close>

lemma find_knot_two_blocks:
  assumes K: "bs_knots b = replicate n 0 @ replicate m 1" and len: "bs_n_knots b = n + m"
    and u: "0 < u" "u < 1" and ne: "\<not> ts_fequals tol u 0" "\<not> ts_fequals tol u 1"
    and m: "0 < m"
  shows "find_knot tol b u = Some (int n - 1, 0)"
proof -
  have len': "length (bs_knots b) = bs_n_knots b" by (simp add: K len)
  from find_knot_total[OF len'] obtain k s where ks: "find_knot tol b u = Some (k, s)" by blast
  from find_knot_spec[OF ks len'] have *: "- 1 \<le> k" "k < int (n + m)"
    "s = int (length (filter (ts_fequals tol u) (take (nat (k + 1)) (bs_knots b))))"
    "\<forall>x \<in> set (take (nat (k + 1)) (bs_knots b)). ts_fequals tol u x \<or> \<not> u < x"
    "k + 1 < int (n + m) \<longrightarrow> u < bs_knots b ! nat (k + 1)"
    by (simp_all add: len)
  have nth: "bs_knots b ! i = (if i < n then 0 else 1)" if "i < n + m" for i
    using that by (simp add: K nth_append)
  have upper: "k + 1 \<le> int n"
  proof (rule ccontr)
    assume "\<not> k + 1 \<le> int n"
    then have "n < nat (k + 1)" by simp
    moreover have "n < length (bs_knots b)" using m by (simp add: K)
    ultimately have "bs_knots b ! n \<in> set (take (nat (k + 1)) (bs_knots b))"
      by (auto simp: in_set_conv_nth intro!: exI[of _ n])
    with *(4) have "ts_fequals tol u (bs_knots b ! n) \<or> \<not> u < bs_knots b ! n" by blast
    moreover have "bs_knots b ! n = 1" using nth[of n] m by simp
    ultimately show False using u ne by simp
  qed
  have lower: "int n \<le> k + 1"
  proof (rule ccontr)
    assume c: "\<not> int n \<le> k + 1"
    with *(1) have i: "nat (k + 1) < n" by simp
    with *(5) have "u < bs_knots b ! nat (k + 1)" by simp
    moreover have "bs_knots b ! nat (k + 1) = 0" using nth[of "nat (k + 1)"] i by simp
    ultimately show False using u by simp
  qed
  have "\<not> ts_fequals tol u x" if "x \<in> set (bs_knots b)" for x
    using that ne by (auto simp: K)
  then have "filter (ts_fequals tol u) (take (nat (k + 1)) (bs_knots b)) = []"
    by (auto simp: filter_empty_conv dest: in_set_takeD)
  with *(3) have "s = 0" by simp
  with upper lower ks show ?thesis by simp
qed

text \<open>
  Claim C1 at the curve \<^term>\<open>example_steep\<close> and the parameter \<open>1/2\<close>. The evaluation reaches
  the general case with \<open>k = 5792\<close>, \<open>s = 0\<close> and \<open>N = 5793\<close> affected control points. The
  table of the claim has \<open>N (N + 1) / 2 = 16782321\<close> points. The code computes this number as
  \<^verbatim>\<open>n_affected * (n_affected + 1) * 0.5f\<close>; the product \<open>33564642\<close> is no \<^verbatim>\<open>float\<close>, the
  conversion rounds it to \<open>33564640\<close>, and the buffer is allocated for \<open>16782320\<close> points. The
  last interpolation stores behind the end of the buffer: the evaluation leaves the defined
  behaviour, it returns neither the code 0 nor a table. Up to \<open>N = 5792\<close> the \<^verbatim>\<open>float\<close> is
  exact and the code builds the table of the claim (lemma \<open>evaluate_general_case\<close>).
\<close>

theorem evaluate_overruns_table:
  "bspline_wf example_steep
   \<and> find_knot example_tolerance example_steep (1 / 2) = Some (5792, 0)
   \<and> (0::int) < int (bs_order example_steep)
   \<and> 0 \<le> 5792 - int (bs_deg example_steep) \<and> 5792 - 0 < int (bs_n_ctrlp example_steep)
   \<and> nat (int (bs_deg example_steep) - 0 + 1) = 5793
   \<and> binary32_of_nat (5793 * (5793 + 1)) = 5793 * (5793 + 1) - 2
   \<and> ts_bspline_evaluate unlimited example_tolerance example_steep (1 / 2) = None"
proof -
  have wf: "bspline_wf example_steep"
    by (simp add: bspline_wf_def example_steep_def)
  have ks: "find_knot example_tolerance example_steep (1 / 2) = Some (5792, 0)"
    using find_knot_two_blocks[of example_steep 5793 5793 "1 / 2" example_tolerance]
    by (simp add: example_steep_def ts_fequals_def example_tolerance_def)
  have lt: "(0::int) < int (bs_order example_steep)"
    by (simp add: example_steep_def)
  have lo: "0 \<le> 5792 - int (bs_deg example_steep)"
    by (simp add: example_steep_def)
  have hi: "5792 - 0 < int (bs_n_ctrlp example_steep)"
    by (simp add: example_steep_def)
  have N: "(5793::nat) = nat (int (bs_deg example_steep) - 0 + 1)"
    by (simp add: example_steep_def)
  have float: "binary32_of_nat (5793 * (5793 + 1)) = 5793 * (5793 + 1) - 2"
    by (simp add: binary32_of_nat_def excess.simps)
  then have short: "binary32_of_nat (5793 * (5793 + 1)) < 5793 * (5793 + 1)"
    by simp
  have m: "unlimited x" for x
    by (simp add: unlimited_def)
  from evaluate_overrun[where malloc = unlimited, OF wf ks lt lo hi N short m]
  have "ts_bspline_evaluate unlimited example_tolerance example_steep (1 / 2) = None" .
  with wf ks lt lo hi N[symmetric] float show ?thesis by blast
qed

section \<open>The knot insertion in the general case\<close>

lemma row_start_0: "row_start N 0 = 0"
  by (simp add: row_start_def)

lemma row_start_Suc: "row_start N (Suc j) = row_start N j + (N - j)"
  by (simp add: row_start_def)

lemma row_start_mono: "i \<le> j \<Longrightarrow> row_start N i \<le> row_start N j"
  by (induction j) (auto simp: row_start_Suc le_Suc_eq)

lemma row_start_total: "row_start N N = N * (N + 1) div 2"
proof -
  have "row_start N j + (N - j) * (N - j + 1) div 2 = N * (N + 1) div 2" if "j \<le> N" for j
    using that
  proof (induction j)
    case 0
    then show ?case by (simp add: row_start_0)
  next
    case (Suc j)
    then obtain m where m: "N - j = Suc m" "N - Suc j = m" by (cases "N - j") auto
    have "Suc m * (Suc m + 1) = m * (m + 1) + Suc m * 2" by simp
    then have "Suc m * (Suc m + 1) div 2 = m * (m + 1) div 2 + Suc m"
      by (simp only: div_mult_self1 div_mult_self2 zero_neq_numeral not_False_eq_True)
    with Suc m show ?case by (simp add: row_start_Suc)
  qed
  from this[of N] show ?thesis by simp
qed

lemma memcpy_region:
  assumes "to = int t" "off = int f" "cnt = int c" "t + c \<le> length dst" "f + c \<le> length src"
  shows "memcpy dst to src off cnt = Some (take t dst @ take c (drop f src) @ drop (t + c) dst)"
proof -
  have "int t + int c \<le> int (length dst)" "int f + int c \<le> int (length src)"
    using assms(4,5) by linarith+
  then show ?thesis
    unfolding assms(1-3) memcpy_def by (simp add: nat_add_distrib)
qed

lemma memcpy_region_ex:
  assumes "to = int t" "off = int f" "cnt = int c" "t + c \<le> length dst" "f + c \<le> length src"
  shows "\<exists>r. memcpy dst to src off cnt = Some r \<and> length r = length dst"
  using memcpy_region[OF assms] memcpy_length by blast

lemma insert_u_steps:
  assumes "to + m \<le> length knots" "idx + m = n"
  shows "insert_u u n idx (knots, int to) =
     Some (take to knots @ replicate m u @ drop (to + m) knots, int (to + m))"
  using assms
proof (induction m arbitrary: knots to idx)
  case 0
  then show ?case by (subst insert_u.simps) simp
next
  case (Suc m)
  from Suc.prems have st: "store knots (int to) u = Some (knots[to := u])" and lt: "idx < n"
    by (simp_all add: store_def)
  have ih: "insert_u u n (idx + 1) (knots[to := u], int (to + 1)) =
     Some (take (to + 1) (knots[to := u]) @ replicate m u @ drop (to + 1 + m) (knots[to := u]),
           int (to + 1 + m))"
    by (rule Suc.IH) (use Suc.prems in simp_all)
  have e: "take (to + 1) (knots[to := u]) = take to knots @ [u]"
    "drop (to + 1 + m) (knots[to := u]) = drop (to + Suc m) knots"
    using Suc.prems by (simp_all add: take_Suc_conv_app_nth)
  have i1: "int (to + 1) = int to + 1" by simp
  show ?case
    apply (subst insert_u.simps)
    using lt st ih[unfolded e i1] by (simp add: replicate_app_Cons_same)
qed

lemma copy_edge_left:
  assumes "length points = row_start N N * d" "idx + m = n" "n \<le> N"
    and "to0 + n * d \<le> length ctrlp"
  shows "\<exists>ctrlp'. copy_edge d (- int d) points n idx
       (ctrlp, int (row_start N idx * d), int ((N - idx) * d), int (to0 + idx * d)) =
     Some (ctrlp', int (row_start N n * d), int ((N - n) * d), int (to0 + n * d))
     \<and> length ctrlp' = length ctrlp"
  using assms
proof (induction m arbitrary: ctrlp idx)
  case 0
  then show ?case by (subst copy_edge.simps) simp
next
  case (Suc m)
  from Suc.prems have lt: "idx < n" "idx < N" by simp_all
  have "row_start N (Suc idx) \<le> row_start N N"
    using lt by (intro row_start_mono) simp
  then have "(row_start N idx + 1) * d \<le> row_start N N * d"
    using lt by (intro mult_le_mono1) (simp add: row_start_Suc)
  then have src: "row_start N idx * d + d \<le> length points"
    using Suc.prems(1) by simp
  have "(idx + 1) * d \<le> n * d" using lt by (intro mult_le_mono1) simp
  then have dst: "to0 + idx * d + d \<le> length ctrlp"
    using Suc.prems(4) by simp
  from memcpy_region_ex[OF refl refl refl dst src]
  obtain c1 where c1: "memcpy ctrlp (int (to0 + idx * d)) points (int (row_start N idx * d)) (int d)
      = Some c1" "length c1 = length ctrlp" by auto
  have "\<exists>ctrlp'. copy_edge d (- int d) points n (idx + 1)
       (c1, int (row_start N (idx + 1) * d), int ((N - (idx + 1)) * d), int (to0 + (idx + 1) * d)) =
     Some (ctrlp', int (row_start N n * d), int ((N - n) * d), int (to0 + n * d))
     \<and> length ctrlp' = length c1"
    by (rule Suc.IH) (use Suc.prems c1 in simp_all)
  moreover have "int (row_start N idx * d) + int ((N - idx) * d) = int (row_start N (idx + 1) * d)"
    by (simp add: row_start_Suc add_mult_distrib)
  moreover have "int ((N - idx) * d) + - int d = int ((N - (idx + 1)) * d)"
  proof -
    from lt obtain j where "N - idx = Suc j" "N - (idx + 1) = j" by (cases "N - idx") auto
    then show ?thesis by simp
  qed
  moreover have "int (to0 + idx * d) + int d = int (to0 + (idx + 1) * d)"
    by simp
  ultimately show ?case
    apply (subst copy_edge.simps)
    using lt c1 by (simp only: if_True bind.bind_lunit)
qed

lemma copy_edge_right:
  assumes "length points = row_start N N * d" "idx + m = n" "n \<le> N"
    and "to0 + n * d \<le> length ctrlp"
  shows "\<exists>ctrlp' from' stride'. copy_edge d (- int d) points n idx
       (ctrlp, int (row_start N (n - idx) * d) - int d, - int ((N - n + 1 + idx) * d),
        int (to0 + idx * d)) =
     Some (ctrlp', from', stride', int (to0 + n * d))
     \<and> length ctrlp' = length ctrlp"
  using assms
proof (induction m arbitrary: ctrlp idx)
  case 0
  then show ?case by (subst copy_edge.simps) simp
next
  case (Suc m)
  from Suc.prems have lt: "idx < n" by simp
  then obtain j where j: "n - idx = Suc j" "n - (idx + 1) = j" "j < N"
    using Suc.prems(3) by (cases "n - idx") auto
  have rs: "row_start N (Suc j) = row_start N j + (N - j)" by (rule row_start_Suc)
  have pos: "1 \<le> row_start N (Suc j)" using j(3) rs by simp
  have off: "int (row_start N (n - idx) * d) - int d = int ((row_start N (Suc j) - 1) * d)"
  proof -
    from pos obtain x where "row_start N (Suc j) = Suc x" by (cases "row_start N (Suc j)") auto
    then show ?thesis unfolding j by simp
  qed
  have "row_start N (Suc j) \<le> row_start N N"
    using j(3) by (intro row_start_mono) simp
  then have "row_start N (Suc j) * d \<le> row_start N N * d" by (rule mult_le_mono1)
  moreover have "(row_start N (Suc j) - 1) * d + d = row_start N (Suc j) * d"
    using pos by (cases "row_start N (Suc j)") auto
  ultimately have src: "(row_start N (Suc j) - 1) * d + d \<le> length points"
    using Suc.prems(1) by simp
  have "(idx + 1) * d \<le> n * d" using lt by (intro mult_le_mono1) simp
  then have dst: "to0 + idx * d + d \<le> length ctrlp"
    using Suc.prems(4) by simp
  from memcpy_region_ex[OF refl off refl dst src]
  obtain c1 where c1: "memcpy ctrlp (int (to0 + idx * d)) points
      (int (row_start N (n - idx) * d) - int d) (int d) = Some c1"
    "length c1 = length ctrlp" by auto
  have "\<exists>ctrlp' from' stride'. copy_edge d (- int d) points n (idx + 1)
       (c1, int (row_start N (n - (idx + 1)) * d) - int d, - int ((N - n + 1 + (idx + 1)) * d),
        int (to0 + (idx + 1) * d)) =
     Some (ctrlp', from', stride', int (to0 + n * d))
     \<and> length ctrlp' = length c1"
    by (rule Suc.IH) (use Suc.prems c1 in simp_all)
  moreover have "int (row_start N (n - idx) * d) - int d + - int ((N - n + 1 + idx) * d)
      = int (row_start N (n - (idx + 1)) * d) - int d"
  proof -
    from j Suc.prems(3) lt have "N - j = N - n + 1 + idx" by linarith
    then have "row_start N (Suc j) * d = row_start N j * d + (N - n + 1 + idx) * d"
      unfolding rs by (simp add: add_mult_distrib)
    then show ?thesis unfolding j by simp
  qed
  moreover have "- int ((N - n + 1 + idx) * d) + - int d = - int ((N - n + 1 + (idx + 1)) * d)"
    by simp
  moreover have "int (to0 + idx * d) + int d = int (to0 + (idx + 1) * d)"
    by simp
  ultimately show ?case
    apply (subst copy_edge.simps)
    using lt c1 by (simp only: if_True bind.bind_lunit)
qed

lemma insert_knot_steps:
  assumes "ts_bspline_evaluate malloc tol b u = Some (Inr (ret, net))"
    "\<not> net_s net + int n > int (bs_order b)"
    "ts_bspline_new malloc (bs_deg b) (bs_dim b) (bs_n_ctrlp b + n) TS_OPENED = Some (Inr result)"
    "memcpy (bs_ctrlp result) 0 (bs_ctrlp b) 0 ((net_k net - int (bs_deg b)) * int (bs_dim b))
       = Some c1"
    "copy_edge (bs_dim b) (- int (bs_dim b)) (net_points net) n 0
       (c1, 0, int (net_n_affected net) * int (bs_dim b),
        (net_k net - int (bs_deg b)) * int (bs_dim b)) = Some (c2, from, stride, to)"
    "memcpy c2 to (net_points net) from ((int (net_n_affected net) - int n) * int (bs_dim b))
       = Some c3"
    "copy_edge (bs_dim b) (- int (bs_dim b)) (net_points net) n 0
       (c3, from - int (bs_dim b), - (int (net_n_affected net) - int n + 1) * int (bs_dim b),
        to + (int (net_n_affected net) - int n) * int (bs_dim b)) = Some (c4, from', stride', to')"
    "memcpy c4 to' (bs_ctrlp b)
       (((net_k net - int (bs_deg b)) + int (net_n_affected net)) * int (bs_dim b))
       ((int (bs_n_ctrlp b) - ((net_k net - int (bs_deg b)) + int (net_n_affected net)))
          * int (bs_dim b)) = Some c5"
    "memcpy (bs_knots result) 0 (bs_knots b) 0 (net_k net + 1) = Some k1"
    "insert_u u n 0 (k1, net_k net + 1) = Some (k2, to_k)"
    "memcpy k2 to_k (bs_knots b) (net_k net + 1) (int (bs_n_knots b) - (net_k net + 1)) = Some k3"
  shows "ts_bspline_insert_knot malloc tol b u n
     = Some (Inr (result\<lparr>bs_ctrlp := c5, bs_knots := k3\<rparr>))"
  using assms unfolding ts_bspline_insert_knot_def Let_def by simp

lemma insertion_general_case:
  assumes wf: "bspline_wf b" and ks: "find_knot tol b u = Some (k, s)"
    and lt: "s < int (bs_order b)"
    and lo: "0 \<le> k - int (bs_deg b)" and hi: "k - s < int (bs_n_ctrlp b)"
    and cap: "s + int n \<le> int (bs_order b)"
    and m: "\<And>x. malloc x"
    and small: "int (bs_deg b) - s < 5792"
  shows "\<exists>r. ts_bspline_insert_knot malloc tol b u n = Some (Inr r)
      \<and> bs_deg r = bs_deg b \<and> bs_order r = bs_order b \<and> bs_dim r = bs_dim b
      \<and> bs_n_ctrlp r = bs_n_ctrlp b + n
      \<and> length (bs_ctrlp r) = (bs_n_ctrlp b + n) * bs_dim b
      \<and> bs_n_knots r = bs_n_knots b + n
      \<and> bs_knots r = take (nat (k + 1)) (bs_knots b) @ replicate n u @ drop (nat (k + 1)) (bs_knots b)
      \<and> (sorted (bs_knots b) \<and> bs_knots b ! nat k \<le> u \<longrightarrow> sorted (bs_knots r))"
proof -
  define d where "d = bs_dim b"
  define dg where "dg = bs_deg b"
  define ncp where "ncp = bs_n_ctrlp b"
  define first where "first = nat (k - int dg)"
  define N where "N = nat (int (bs_deg b) - s + 1)"
  define kk where "kk = nat (k + 1)"
  define K where "K = bs_knots b"
  from wf have w: "1 \<le> d" "dg < ncp" "bs_order b = dg + 1" "bs_n_knots b = ncp + (dg + 1)"
    "length (bs_ctrlp b) = ncp * d" "length K = ncp + (dg + 1)"
    by (simp_all add: bspline_wf_def d_def dg_def ncp_def K_def)
  have len: "length (bs_knots b) = bs_n_knots b" using w by (simp add: K_def)
  note kb = find_knot_bounds[OF ks len]
  have s: "0 \<le> s" "s \<le> int dg" using kb(1) lt w by simp_all
  have N1: "1 \<le> N" "int N = int dg - s + 1" using s by (simp_all add: N_def dg_def)
  have nN: "n \<le> N" using cap N1 w by simp
  have fN: "int first = k - int dg" "first + N \<le> ncp" "int kk = k + 1" "kk \<le> ncp + (dg + 1)"
    using lo hi N1 kb(3) w by (simp_all add: first_def dg_def ncp_def kk_def)
  have exact: "binary32_of_nat (N * (N + 1)) = N * (N + 1)"
    using N1(2) small by (intro binary32_product) (simp add: dg_def)
  from evaluate_general_case[where malloc = malloc, OF wf ks lt lo hi N_def m exact]
  obtain net where net: "ts_bspline_evaluate malloc tol b u = Some (Inr (0, net))"
    "net_k net = k" "net_s net = s" "net_n_affected net = N"
    "length (net_points net) = N * (N + 1) div 2 * bs_dim b"
    by blast
  define pts where "pts = net_points net"
  have lp: "length pts = row_start N N * d"
    using net(5) by (simp add: pts_def row_start_total d_def)
  from ts_bspline_new_ok[where malloc = malloc and t = TS_OPENED and d = d and deg = dg
      and n = "ncp + n", OF w(1) _ m m] w(2)
  obtain kn where kn: "length kn = ncp + n + (dg + 1)"
    "ts_bspline_new malloc dg d (ncp + n) TS_OPENED =
       Some (Inr \<lparr>bs_deg = dg, bs_order = dg + 1, bs_dim = d, bs_n_ctrlp = ncp + n,
                  bs_n_knots = ncp + n + (dg + 1), bs_ctrlp = replicate ((ncp + n) * d) 0,
                  bs_knots = kn\<rparr>)"
    by auto
  define result where "result = \<lparr>bs_deg = dg, bs_order = dg + 1, bs_dim = d, bs_n_ctrlp = ncp + n,
                  bs_n_knots = ncp + n + (dg + 1), bs_ctrlp = replicate ((ncp + n) * d) (0::real),
                  bs_knots = kn\<rparr>"
  define c0 :: "real list" where "c0 = replicate ((ncp + n) * d) 0"
  have lc0: "length c0 = (ncp + n) * d" by (simp add: c0_def)
  have le1: "first * d \<le> ncp * d" "first * d + n * d \<le> (ncp + n) * d"
    "(first + N) * d \<le> ncp * d"
    using fN(2) by (simp_all add: add_mult_distrib[symmetric] del: add_mult_distrib)
  have "\<exists>r. memcpy c0 0 (bs_ctrlp b) 0 ((k - int dg) * int d) = Some r \<and> length r = length c0"
    by (rule memcpy_region_ex[where t = 0 and f = 0 and c = "first * d"])
       (use le1 lc0 w(5) fN(1) in \<open>simp_all add: add_mult_distrib\<close>)
  then obtain c1 where c1: "memcpy c0 0 (bs_ctrlp b) 0 ((k - int dg) * int d) = Some c1"
    "length c1 = (ncp + n) * d" using lc0 by auto
  have "\<exists>ctrlp'. copy_edge d (- int d) pts n 0
       (c1, int (row_start N 0 * d), int ((N - 0) * d), int (first * d + 0 * d)) =
     Some (ctrlp', int (row_start N n * d), int ((N - n) * d), int (first * d + n * d))
     \<and> length ctrlp' = length c1"
    by (rule copy_edge_left[where m = n]) (use lp nN le1 c1 in simp_all)
  moreover have "int (row_start N 0 * d) = 0" "int ((N - 0) * d) = int N * int d"
    "int (first * d + 0 * d) = (k - int dg) * int d"
    using fN(1) by (simp_all add: row_start_0)
  ultimately obtain c2 where c2: "copy_edge d (- int d) pts n 0
       (c1, 0, int N * int d, (k - int dg) * int d) =
     Some (c2, int (row_start N n * d), int ((N - n) * d), int (first * d + n * d))"
    "length c2 = (ncp + n) * d" using c1(2) by (simp only:) blast
  have mid: "row_start N n * d + (N - n) * d \<le> length pts"
  proof (cases "n = N")
    case True
    then show ?thesis by (simp add: lp)
  next
    case False
    with nN have "row_start N (Suc n) \<le> row_start N N" by (intro row_start_mono) simp
    then have "row_start N (Suc n) * d \<le> row_start N N * d" by (rule mult_le_mono1)
    then show ?thesis by (simp add: lp row_start_Suc add_mult_distrib)
  qed
  have tot: "first * d + n * d + (N - n) * d = (first + N) * d"
    using nN by (simp add: add_mult_distrib[symmetric] del: add_mult_distrib)
  have "\<exists>r. memcpy c2 (int (first * d + n * d)) pts (int (row_start N n * d))
          ((int N - int n) * int d) = Some r \<and> length r = length c2"
    by (rule memcpy_region_ex[where c = "(N - n) * d", OF refl refl _ _ mid])
       (use nN le1 c2(2) tot fN(2) in \<open>simp_all add: of_nat_diff\<close>)
  then obtain c3 where c3: "memcpy c2 (int (first * d + n * d)) pts (int (row_start N n * d))
          ((int N - int n) * int d) = Some c3" "length c3 = (ncp + n) * d"
    using c2(2) by auto
  have "\<exists>ctrlp' from' stride'. copy_edge d (- int d) pts n 0
       (c3, int (row_start N (n - 0) * d) - int d, - int ((N - n + 1 + 0) * d),
        int ((first + N) * d + 0 * d)) =
     Some (ctrlp', from', stride', int ((first + N) * d + n * d))
     \<and> length ctrlp' = length c3"
    by (rule copy_edge_right[where m = n]) (use lp nN le1 c3 fN(2) in \<open>simp_all add: add_mult_distrib\<close>)
  moreover have "int (row_start N (n - 0) * d) - int d = int (row_start N n * d) - int d"
    "- int ((N - n + 1 + 0) * d) = - (int N - int n + 1) * int d"
    "int ((first + N) * d + 0 * d) = int (first * d + n * d) + (int N - int n) * int d"
  proof -
    from nN obtain j where j: "N = n + j" by (auto simp: le_iff_add)
    show "int (row_start N (n - 0) * d) - int d = int (row_start N n * d) - int d" by simp
    show "- int ((N - n + 1 + 0) * d) = - (int N - int n + 1) * int d"
      unfolding j by (simp add: algebra_simps)
    show "int ((first + N) * d + 0 * d) = int (first * d + n * d) + (int N - int n) * int d"
      unfolding j by (simp add: algebra_simps)
  qed
  ultimately obtain c4 from' stride' where c4: "copy_edge d (- int d) pts n 0
       (c3, int (row_start N n * d) - int d, - (int N - int n + 1) * int d,
        int (first * d + n * d) + (int N - int n) * int d) =
     Some (c4, from', stride', int ((first + N) * d + n * d))"
    "length c4 = (ncp + n) * d" using c3(2) by (simp only:) blast
  have "\<exists>r. memcpy c4 (int ((first + N) * d + n * d)) (bs_ctrlp b)
          ((k - int dg + int N) * int d) ((int ncp - (k - int dg + int N)) * int d) = Some r
        \<and> length r = length c4"
  proof (rule memcpy_region_ex[where f = "(first + N) * d" and c = "(ncp - (first + N)) * d", OF refl])
    show "(k - int dg + int N) * int d = int ((first + N) * d)"
      using fN(1) by simp
    show "(int ncp - (k - int dg + int N)) * int d = int ((ncp - (first + N)) * d)"
      using fN(1,2) by (simp add: of_nat_diff)
    have "(first + N) * d + n * d + (ncp - (first + N)) * d = (ncp + n) * d"
      using fN(2) by (simp add: add_mult_distrib[symmetric] del: add_mult_distrib)
    then show "(first + N) * d + n * d + (ncp - (first + N)) * d \<le> length c4"
      using c4(2) by simp
    have "(first + N) * d + (ncp - (first + N)) * d = ncp * d"
      using fN(2) by (simp add: add_mult_distrib[symmetric] del: add_mult_distrib)
    then show "(first + N) * d + (ncp - (first + N)) * d \<le> length (bs_ctrlp b)"
      using w(5) by simp
  qed
  then obtain c5 where c5: "memcpy c4 (int ((first + N) * d + n * d)) (bs_ctrlp b)
          ((k - int dg + int N) * int d) ((int ncp - (k - int dg + int N)) * int d) = Some c5"
    "length c5 = (ncp + n) * d" using c4(2) by auto
  define k1 where "k1 = take kk K @ drop kk kn"
  have k1: "memcpy kn 0 K 0 (k + 1) = Some k1"
    using memcpy_region[where t = 0 and f = 0 and c = kk and dst = kn and src = K and to = 0
        and off = 0 and cnt = "k + 1"] fN(3,4) kn(1) w(6)
    by (simp add: k1_def)
  have lk1: "length k1 = ncp + n + (dg + 1)"
    using fN(4) kn(1) w(6) by (simp add: k1_def)
  define k2 where "k2 = take kk K @ replicate n u @ drop (kk + n) kn"
  have "insert_u u n 0 (k1, int kk) =
     Some (take kk k1 @ replicate n u @ drop (kk + n) k1, int (kk + n))"
    by (rule insert_u_steps) (use lk1 fN(4) in simp_all)
  moreover have "take kk k1 = take kk K" "drop (kk + n) k1 = drop (kk + n) kn"
    using fN(4) w(6) by (simp_all add: k1_def add.commute)
  ultimately have k2: "insert_u u n 0 (k1, k + 1) = Some (k2, int (kk + n))"
    by (simp add: k2_def fN(3))
  have lk2: "length k2 = ncp + n + (dg + 1)"
    using fN(4) kn(1) w(6) by (simp add: k2_def)
  define k3 where "k3 = take kk K @ replicate n u @ drop kk K"
  have "memcpy k2 (int (kk + n)) K (k + 1) (int (ncp + (dg + 1)) - (k + 1)) =
     Some (take (kk + n) k2 @ take (ncp + (dg + 1) - kk) (drop kk K)
            @ drop (kk + n + (ncp + (dg + 1) - kk)) k2)"
    by (rule memcpy_region[OF refl]) (use fN(3,4) lk2 w(6) in \<open>simp_all add: of_nat_diff\<close>)
  moreover have "take (kk + n) k2 = take kk K @ replicate n u"
    "take (ncp + (dg + 1) - kk) (drop kk K) = drop kk K"
    "drop (kk + n + (ncp + (dg + 1) - kk)) k2 = []"
    using fN(4) w(6) lk2 by (simp_all add: k2_def)
  ultimately have k3: "memcpy k2 (int (kk + n)) K (k + 1) (int (ncp + (dg + 1)) - (k + 1)) = Some k3"
    by (simp add: k3_def)
  have ins: "ts_bspline_insert_knot malloc tol b u n
     = Some (Inr (result\<lparr>bs_ctrlp := c5, bs_knots := k3\<rparr>))"
  proof (rule insert_knot_steps[OF net(1)])
    show "\<not> int (bs_order b) < net_s net + int n" using cap net(3) by simp
    show "ts_bspline_new malloc (bs_deg b) (bs_dim b) (bs_n_ctrlp b + n) TS_OPENED = Some (Inr result)"
      using kn(2) by (simp add: result_def dg_def d_def ncp_def)
    show "memcpy (bs_ctrlp result) 0 (bs_ctrlp b) 0 ((net_k net - int (bs_deg b)) * int (bs_dim b))
       = Some c1"
      using c1(1) by (simp add: result_def c0_def net(2) dg_def d_def)
    show "copy_edge (bs_dim b) (- int (bs_dim b)) (net_points net) n 0
       (c1, 0, int (net_n_affected net) * int (bs_dim b),
        (net_k net - int (bs_deg b)) * int (bs_dim b))
       = Some (c2, int (row_start N n * d), int ((N - n) * d), int (first * d + n * d))"
      using c2(1) by (simp only: net(2,4) d_def dg_def pts_def)
    show "memcpy c2 (int (first * d + n * d)) (net_points net) (int (row_start N n * d))
       ((int (net_n_affected net) - int n) * int (bs_dim b)) = Some c3"
      using c3(1) by (simp only: net(2,4) d_def dg_def pts_def)
    show "copy_edge (bs_dim b) (- int (bs_dim b)) (net_points net) n 0
       (c3, int (row_start N n * d) - int (bs_dim b),
        - (int (net_n_affected net) - int n + 1) * int (bs_dim b),
        int (first * d + n * d) + (int (net_n_affected net) - int n) * int (bs_dim b))
       = Some (c4, from', stride', int ((first + N) * d + n * d))"
      using c4(1) by (simp only: net(2,4) d_def dg_def pts_def)
    show "memcpy c4 (int ((first + N) * d + n * d)) (bs_ctrlp b)
       (((net_k net - int (bs_deg b)) + int (net_n_affected net)) * int (bs_dim b))
       ((int (bs_n_ctrlp b) - ((net_k net - int (bs_deg b)) + int (net_n_affected net)))
          * int (bs_dim b)) = Some c5"
      using c5(1) by (simp only: net(2,4) d_def dg_def pts_def ncp_def)
    show "memcpy (bs_knots result) 0 (bs_knots b) 0 (net_k net + 1) = Some k1"
      using k1 by (simp add: result_def net(2) K_def)
    show "insert_u u n 0 (k1, net_k net + 1) = Some (k2, int (kk + n))"
      using k2 by (simp only: net(2))
    show "memcpy k2 (int (kk + n)) (bs_knots b) (net_k net + 1)
       (int (bs_n_knots b) - (net_k net + 1)) = Some k3"
      using k3 by (simp only: net(2) K_def w(4))
  qed
  have sorted: "sorted k3" if so: "sorted K" and le: "K ! nat k \<le> u"
  proof -
    have k0: "0 \<le> k" using lo by simp
    have a: "\<forall>x \<in> set (take kk K). x \<le> u"
    proof
      fix x assume "x \<in> set (take kk K)"
      then obtain i where i: "i < kk" "i < length K" "x = K ! i"
        by (auto simp: in_set_conv_nth)
      then have "i \<le> nat k" using k0 by (simp add: kk_def)
      moreover have "nat k < length K" using fN(3,4) w(6) k0 by linarith
      ultimately have "K ! i \<le> K ! nat k" using so by (simp add: sorted_nth_mono)
      with le i show "x \<le> u" by simp
    qed
    have b: "\<forall>x \<in> set (drop kk K). u \<le> x"
    proof
      fix x assume "x \<in> set (drop kk K)"
      then obtain i where "i < length K - kk" "x = K ! (kk + i)"
        by (auto simp: in_set_conv_nth)
      then have i: "kk + i < length K" "x = K ! (kk + i)" by simp_all
      then have "kk < length K" by simp
      then have "k + 1 < int (bs_n_knots b)" using fN(3) len by (simp add: K_def)
      with find_knot_spec[OF ks len] have "u < K ! kk" by (simp add: K_def kk_def)
      moreover have "K ! kk \<le> K ! (kk + i)" using so i(1) by (simp add: sorted_nth_mono)
      ultimately show "u \<le> x" using i(2) by simp
    qed
    have "sorted (take kk K)" "sorted (drop kk K)"
      using so by (simp_all add: sorted_wrt_take sorted_wrt_drop)
    moreover have "x \<le> y" if "x \<in> set (take kk K)" "y \<in> set (drop kk K)" for x y
      using a b that order_trans[of x u y] by blast
    ultimately show ?thesis
      using a b by (auto simp: k3_def sorted_append)
  qed
  show ?thesis
    unfolding ins
    using sorted c5(2) w(3,4)
    by (simp add: result_def k3_def kk_def dg_def d_def ncp_def K_def)
qed

text \<open>
  Claim C6, as amended. Let the evaluation at \<open>u\<close> reach the general case (\<open>s\<close> below the
  order, the window inside the control points) with at most 5792 affected control points
  (\<open>deg - s < 5792\<close>, so that the number of points of the table is exact in \<^verbatim>\<open>float\<close>), and let
  \<open>s + n\<close> not exceed the order. Then the insertion returns a curve with \<open>n_ctrlp + n\<close>
  control points and \<open>n_knots + n\<close> knots, whose knot vector is the original one with \<open>n\<close>
  copies of \<open>u\<close> inserted after index \<open>k\<close>. This knot vector is non-decreasing when the
  original one is and \<open>knots[k] \<le> u\<close>.
\<close>

theorem insert_knot_general:
  assumes wf: "bspline_wf b" and ks: "find_knot tol b u = Some (k, s)"
    and lt: "s < int (bs_order b)"
    and lo: "0 \<le> k - int (bs_deg b)" and hi: "k - s < int (bs_n_ctrlp b)"
    and cap: "s + int n \<le> int (bs_order b)"
    and m: "\<And>x. malloc x"
    and small: "int (bs_deg b) - s < 5792"
  shows "\<exists>r. ts_bspline_insert_knot malloc tol b u n = Some (Inr r)
      \<and> bs_deg r = bs_deg b \<and> bs_order r = bs_order b \<and> bs_dim r = bs_dim b
      \<and> bs_n_ctrlp r = bs_n_ctrlp b + n
      \<and> length (bs_ctrlp r) = (bs_n_ctrlp b + n) * bs_dim b
      \<and> bs_n_knots r = bs_n_knots b + n
      \<and> bs_knots r = take (nat (k + 1)) (bs_knots b) @ replicate n u @ drop (nat (k + 1)) (bs_knots b)
      \<and> (sorted (bs_knots b) \<and> bs_knots b ! nat k \<le> u \<longrightarrow> sorted (bs_knots r))"
  using insertion_general_case [where malloc = malloc, OF wf ks lt lo hi cap m small] .

lemmas insert_unfold =
  ts_bspline_insert_knot_def evaluate_unfold ts_bspline_new_def
  fill_const.simps fill_uniform.simps copy_edge.simps insert_u.simps

theorem insert_knot_general_counterexample:
  "bspline_wf example_parabola \<and> sorted (bs_knots example_parabola)
   \<and> find_knot example_tolerance example_parabola (1 / 2 - 1 / 2 ^ 25) = Some (3, 1)
   \<and> ts_fequals example_tolerance (1 / 2 - 1 / 2 ^ 25) (bs_knots example_parabola ! 3)
   \<and> (1::int) + int 1 \<le> int (bs_order example_parabola)
   \<and> ts_bspline_insert_knot unlimited example_tolerance example_parabola (1 / 2 - 1 / 2 ^ 25) 1 =
       Some (Inr \<lparr>bs_deg = 2, bs_order = 3, bs_dim = 1, bs_n_ctrlp = 5, bs_n_knots = 8,
         bs_ctrlp = [0, 1, 50331647 / 33554432, 2, 3],
         bs_knots = [0, 0, 0, 1 / 2, 16777215 / 33554432, 1, 1, 1]\<rparr>)
   \<and> \<not> sorted [0, 0, 0, 1 / 2, 16777215 / 33554432, 1, 1, 1 :: real]"
  by (simp add: bspline_wf_def insert_unfold unlimited_def example_tolerance_def
      example_parabola_def) (simp add: eval_nat_numeral)

theorem insert_knot_general_witness:
  "bspline_wf example_parabola
   \<and> find_knot example_tolerance example_parabola (1 / 4) = Some (2, 0)
   \<and> (0::int) < int (bs_order example_parabola)
   \<and> 0 \<le> 2 - int (bs_deg example_parabola) \<and> 2 - 0 < int (bs_n_ctrlp example_parabola)
   \<and> 0 + int 2 \<le> int (bs_order example_parabola)
   \<and> int (bs_deg example_parabola) - 0 < 5792
   \<and> sorted (bs_knots example_parabola) \<and> bs_knots example_parabola ! nat 2 \<le> 1 / 4
   \<and> (\<exists>r. ts_bspline_insert_knot unlimited example_tolerance example_parabola (1 / 4) 2
             = Some (Inr r)
        \<and> bs_n_ctrlp r = 6 \<and> length (bs_ctrlp r) = 6 \<and> bs_n_knots r = 9
        \<and> bs_knots r = [0, 0, 0, 1 / 4, 1 / 4, 1 / 2, 1, 1, 1]
        \<and> sorted (bs_knots r))"
proof -
  have wf: "bspline_wf example_parabola"
    by (simp add: bspline_wf_def example_parabola_def)
  have ks: "find_knot example_tolerance example_parabola (1 / 4) = Some (2, 0)"
    by (simp add: evaluate_unfold example_tolerance_def example_parabola_def)
  have lt: "(0::int) < int (bs_order example_parabola)"
    by (simp add: example_parabola_def)
  have lo: "0 \<le> 2 - int (bs_deg example_parabola)"
    by (simp add: example_parabola_def)
  have hi: "2 - 0 < int (bs_n_ctrlp example_parabola)"
    by (simp add: example_parabola_def)
  have cap: "0 + int 2 \<le> int (bs_order example_parabola)"
    by (simp add: example_parabola_def)
  have m: "unlimited x" for x
    by (simp add: unlimited_def)
  have small: "int (bs_deg example_parabola) - 0 < 5792"
    by (simp add: example_parabola_def)
  have so: "sorted (bs_knots example_parabola)" "bs_knots example_parabola ! nat 2 \<le> 1 / 4"
    by (simp_all add: example_parabola_def)
  from insert_knot_general [where malloc = unlimited, OF wf ks lt lo hi cap m small] so
  have "\<exists>r. ts_bspline_insert_knot unlimited example_tolerance example_parabola (1 / 4) 2
             = Some (Inr r)
        \<and> bs_n_ctrlp r = 6 \<and> length (bs_ctrlp r) = 6 \<and> bs_n_knots r = 9
        \<and> bs_knots r = [0, 0, 0, 1 / 4, 1 / 4, 1 / 2, 1, 1, 1]
        \<and> sorted (bs_knots r)"
    by (auto simp: example_parabola_def eval_nat_numeral)
  with wf ks lt lo hi cap small so show ?thesis by blast
qed

section \<open>The knot insertion in exact arithmetic\<close>

text \<open>
  This section reads the numbers of the model as what they are, real numbers. It shows that
  the control points which the insertion computes are those of a curve with the same points,
  as long as the parameters are sharp. It is a result about the formulas of the code, not
  about the values that the \<^verbatim>\<open>float\<close> operations return.
\<close>

subsection \<open>One insertion in the recurrence\<close>

text \<open>Nested blends of three neighbours, with the factors as the recurrence forms them.\<close>

lemma affine_nested:
  fixes p q r X Y Z :: real
  shows "(1 - p) * ((1 - q) * X + q * Y) + p * ((1 - r) * Y + r * Z)
       = ((1 - p) * (1 - q)) * X + (1 - (1 - p) * (1 - q) - p * r) * Y + (p * r) * Z"
  by (simp add: algebra_simps)

lemma affine_nested_left:
  fixes p q X Y :: real
  shows "(1 - p) * X + p * ((1 - q) * X + q * Y) = (1 - p * q) * X + (p * q) * Y"
  by (simp add: algebra_simps)

lemma affine_nested_right:
  fixes p q X Y :: real
  shows "(1 - p) * ((1 - q) * X + q * Y) + p * Y
       = ((1 - p) * (1 - q)) * X + (1 - (1 - p) * (1 - q)) * Y"
  by (simp add: algebra_simps)

lemma one_minus_ratio:
  fixes x a T :: real
  assumes "T \<noteq> a"
  shows "1 - (x - a) / (T - a) = (T - x) / (T - a)"
proof -
  from assms have "T - a \<noteq> 0" by simp
  then have "1 = (T - a) / (T - a)" by simp
  then have "1 - (x - a) / (T - a) = (T - a) / (T - a) - (x - a) / (T - a)" by simp
  also have "\<dots> = ((T - a) - (x - a)) / (T - a)" by (simp only: diff_divide_distrib)
  finally show ?thesis by simp
qed

lemma blend_twice:
  fixes x u a T X Y :: real
  assumes "u \<noteq> a" "T \<noteq> a"
  shows "(1 - (x - a) / (u - a)) * X
           + (x - a) / (u - a) * ((1 - (u - a) / (T - a)) * X + (u - a) / (T - a) * Y)
       = (1 - (x - a) / (T - a)) * X + (x - a) / (T - a) * Y"
proof -
  have g: "(x - a) / (u - a) * ((u - a) / (T - a)) = (x - a) / (T - a)"
    using assms by simp
  show ?thesis unfolding affine_nested_left g ..
qed

lemma blend_twice_right:
  fixes x u a T X Y :: real
  assumes "T \<noteq> u" "T \<noteq> a"
  shows "(1 - (x - u) / (T - u)) * ((1 - (u - a) / (T - a)) * X + (u - a) / (T - a) * Y)
           + (x - u) / (T - u) * Y
       = (1 - (x - a) / (T - a)) * X + (x - a) / (T - a) * Y"
proof -
  have 4: "(T - x) / (T - u) * ((T - u) / (T - a)) = (T - x) / (T - a)"
    using assms by simp
  have c: "(1 - (x - u) / (T - u)) * (1 - (u - a) / (T - a)) = 1 - (x - a) / (T - a)"
    unfolding one_minus_ratio[OF assms(1)] one_minus_ratio[OF assms(2)] by (rule 4)
  show ?thesis unfolding affine_nested_right c by simp
qed

lemma blend_swap:
  fixes x u a b T T2 X Y Z :: real
  assumes "T \<noteq> a" "T \<noteq> b"
  shows "(1 - (x - a) / (T - a)) * ((1 - (u - b) / (T - b)) * X + (u - b) / (T - b) * Y)
           + (x - a) / (T - a) * ((1 - (u - a) / (T2 - a)) * Y + (u - a) / (T2 - a) * Z)
       = (1 - (u - a) / (T - a)) * ((1 - (x - b) / (T - b)) * X + (x - b) / (T - b) * Y)
           + (u - a) / (T - a) * ((1 - (x - a) / (T2 - a)) * Y + (x - a) / (T2 - a) * Z)"
proof -
  have 1: "(1 - (x - a) / (T - a)) * (1 - (u - b) / (T - b))
      = (1 - (u - a) / (T - a)) * (1 - (x - b) / (T - b))"
    unfolding one_minus_ratio[OF assms(1)] one_minus_ratio[OF assms(2)] by simp
  have 2: "(x - a) / (T - a) * ((u - a) / (T2 - a)) = (u - a) / (T - a) * ((x - a) / (T2 - a))"
    by simp
  show ?thesis
    unfolding affine_nested 1 2 ..
qed

text \<open>
  Let the knots up to index \<open>k\<close> be at most \<open>u\<close> and the knots behind it greater. A point
  of the table after the insertion is then a point of the table before it, or the blend of two
  neighbours of one row at the parameter \<open>u\<close>. The first lemma covers the indices up to the
  last knot below \<open>u\<close>, the second the indices whose span ends behind \<open>k\<close>.
\<close>

lemma insertion_left:
  assumes lo: "\<And>j. j \<le> k \<Longrightarrow> t j \<le> u" and hi: "\<And>j. k < j \<Longrightarrow> u < t j"
    and ne: "\<And>j. j \<le> m \<Longrightarrow> t j \<noteq> u" and mk: "m \<le> k"
    and i: "i \<le> m"
  shows "(i + p - int r \<le> k \<longrightarrow>
            de_boor (knot_inserted t k u) (ctrlp_inserted t P p k u) p x r i = de_boor t P p x r i)
       \<and> (k < i + p - int r \<longrightarrow>
            de_boor (knot_inserted t k u) (ctrlp_inserted t P p k u) p x r i
              = (1 - (u - t i) / (t (i + p - int r) - t i)) * de_boor t P p x r (i - 1)
                + (u - t i) / (t (i + p - int r) - t i) * de_boor t P p x r i)"
  using i
proof (induction r arbitrary: i)
  case 0
  then show ?case using mk by (auto simp: ctrlp_inserted_def)
next
  case (Suc r)
  define t' where "t' = knot_inserted t k u"
  define D' where "D' = de_boor t' (ctrlp_inserted t P p k u) p x"
  define D where "D = de_boor t P p x"
  have ik: "i \<le> k" using Suc.prems mk by simp
  have ti: "t' i = t i" using ik by (simp add: t'_def knot_inserted_def)
  have step': "D' (Suc r) i = (1 - (x - t i) / (t' (i + p - int r) - t i)) * D' r (i - 1)
       + (x - t i) / (t' (i + p - int r) - t i) * D' r i"
    by (simp add: D'_def ti)
  have step: "D (Suc r) j = (1 - (x - t j) / (t (j + p - int r) - t j)) * D r (j - 1)
       + (x - t j) / (t (j + p - int r) - t j) * D r j" for j
    by (simp add: D_def)
  have i1: "i - 1 \<le> m" using Suc.prems by simp
  have ih1: "(i - 1 + p - int r \<le> k \<longrightarrow> D' r (i - 1) = D r (i - 1))
       \<and> (k < i - 1 + p - int r \<longrightarrow>
            D' r (i - 1) = (1 - (u - t (i - 1)) / (t (i - 1 + p - int r) - t (i - 1))) * D r (i - 1 - 1)
                + (u - t (i - 1)) / (t (i - 1 + p - int r) - t (i - 1)) * D r (i - 1))"
    using Suc.IH[OF i1] by (simp add: D'_def D_def t'_def)
  have ih2: "(i + p - int r \<le> k \<longrightarrow> D' r i = D r i)
       \<and> (k < i + p - int r \<longrightarrow>
            D' r i = (1 - (u - t i) / (t (i + p - int r) - t i)) * D r (i - 1)
                + (u - t i) / (t (i + p - int r) - t i) * D r i)"
    using Suc.IH[OF Suc.prems] by (simp add: D'_def D_def t'_def)
  have A: "D' (Suc r) i = D (Suc r) i" if a: "i + p - int (Suc r) \<le> k"
  proof (cases "i + p - int r \<le> k")
    case True
    then have "t' (i + p - int r) = t (i + p - int r)" by (simp add: t'_def knot_inserted_def)
    moreover from True ih1 have "D' r (i - 1) = D r (i - 1)" by simp
    moreover from True ih2 have "D' r i = D r i" by simp
    ultimately show ?thesis by (simp add: step step')
  next
    case False
    with a have e: "i + p - int r = k + 1" by simp
    define T where "T = t (i + p - int r)"
    from e have tu: "t' (i + p - int r) = u" by (simp add: t'_def knot_inserted_def)
    from e ih1 have d1: "D' r (i - 1) = D r (i - 1)" by simp
    from e ih2 have d2: "D' r i =
        (1 - (u - t i) / (T - t i)) * D r (i - 1) + (u - t i) / (T - t i) * D r i"
      by (simp add: T_def)
    have n1: "u \<noteq> t i" using ne[OF Suc.prems] by simp
    have n2: "T \<noteq> t i" using hi[of "k + 1"] lo[OF ik] e by (simp add: T_def)
    show ?thesis
      unfolding step step' tu d1 d2 T_def[symmetric] by (rule blend_twice[OF n1 n2])
  qed
  have C: "D' (Suc r) i = (1 - (u - t i) / (t (i + p - int (Suc r)) - t i)) * D (Suc r) (i - 1)
                + (u - t i) / (t (i + p - int (Suc r)) - t i) * D (Suc r) i"
    if c: "k < i + p - int (Suc r)"
  proof -
    define T where "T = t (i + p - int r - 1)"
    define T2 where "T2 = t (i + p - int r)"
    from c have tT: "t' (i + p - int r) = T" by (simp add: t'_def knot_inserted_def T_def)
    from c ih1 have d1: "D' r (i - 1) =
        (1 - (u - t (i - 1)) / (T - t (i - 1))) * D r (i - 2)
          + (u - t (i - 1)) / (T - t (i - 1)) * D r (i - 1)"
      by (simp add: T_def algebra_simps)
    from c ih2 have d2: "D' r i =
        (1 - (u - t i) / (T2 - t i)) * D r (i - 1) + (u - t i) / (T2 - t i) * D r i"
      by (simp add: T2_def)
    have s1: "D (Suc r) (i - 1) = (1 - (x - t (i - 1)) / (T - t (i - 1))) * D r (i - 2)
       + (x - t (i - 1)) / (T - t (i - 1)) * D r (i - 1)"
      unfolding step T_def by (simp add: algebra_simps)
    have s2: "D (Suc r) i = (1 - (x - t i) / (T2 - t i)) * D r (i - 1)
       + (x - t i) / (T2 - t i) * D r i"
      unfolding step T2_def by simp
    have e: "t (i + p - int (Suc r)) = T" by (simp add: T_def algebra_simps)
    have "u < T" using hi[of "i + p - int r - 1"] c by (simp add: T_def)
    moreover have "t i \<le> u" "t (i - 1) \<le> u" using lo ik by simp_all
    ultimately have n: "T \<noteq> t i" "T \<noteq> t (i - 1)" by simp_all
    show ?thesis
      unfolding step' tT d1 d2 e s1 s2 by (rule blend_swap[OF n])
  qed
  show ?case using A C by (simp add: D'_def D_def t'_def)
qed

lemma insertion_right:
  assumes lo: "\<And>j. j \<le> k \<Longrightarrow> t j \<le> u" and hi: "\<And>j. k < j \<Longrightarrow> u < t j"
    and i: "k + 1 \<le> i + p - int r"
  shows "(k < i \<longrightarrow>
            de_boor (knot_inserted t k u) (ctrlp_inserted t P p k u) p x r i
              = de_boor t P p x r (i - 1))
       \<and> (i \<le> k \<longrightarrow>
            de_boor (knot_inserted t k u) (ctrlp_inserted t P p k u) p x r i
              = (1 - (u - t i) / (t (i + p - int r) - t i)) * de_boor t P p x r (i - 1)
                + (u - t i) / (t (i + p - int r) - t i) * de_boor t P p x r i)"
  using i
proof (induction r arbitrary: i)
  case 0
  then show ?case by (auto simp: ctrlp_inserted_def)
next
  case (Suc r)
  define t' where "t' = knot_inserted t k u"
  define D' where "D' = de_boor t' (ctrlp_inserted t P p k u) p x"
  define D where "D = de_boor t P p x"
  have step': "D' (Suc r) i = (1 - (x - t' i) / (t' (i + p - int r) - t' i)) * D' r (i - 1)
       + (x - t' i) / (t' (i + p - int r) - t' i) * D' r i"
    by (simp add: D'_def)
  have step: "D (Suc r) j = (1 - (x - t j) / (t (j + p - int r) - t j)) * D r (j - 1)
       + (x - t j) / (t (j + p - int r) - t j) * D r j" for j
    by (simp add: D_def)
  have r1: "k + 1 \<le> i - 1 + p - int r" "k + 1 \<le> i + p - int r" using Suc.prems by simp_all
  have ih1: "(k < i - 1 \<longrightarrow> D' r (i - 1) = D r (i - 1 - 1))
       \<and> (i - 1 \<le> k \<longrightarrow>
            D' r (i - 1) = (1 - (u - t (i - 1)) / (t (i - 1 + p - int r) - t (i - 1))) * D r (i - 1 - 1)
                + (u - t (i - 1)) / (t (i - 1 + p - int r) - t (i - 1)) * D r (i - 1))"
    using Suc.IH[OF r1(1)] by (simp add: D'_def D_def t'_def)
  have ih2: "(k < i \<longrightarrow> D' r i = D r (i - 1))
       \<and> (i \<le> k \<longrightarrow>
            D' r i = (1 - (u - t i) / (t (i + p - int r) - t i)) * D r (i - 1)
                + (u - t i) / (t (i + p - int r) - t i) * D r i)"
    using Suc.IH[OF r1(2)] by (simp add: D'_def D_def t'_def)
  define T where "T = t (i + p - int r - 1)"
  have tT: "t' (i + p - int r) = T" using Suc.prems by (simp add: t'_def knot_inserted_def T_def)
  have uT: "u < T" using hi[of "i + p - int r - 1"] Suc.prems by (simp add: T_def)
  have sT: "D (Suc r) (i - 1) = (1 - (x - t (i - 1)) / (T - t (i - 1))) * D r (i - 2)
       + (x - t (i - 1)) / (T - t (i - 1)) * D r (i - 1)"
    unfolding step T_def by (simp add: algebra_simps)
  have B: "D' (Suc r) i = D (Suc r) (i - 1)" if b: "k < i"
  proof (cases "k + 1 < i")
    case True
    then have "t' i = t (i - 1)" by (simp add: t'_def knot_inserted_def)
    moreover from True ih1 have "D' r (i - 1) = D r (i - 2)" by simp
    moreover from True ih2 have "D' r i = D r (i - 1)" by simp
    ultimately show ?thesis unfolding step' tT sT by simp
  next
    case False
    with b have e: "i - 1 = k" "i = k + 1" by simp_all
    have tu: "t' i = u" using e by (simp add: t'_def knot_inserted_def)
    from e ih1 have d1: "D' r (i - 1) =
        (1 - (u - t (i - 1)) / (T - t (i - 1))) * D r (i - 2)
          + (u - t (i - 1)) / (T - t (i - 1)) * D r (i - 1)"
      by (simp add: T_def algebra_simps)
    from b ih2 have d2: "D' r i = D r (i - 1)" by simp
    have "t (i - 1) \<le> u" using lo[of "i - 1"] e by simp
    with uT have n: "T \<noteq> u" "T \<noteq> t (i - 1)" by simp_all
    show ?thesis
      unfolding step' tT tu d1 d2 sT by (rule blend_twice_right[OF n])
  qed
  have C: "D' (Suc r) i = (1 - (u - t i) / (t (i + p - int (Suc r)) - t i)) * D (Suc r) (i - 1)
                + (u - t i) / (t (i + p - int (Suc r)) - t i) * D (Suc r) i"
    if c: "i \<le> k"
  proof -
    define T2 where "T2 = t (i + p - int r)"
    have ti: "t' i = t i" using c by (simp add: t'_def knot_inserted_def)
    from c ih1 have d1: "D' r (i - 1) =
        (1 - (u - t (i - 1)) / (T - t (i - 1))) * D r (i - 2)
          + (u - t (i - 1)) / (T - t (i - 1)) * D r (i - 1)"
      by (simp add: T_def algebra_simps)
    from c ih2 have d2: "D' r i =
        (1 - (u - t i) / (T2 - t i)) * D r (i - 1) + (u - t i) / (T2 - t i) * D r i"
      by (simp add: T2_def)
    have s2: "D (Suc r) i = (1 - (x - t i) / (T2 - t i)) * D r (i - 1)
       + (x - t i) / (T2 - t i) * D r i"
      unfolding step T2_def by simp
    have e: "t (i + p - int (Suc r)) = T" by (simp add: T_def algebra_simps)
    have "t i \<le> u" "t (i - 1) \<le> u" using lo c by simp_all
    with uT have n: "T \<noteq> t i" "T \<noteq> t (i - 1)" by simp_all
    show ?thesis
      unfolding step' tT ti d1 d2 e sT s2 by (rule blend_swap[OF n])
  qed
  show ?case using B C by (simp add: D'_def D_def t'_def)
qed

subsection \<open>The table of the code and the recurrence\<close>

lemma next_row_nth:
  "j + 1 < length ps \<Longrightarrow>
   next_row b u r i ps ! j = interpolated (blend_factor b u r (i + j)) (ps ! j) (ps ! (j + 1))"
proof (induction b u r i ps arbitrary: j rule: next_row.induct)
  case (1 b u r i left right rest)
  show ?case
  proof (cases j)
    case 0
    then show ?thesis by simp
  next
    case (Suc j')
    with "1.prems" have "j' + 1 < length (right # rest)" by simp
    from "1.IH"[OF this] Suc show ?thesis by simp
  qed
qed simp_all

lemma interpolated_nth:
  "c < length p \<Longrightarrow> c < length q \<Longrightarrow> interpolated a p q ! c = (1 - a) * p ! c + a * q ! c"
  by (simp add: interpolated_def)

lemma blend_factor_at:
  assumes "r0 < i" "i + bs_deg b - r0 < length (bs_knots b)" "i < length (bs_knots b)"
  shows "blend_factor b x (Suc r0) i
     = (x - knot_at b (int i)) / (knot_at b (int i + int (bs_deg b) - int r0) - knot_at b (int i))"
proof -
  have 1: "i + bs_deg b - Suc r0 + 1 = i + bs_deg b - r0" using assms(1) by simp
  have 2: "int i + int (bs_deg b) - int r0 = int (i + bs_deg b - r0)" using assms(1) by simp
  show ?thesis
    unfolding blend_factor_def 1 2 knot_at_def using assms(2,3) by simp
qed

lemma later_rows_last_point:
  assumes "length prev = Suc cnt"
    and "\<forall>j \<le> cnt. length (prev ! j) = d \<and>
           (\<forall>c < d. prev ! j ! c =
              de_boor (knot_at b) (coord_at b c) (int (bs_deg b)) x r0 (int (first + r0 + j)))"
    and "first + r0 + cnt + bs_deg b < length (bs_knots b)"
    and "last (prev # later_rows b x first (Suc r0) cnt prev) = [p]"
  shows "length p = d \<and>
     (\<forall>c < d. p ! c =
        de_boor (knot_at b) (coord_at b c) (int (bs_deg b)) x (r0 + cnt) (int (first + r0 + cnt)))"
  using assms
proof (induction cnt arbitrary: r0 prev)
  case 0
  then obtain q where "prev = [q]" by (cases prev) auto
  with 0 show ?case by simp
next
  case (Suc cnt)
  define row where "row = next_row b x (Suc r0) (first + Suc r0) prev"
  have len: "length row = Suc cnt" using Suc.prems(1) by (simp add: row_def next_row_length)
  have ent: "length (row ! j) = d \<and>
           (\<forall>c < d. row ! j ! c =
              de_boor (knot_at b) (coord_at b c) (int (bs_deg b)) x (Suc r0) (int (first + Suc r0 + j)))"
    if j: "j \<le> cnt" for j
  proof -
    from j Suc.prems(1) have j1: "j + 1 < length prev" by simp
    from j have jj: "j \<le> Suc cnt" "j + 1 \<le> Suc cnt" by simp_all
    from Suc.prems(2) jj have l: "length (prev ! j) = d" "length (prev ! (j + 1)) = d" by auto
    have rj: "row ! j = interpolated (blend_factor b x (Suc r0) (first + Suc r0 + j))
        (prev ! j) (prev ! (j + 1))"
      unfolding row_def by (rule next_row_nth[OF j1])
    have bf: "blend_factor b x (Suc r0) (first + Suc r0 + j)
       = (x - knot_at b (int (first + Suc r0 + j)))
          / (knot_at b (int (first + Suc r0 + j) + int (bs_deg b) - int r0)
              - knot_at b (int (first + Suc r0 + j)))"
      by (rule blend_factor_at) (use j Suc.prems(3) in simp_all)
    have "row ! j ! c =
        de_boor (knot_at b) (coord_at b c) (int (bs_deg b)) x (Suc r0) (int (first + Suc r0 + j))"
      if c: "c < d" for c
    proof -
      from Suc.prems(2) jj(1) c
      have p1: "prev ! j ! c =
          de_boor (knot_at b) (coord_at b c) (int (bs_deg b)) x r0 (int (first + r0 + j))"
        by blast
      from Suc.prems(2) jj(2) c
      have p2: "prev ! (j + 1) ! c =
          de_boor (knot_at b) (coord_at b c) (int (bs_deg b)) x r0 (int (first + r0 + (j + 1)))"
        by blast
      have e1: "int (first + Suc r0 + j) - 1 = int (first + r0 + j)"
        and e2: "int (first + Suc r0 + j) = int (first + r0 + (j + 1))" by simp_all
      show ?thesis
        unfolding rj using c l
        by (simp only: interpolated_nth bf p1 p2 de_boor.simps e1) (simp only: e2)
    qed
    with l show ?thesis by (simp add: rj interpolated_length)
  qed
  have "length p = d \<and>
     (\<forall>c < d. p ! c =
        de_boor (knot_at b) (coord_at b c) (int (bs_deg b)) x (Suc r0 + cnt)
          (int (first + Suc r0 + cnt)))"
  proof (rule Suc.IH[OF len])
    show "\<forall>j\<le>cnt. length (row ! j) = d \<and>
           (\<forall>c<d. row ! j ! c =
              de_boor (knot_at b) (coord_at b c) (int (bs_deg b)) x (Suc r0) (int (first + Suc r0 + j)))"
      using ent by blast
    show "first + Suc r0 + cnt + bs_deg b < length (bs_knots b)"
      using Suc.prems(3) by simp
    have "later_rows b x first (Suc r0) (Suc cnt) prev
        = row # later_rows b x first (Suc (Suc r0)) cnt row"
      by (simp add: Let_def row_def)
    with Suc.prems(4) show "last (row # later_rows b x first (Suc (Suc r0)) cnt row) = [p]"
      by simp
  qed
  then show ?case by simp
qed

lemma control_point_nth:
  assumes "length (bs_ctrlp b) = bs_n_ctrlp b * bs_dim b" "i < bs_n_ctrlp b" "c < bs_dim b"
  shows "control_point b i ! c = coord_at b c (int i)"
proof -
  have "(i + 1) * bs_dim b \<le> bs_n_ctrlp b * bs_dim b"
    using assms(2) by (intro mult_le_mono1) simp
  then have "i * bs_dim b + c < length (bs_ctrlp b)" using assms by simp
  then show ?thesis
    using assms by (simp add: control_point_def coord_at_def)
qed

lemma table_last_point:
  assumes wf: "bspline_wf b" and N: "1 \<le> N" "first + N \<le> bs_n_ctrlp b"
    and kn: "first + N + bs_deg b \<le> length (bs_knots b)"
    and last: "last (de_boor_table b x first N) = [p]"
  shows "length p = bs_dim b \<and>
     (\<forall>c < bs_dim b. p ! c =
        de_boor (knot_at b) (coord_at b c) (int (bs_deg b)) x (N - 1) (int (first + N - 1)))"
proof -
  define row0 where "row0 = map (control_point b) [first ..< first + N]"
  from N obtain cnt where cnt: "N = Suc cnt" by (cases N) auto
  from wf have lc: "length (bs_ctrlp b) = bs_n_ctrlp b * bs_dim b" by (simp add: bspline_wf_def)
  have "length p = bs_dim b \<and>
     (\<forall>c < bs_dim b. p ! c =
        de_boor (knot_at b) (coord_at b c) (int (bs_deg b)) x (0 + cnt) (int (first + 0 + cnt)))"
  proof (rule later_rows_last_point[where prev = row0])
    show "length row0 = Suc cnt" by (simp add: row0_def cnt)
    show "\<forall>j\<le>cnt. length (row0 ! j) = bs_dim b \<and>
       (\<forall>c<bs_dim b. row0 ! j ! c =
          de_boor (knot_at b) (coord_at b c) (int (bs_deg b)) x 0 (int (first + 0 + j)))"
    proof (intro allI impI)
      fix j assume j: "j \<le> cnt"
      then have "j < N" by (simp add: cnt)
      then have r: "row0 ! j = control_point b (first + j)" by (simp add: row0_def)
      from j N cnt have i: "first + j < bs_n_ctrlp b" by simp
      then have "(first + j + 1) * bs_dim b \<le> bs_n_ctrlp b * bs_dim b"
        by (intro mult_le_mono1) simp
      then have "length (control_point b (first + j)) = bs_dim b"
        using lc by (intro control_point_length) simp
      moreover have "\<forall>c<bs_dim b. control_point b (first + j) ! c = coord_at b c (int (first + j))"
        using control_point_nth[OF lc i] by blast
      ultimately show "length (row0 ! j) = bs_dim b \<and>
       (\<forall>c<bs_dim b. row0 ! j ! c =
          de_boor (knot_at b) (coord_at b c) (int (bs_deg b)) x 0 (int (first + 0 + j)))"
        unfolding r by simp
    qed
    show "first + 0 + cnt + bs_deg b < length (bs_knots b)" using kn cnt by simp
    show "last (row0 # later_rows b x first (Suc 0) cnt row0) = [p]"
      using last by (simp add: de_boor_table_def Let_def row0_def cnt)
  qed
  then show ?thesis by (simp add: cnt)
qed

subsection \<open>The scan at a sharp parameter\<close>

lemma find_knot_sharp:
  assumes len: "length (bs_knots b) = bs_n_knots b" and so: "sorted (bs_knots b)"
    and sh: "sharp tol (bs_knots b) x"
  shows "find_knot tol b x =
     Some (int (length (filter (\<lambda>y. y \<le> x) (bs_knots b))) - 1,
           int (length (filter (\<lambda>y. y = x) (bs_knots b))))"
proof -
  define K where "K = bs_knots b"
  from find_knot_total[OF len] obtain k s where ks: "find_knot tol b x = Some (k, s)" by blast
  define kk where "kk = nat (k + 1)"
  from find_knot_spec[OF ks len] have *: "- 1 \<le> k" "k < int (length K)"
    "s = int (length (filter (ts_fequals tol x) (take kk K)))"
    "\<forall>y \<in> set (take kk K). ts_fequals tol x y \<or> \<not> x < y"
    "k + 1 < int (length K) \<longrightarrow> x < K ! kk"
    by (simp_all add: K_def kk_def len)
  have kk: "int kk = k + 1" "kk \<le> length K" using * by (simp_all add: kk_def)
  have fe: "ts_fequals tol x y \<longleftrightarrow> y = x" if "y \<in> set K" for y
    using sh that by (simp add: sharp_def K_def)
  have lo: "y \<le> x" if "y \<in> set (take kk K)" for y
    using *(4) that fe[of y] in_set_takeD[OF that] by auto
  have hi: "x < y" if "y \<in> set (drop kk K)" for y
  proof -
    from that obtain i where i: "i < length K - kk" "y = K ! (kk + i)"
      by (auto simp: in_set_conv_nth)
    then have "kk < length K" by simp
    with *(5) kk have "x < K ! kk" by simp
    moreover have "K ! kk \<le> K ! (kk + i)"
      using so i(1) by (simp add: K_def sorted_nth_mono)
    ultimately show ?thesis using i(2) by simp
  qed
  have split: "filter Q K = filter Q (take kk K) @ filter Q (drop kk K)" for Q
    unfolding filter_append[symmetric] by simp
  have "filter (\<lambda>y. y \<le> x) (take kk K) = take kk K"
    using lo by (simp add: filter_id_conv)
  moreover have "filter (\<lambda>y. y \<le> x) (drop kk K) = []"
    using hi by (simp add: filter_empty_conv not_le)
  ultimately have 1: "length (filter (\<lambda>y. y \<le> x) K) = kk"
    using kk(2) by (simp add: split[of "\<lambda>y. y \<le> x"])
  have "y \<noteq> x" if "y \<in> set (drop kk K)" for y
    using hi[OF that] by simp
  then have "filter (\<lambda>y. y = x) (drop kk K) = []"
    by (simp add: filter_empty_conv)
  moreover have "filter (\<lambda>y. y = x) (take kk K) = filter (ts_fequals tol x) (take kk K)"
  proof (rule filter_cong[OF refl])
    fix y assume "y \<in> set (take kk K)"
    then have "y \<in> set K" by (rule in_set_takeD)
    from fe[OF this] show "(y = x) = ts_fequals tol x y" by simp
  qed
  ultimately have 2: "int (length (filter (\<lambda>y. y = x) K)) = s"
    using *(3) by (simp add: split[of "\<lambda>y. y = x"])
  show ?thesis
    unfolding ks K_def[symmetric] 1 2 using kk(1) by simp
qed

lemma count_inserted:
  "length (filter Q (take n K @ [u] @ drop n K)) = length (filter Q K) + (if Q u then 1 else 0)"
proof -
  have "filter Q K = filter Q (take n K) @ filter Q (drop n K)"
    unfolding filter_append[symmetric] by simp
  then have "length (filter Q K) = length (filter Q (take n K)) + length (filter Q (drop n K))"
    by simp
  then show ?thesis by simp
qed

lemma sharp_inserted:
  assumes "sharp tol K x" "ts_fequals tol x u \<longleftrightarrow> u = x"
  shows "sharp tol (take n K @ [u] @ drop n K) x"
  using assms by (auto simp: sharp_def dest: in_set_takeD in_set_dropD)

lemma sorted_filter_take:
  assumes "sorted xs" and mono: "\<And>x y. x \<le> y \<Longrightarrow> Q y \<Longrightarrow> Q x"
  shows "filter Q xs = take (length (filter Q xs)) xs"
  using assms(1)
proof (induction xs)
  case Nil
  then show ?case by simp
next
  case (Cons x xs)
  show ?case
  proof (cases "Q x")
    case True
    with Cons show ?thesis by simp
  next
    case False
    have "\<not> Q y" if "y \<in> set xs" for y
      using Cons.prems that mono[of x y] False by auto
    then have "filter Q xs = []" by (simp add: filter_empty_conv)
    with False show ?thesis by simp
  qed
qed

lemma sorted_filter_nth:
  assumes so: "sorted xs" and mono: "\<And>x y. x \<le> y \<Longrightarrow> Q y \<Longrightarrow> Q x" and j: "j < length xs"
  shows "Q (xs ! j) \<longleftrightarrow> j < length (filter Q xs)"
proof
  assume q: "Q (xs ! j)"
  have "\<forall>y \<in> set (take (Suc j) xs). Q y"
  proof
    fix y assume "y \<in> set (take (Suc j) xs)"
    then obtain i where i: "i < Suc j" "y = xs ! i" using j by (auto simp: in_set_conv_nth)
    then have "xs ! i \<le> xs ! j" using so j by (simp add: sorted_nth_mono)
    with q i mono show "Q y" by blast
  qed
  then have "filter Q (take (Suc j) xs) = take (Suc j) xs" by (simp add: filter_id_conv)
  moreover have "filter Q xs = filter Q (take (Suc j) xs) @ filter Q (drop (Suc j) xs)"
    unfolding filter_append[symmetric] by simp
  ultimately have "length (filter Q xs) \<ge> length (take (Suc j) xs)" by simp
  with j show "j < length (filter Q xs)" by simp
next
  assume l: "j < length (filter Q xs)"
  have "filter Q xs ! j = xs ! j"
    by (subst sorted_filter_take[OF so mono]) (use l in simp_all)
  moreover have "filter Q xs ! j \<in> set (filter Q xs)" using l by (rule nth_mem)
  ultimately show "Q (xs ! j)" by simp
qed

lemma count_le_split:
  fixes x :: real
  shows "length (filter (\<lambda>y. y \<le> x) K)
       = length (filter (\<lambda>y. y < x) K) + length (filter (\<lambda>y. y = x) K)"
  by (induction K) auto

lemma count_mono:
  "(\<And>y. y \<in> set K \<Longrightarrow> Q y \<Longrightarrow> R y) \<Longrightarrow> length (filter Q K) \<le> length (filter R K)"
proof (induction K)
  case Nil
  then show ?case by simp
next
  case (Cons a K)
  then have "length (filter Q K) \<le> length (filter R K)" by simp
  with Cons.prems[of a] show ?case by auto
qed

text \<open>The knots seen through \<open>knot_at\<close>, for a sorted knot vector.\<close>

lemma knot_at_le:
  assumes so: "sorted (bs_knots b)" and c: "0 < length (filter (\<lambda>y. y \<le> x) (bs_knots b))"
    and j: "j < int (length (filter (\<lambda>y. y \<le> x) (bs_knots b)))"
  shows "knot_at b j \<le> x"
proof -
  define K where "K = bs_knots b"
  have le: "length (filter (\<lambda>y. y \<le> x) K) \<le> length K" by (rule length_filter_le)
  have n: "K ! i \<le> x" if "i < length (filter (\<lambda>y. y \<le> x) K)" for i
  proof -
    from that le have "i < length K" by (rule less_le_trans)
    from sorted_filter_nth[where Q = "\<lambda>y. y \<le> x" and xs = K and j = i, OF _ _ this] so that
    show ?thesis by (auto simp: K_def)
  qed
  show ?thesis
  proof (cases "j < 0")
    case True
    from c le have "K \<noteq> []" by (auto simp: K_def)
    then have "hd K = K ! 0" by (simp add: hd_conv_nth)
    with n[of 0] c True show ?thesis by (simp add: knot_at_def K_def)
  next
    case False
    then have l: "nat j < length (filter (\<lambda>y. y \<le> x) K)" using j by (simp add: K_def)
    from l le have "nat j < length K" by (rule less_le_trans)
    then have "j < int (length K)" by linarith
    with n[OF l] False show ?thesis by (simp add: knot_at_def K_def)
  qed
qed

lemma knot_at_less:
  assumes so: "sorted (bs_knots b)" and c: "0 < length (filter (\<lambda>y. y < x) (bs_knots b))"
    and j: "j < int (length (filter (\<lambda>y. y < x) (bs_knots b)))"
  shows "knot_at b j < x"
proof -
  define K where "K = bs_knots b"
  have le: "length (filter (\<lambda>y. y < x) K) \<le> length K" by (rule length_filter_le)
  have n: "K ! i < x" if "i < length (filter (\<lambda>y. y < x) K)" for i
  proof -
    from that le have "i < length K" by (rule less_le_trans)
    from sorted_filter_nth[where Q = "\<lambda>y. y < x" and xs = K and j = i, OF _ _ this] so that
    show ?thesis by (auto simp: K_def)
  qed
  show ?thesis
  proof (cases "j < 0")
    case True
    from c le have "K \<noteq> []" by (auto simp: K_def)
    then have "hd K = K ! 0" by (simp add: hd_conv_nth)
    with n[of 0] c True show ?thesis by (simp add: knot_at_def K_def)
  next
    case False
    then have l: "nat j < length (filter (\<lambda>y. y < x) K)" using j by (simp add: K_def)
    from l le have "nat j < length K" by (rule less_le_trans)
    then have "j < int (length K)" by linarith
    with n[OF l] False show ?thesis by (simp add: knot_at_def K_def)
  qed
qed

lemma knot_at_greater:
  assumes so: "sorted (bs_knots b)"
    and c: "length (filter (\<lambda>y. y \<le> x) (bs_knots b)) < length (bs_knots b)"
    and j: "int (length (filter (\<lambda>y. y \<le> x) (bs_knots b))) \<le> j"
  shows "x < knot_at b j"
proof -
  define K where "K = bs_knots b"
  have n: "x < K ! i" if "length (filter (\<lambda>y. y \<le> x) K) \<le> i" "i < length K" for i
    using sorted_filter_nth[where Q = "\<lambda>y. y \<le> x" and xs = K and j = i] so that
    by (auto simp: K_def)
  from j have j0: "0 \<le> j" by simp
  show ?thesis
  proof (cases "j < int (length K)")
    case True
    with j j0 have "length (filter (\<lambda>y. y \<le> x) K) \<le> nat j" "nat j < length K"
      by (simp_all add: K_def)
    from n[OF this] True j0 show ?thesis by (simp add: knot_at_def K_def)
  next
    case False
    from c have ne: "K \<noteq> []" by (auto simp: K_def)
    then have "last K = K ! (length K - 1)" by (simp add: last_conv_nth)
    moreover have "x < K ! (length K - 1)"
      by (rule n) (use c ne in \<open>simp_all add: K_def\<close>)
    ultimately show ?thesis using False j0 by (simp add: knot_at_def K_def)
  qed
qed

lemma knot_at_equal:
  assumes so: "sorted (bs_knots b)"
    and lo: "int (length (filter (\<lambda>y. y < x) (bs_knots b))) \<le> j"
    and hi: "j < int (length (filter (\<lambda>y. y \<le> x) (bs_knots b)))"
  shows "knot_at b j = x"
proof -
  define K where "K = bs_knots b"
  from lo have j0: "0 \<le> j" by simp
  have le: "length (filter (\<lambda>y. y \<le> x) K) \<le> length K" by (rule length_filter_le)
  moreover from hi j0 have "nat j < length (filter (\<lambda>y. y \<le> x) K)" by (simp add: K_def)
  ultimately have jl: "nat j < length K" by (rule less_le_trans[rotated])
  have "K ! nat j \<le> x"
    using sorted_filter_nth[where Q = "\<lambda>y. y \<le> x" and xs = K and j = "nat j"] so jl hi j0
    by (auto simp: K_def)
  moreover have "\<not> K ! nat j < x"
    using sorted_filter_nth[where Q = "\<lambda>y. y < x" and xs = K and j = "nat j"] so jl lo j0
    by (auto simp: K_def)
  moreover from jl have "j < int (length K)" by linarith
  ultimately show ?thesis using j0 by (simp add: knot_at_def K_def)
qed

subsection \<open>The curve after one insertion\<close>

lemma memcpy_append:
  assumes "to = int (length X)" "off = int f" "cnt = int c" "c \<le> length Y" "f + c \<le> length src"
  shows "\<exists>Y'. memcpy (X @ Y) to src off cnt = Some ((X @ take c (drop f src)) @ Y')
            \<and> length Y' = length Y - c"
proof -
  have "memcpy (X @ Y) to src off cnt
      = Some (take (length X) (X @ Y) @ take c (drop f src) @ drop (length X + c) (X @ Y))"
    by (rule memcpy_region) (use assms in simp_all)
  then show ?thesis by simp
qed

lemma copy_edge_once:
  assumes "memcpy ctrlp to points off (int d) = Some c"
  shows "copy_edge d inc points 1 0 (ctrlp, off, stride, to)
     = Some (c, off + stride, stride + inc, to + int d)"
  using assms by (subst copy_edge.simps, simp, subst copy_edge.simps, simp)

lemma insert_knot_ctrlp:
  assumes "ts_bspline_insert_knot malloc tol b u n = Some (Inr r)"
    "ts_bspline_evaluate malloc tol b u = Some (Inr (ret, net))"
    "ts_bspline_new malloc (bs_deg b) (bs_dim b) (bs_n_ctrlp b + n) TS_OPENED = Some (Inr result)"
    "memcpy (bs_ctrlp result) 0 (bs_ctrlp b) 0 ((net_k net - int (bs_deg b)) * int (bs_dim b))
       = Some c1"
    "copy_edge (bs_dim b) (- int (bs_dim b)) (net_points net) n 0
       (c1, 0, int (net_n_affected net) * int (bs_dim b),
        (net_k net - int (bs_deg b)) * int (bs_dim b)) = Some (c2, off, stride, to)"
    "memcpy c2 to (net_points net) off ((int (net_n_affected net) - int n) * int (bs_dim b))
       = Some c3"
    "copy_edge (bs_dim b) (- int (bs_dim b)) (net_points net) n 0
       (c3, off - int (bs_dim b), - (int (net_n_affected net) - int n + 1) * int (bs_dim b),
        to + (int (net_n_affected net) - int n) * int (bs_dim b)) = Some (c4, off', stride', to')"
    "memcpy c4 to' (bs_ctrlp b)
       (((net_k net - int (bs_deg b)) + int (net_n_affected net)) * int (bs_dim b))
       ((int (bs_n_ctrlp b) - ((net_k net - int (bs_deg b)) + int (net_n_affected net)))
          * int (bs_dim b)) = Some c5"
  shows "bs_ctrlp r = c5"
  using assms unfolding ts_bspline_insert_knot_def Let_def
  by (auto split: bind_splits if_splits)

lemma table_first_rows:
  assumes "1 \<le> N"
  shows "\<exists>rest. concat (concat (de_boor_table b u first N))
     = concat (map (control_point b) [first ..< first + N])
       @ concat (next_row b u 1 (first + 1) (map (control_point b) [first ..< first + N])) @ rest"
proof (cases "N - 1")
  case 0
  with assms have N: "N = 1" by simp
  show ?thesis by (simp add: de_boor_table_def N)
next
  case (Suc h)
  then have "N - Suc 0 = Suc h" by simp
  then show ?thesis by (simp add: de_boor_table_def Let_def)
qed

lemma insert_one_knot:
  assumes wf: "bspline_wf b" and ks: "find_knot tol b u = Some (k, s)"
    and lt: "s < int (bs_order b)"
    and lo: "0 \<le> k - int (bs_deg b)" and hi: "k - s < int (bs_n_ctrlp b)"
    and m: "\<And>x. malloc x"
    and first: "first = nat (k - int (bs_deg b))" and N: "N = nat (int (bs_deg b) - s + 1)"
    and ord: "bs_order b \<le> 5792"
  shows "\<exists>r. ts_bspline_insert_knot malloc tol b u 1 = Some (Inr r)
      \<and> bs_deg r = bs_deg b \<and> bs_order r = bs_order b \<and> bs_dim r = bs_dim b
      \<and> bs_n_ctrlp r = bs_n_ctrlp b + 1
      \<and> bs_n_knots r = bs_n_knots b + 1
      \<and> length (bs_ctrlp r) = (bs_n_ctrlp b + 1) * bs_dim b
      \<and> (sorted (bs_knots b) \<and> bs_knots b ! nat k \<le> u \<longrightarrow> sorted (bs_knots r))
      \<and> bs_knots r = take (nat (k + 1)) (bs_knots b) @ [u] @ drop (nat (k + 1)) (bs_knots b)
      \<and> bs_ctrlp r = take ((first + 1) * bs_dim b) (bs_ctrlp b)
          @ concat (next_row b u 1 (first + 1) (map (control_point b) [first ..< first + N]))
          @ drop ((first + N - 1) * bs_dim b) (bs_ctrlp b)"
proof -
  define d where "d = bs_dim b"
  define dg where "dg = bs_deg b"
  define ncp where "ncp = bs_n_ctrlp b"
  define C where "C = bs_ctrlp b"
  define row0 where "row0 = map (control_point b) [first ..< first + N]"
  define row1 where "row1 = next_row b u 1 (first + 1) row0"
  from wf have w: "1 \<le> d" "dg < ncp" "bs_order b = dg + 1" "bs_n_knots b = ncp + (dg + 1)"
    "length C = ncp * d" "length (bs_knots b) = bs_n_knots b"
    by (simp_all add: bspline_wf_def d_def dg_def ncp_def C_def)
  note kb = find_knot_bounds[OF ks w(6)]
  have s: "0 \<le> s" "s \<le> int dg" using kb(1) lt w by simp_all
  have N1: "1 \<le> N" "int N = int dg - s + 1" using s by (simp_all add: N dg_def)
  have fN: "int first = k - int dg" "first + N \<le> ncp"
    using lo hi N1 w by (simp_all add: first dg_def ncp_def)
  have cap: "s + int 1 \<le> int (bs_order b)" using lt by simp
  have small: "int (bs_deg b) - s < 5792" using s(1) ord w(3) by (simp add: dg_def)
  have exact: "binary32_of_nat (N * (N + 1)) = N * (N + 1)"
    unfolding N by (rule binary32_affected[OF wf s(1) ord])
  from insertion_general_case[where malloc = malloc and n = 1, OF wf ks lt lo hi cap m small]
  obtain r where r: "ts_bspline_insert_knot malloc tol b u 1 = Some (Inr r)"
    "bs_deg r = bs_deg b" "bs_order r = bs_order b" "bs_dim r = bs_dim b"
    "bs_n_ctrlp r = bs_n_ctrlp b + 1" "bs_n_knots r = bs_n_knots b + 1"
    "bs_knots r = take (nat (k + 1)) (bs_knots b) @ replicate 1 u @ drop (nat (k + 1)) (bs_knots b)"
    "length (bs_ctrlp r) = (bs_n_ctrlp b + 1) * bs_dim b"
    "sorted (bs_knots b) \<and> bs_knots b ! nat k \<le> u \<longrightarrow> sorted (bs_knots r)"
    by blast
  from evaluate_general_case[where malloc = malloc, OF wf ks lt lo hi N m exact]
  obtain net where net: "ts_bspline_evaluate malloc tol b u = Some (Inr (0, net))"
    "net_k net = k" "net_s net = s" "net_n_affected net = N"
    "net_points net = concat (concat (de_boor_table b u (nat (k - int (bs_deg b))) N))"
    by blast
  define pts where "pts = net_points net"
  from table_first_rows[OF N1(1), of b u first] net(5)
  obtain rest where pts: "pts = concat row0 @ concat row1 @ rest"
    by (auto simp: pts_def row0_def row1_def first)
  have le1: "(first + N) * d \<le> length C" "first * d \<le> length C" "(first + 1) * d \<le> length C"
  proof -
    show a: "(first + N) * d \<le> length C"
      unfolding w(5) using fN(2) by (rule mult_le_mono1)
    have "first * d \<le> (first + N) * d" by (rule mult_le_mono1) simp
    from this a show "first * d \<le> length C" by (rule order_trans)
    have "(first + 1) * d \<le> (first + N) * d" using N1(1) by (intro mult_le_mono1) simp
    from this a show "(first + 1) * d \<le> length C" by (rule order_trans)
  qed
  have c0: "concat row0 = take (N * d) (drop (first * d) C)"
    unfolding row0_def C_def d_def
    by (rule control_points_concat) (use le1(1) in \<open>simp add: C_def d_def\<close>)
  have l0: "length (concat row0) = N * d"
    unfolding c0 using le1(1) by (simp add: add_mult_distrib)
  have p0: "\<forall>p \<in> set row0. length p = d"
  proof
    fix p assume "p \<in> set row0"
    then obtain j where j: "first \<le> j" "j < first + N" "p = control_point b j"
      by (auto simp: row0_def)
    then have "(j + 1) * d \<le> (first + N) * d" by (intro mult_le_mono1) simp
    with le1(1) have "(j + 1) * bs_dim b \<le> length (bs_ctrlp b)" by (simp add: d_def C_def)
    from control_point_length[OF this] j show "length p = d" by (simp add: d_def)
  qed
  have l1: "length (concat row1) = (N - 1) * d"
  proof -
    have "\<forall>p \<in> set row1. length p = d" unfolding row1_def by (rule next_row_points[OF p0])
    from concat_points_length[OF this] show ?thesis
      by (simp add: row1_def next_row_length row0_def)
  qed
  have Nd: "(N - 1) * d + d = N * d"
    using N1(1) by (cases N) simp_all
  have dN: "d \<le> N * d" using N1(1) by simp
  have t1: "take d (drop 0 pts) = take d (drop (first * d) C)"
  proof -
    have "take d pts = take d (concat row0)"
      unfolding pts using l0 dN by simp
    also have "\<dots> = take d (drop (first * d) C)"
      unfolding c0 using dN by (simp add: min_absorb1)
    finally show ?thesis by simp
  qed
  have t2: "take ((N - 1) * d) (drop (N * d) pts) = concat row1"
    unfolding pts using l0 l1 by simp
  have t3: "take d (drop ((N - 1) * d) pts) = take d (drop ((first + N - 1) * d) C)"
  proof -
    have "take d (drop ((N - 1) * d) pts) = take d (drop ((N - 1) * d) (concat row0))"
      unfolding pts using l0 Nd by simp
    also have "\<dots> = take d (drop ((N - 1) * d) (drop (first * d) C))"
      unfolding c0 using Nd by (simp add: drop_take min_def)
    also have "(N - 1) * d + first * d = (first + N - 1) * d"
      using N1(1) by (cases N) (simp_all add: add_mult_distrib)
    then have "drop ((N - 1) * d) (drop (first * d) C) = drop ((first + N - 1) * d) C"
      by simp
    finally show ?thesis .
  qed
  have lp: "N * d + (N - 1) * d \<le> length pts" "d \<le> length pts" "(N - 1) * d + d \<le> length pts"
    unfolding pts using l0 l1 Nd N1(1) w(1) by simp_all
  from ts_bspline_new_ok[where malloc = malloc and t = TS_OPENED and d = d and deg = dg
      and n = "ncp + 1", OF w(1) _ m m] w(2)
  obtain kn where kn: "length kn = ncp + 1 + (dg + 1)"
    "ts_bspline_new malloc dg d (ncp + 1) TS_OPENED =
       Some (Inr \<lparr>bs_deg = dg, bs_order = dg + 1, bs_dim = d, bs_n_ctrlp = ncp + 1,
                  bs_n_knots = ncp + 1 + (dg + 1), bs_ctrlp = replicate ((ncp + 1) * d) 0,
                  bs_knots = kn\<rparr>)"
    by auto
  define result where "result = \<lparr>bs_deg = dg, bs_order = dg + 1, bs_dim = d, bs_n_ctrlp = ncp + 1,
                  bs_n_knots = ncp + 1 + (dg + 1), bs_ctrlp = replicate ((ncp + 1) * d) (0::real),
                  bs_knots = kn\<rparr>"
  define c0' :: "real list" where "c0' = replicate ((ncp + 1) * d) 0"
  define A where "A = take (first * d) C"
  have lA: "length A = first * d" using le1(2) by (simp add: A_def)
  have tot: "(ncp + 1) * d = first * d + (d + ((N - 1) * d + (d + (ncp - (first + N)) * d)))"
  proof -
    have "ncp + 1 = first + (1 + ((N - 1) + (1 + (ncp - (first + N)))))"
      using fN(2) N1(1) by simp
    then have "(ncp + 1) * d = (first + (1 + ((N - 1) + (1 + (ncp - (first + N)))))) * d"
      by simp
    then show ?thesis by (simp only: add_mult_distrib mult_1)
  qed
  have "\<exists>Y'. memcpy ([] @ c0') 0 C 0 ((k - int dg) * int d)
        = Some (([] @ take (first * d) (drop 0 C)) @ Y') \<and> length Y' = length c0' - first * d"
    by (rule memcpy_append[where f = 0])
       (use fN(1) le1(2) tot in \<open>simp_all add: c0'_def\<close>)
  then obtain Y1 where c1: "memcpy c0' 0 C 0 ((k - int dg) * int d) = Some (A @ Y1)"
    and lY1: "length Y1 = d + ((N - 1) * d + (d + (ncp - (first + N)) * d))"
    using tot by (auto simp: A_def c0'_def)
  have "\<exists>Y'. memcpy (A @ Y1) ((k - int dg) * int d) pts 0 (int d)
        = Some ((A @ take d (drop 0 pts)) @ Y') \<and> length Y' = length Y1 - d"
    by (rule memcpy_append[where f = 0]) (use fN(1) lA lY1 lp in simp_all)
  then obtain Y2 where c2m: "memcpy (A @ Y1) ((k - int dg) * int d) pts 0 (int d)
        = Some ((A @ take d (drop (first * d) C)) @ Y2)"
    and lY2: "length Y2 = (N - 1) * d + (d + (ncp - (first + N)) * d)"
    using lY1 t1 by auto
  define B where "B = A @ take d (drop (first * d) C)"
  have B: "B = take ((first + 1) * d) C"
  proof -
    have "(first + 1) * d = first * d + d" by (simp add: add_mult_distrib)
    then show ?thesis unfolding B_def A_def by (simp only: take_add)
  qed
  have lB: "length B = (first + 1) * d" unfolding B using le1(3) by simp
  have c2: "copy_edge d (- int d) pts 1 0 (A @ Y1, 0, int N * int d, (k - int dg) * int d)
      = Some (B @ Y2, 0 + int N * int d, int N * int d + - int d, (k - int dg) * int d + int d)"
    by (rule copy_edge_once) (use c2m in \<open>simp add: B_def\<close>)
  have "\<exists>Y'. memcpy (B @ Y2) ((k - int dg) * int d + int d) pts (0 + int N * int d)
          ((int N - int 1) * int d)
        = Some ((B @ take ((N - 1) * d) (drop (N * d) pts)) @ Y') \<and> length Y' = length Y2 - (N - 1) * d"
    by (rule memcpy_append)
       (use fN(1) lB lY2 lp N1(1) in \<open>simp_all add: add_mult_distrib of_nat_diff left_diff_distrib\<close>)
  then obtain Y3 where c3: "memcpy (B @ Y2) ((k - int dg) * int d + int d) pts (0 + int N * int d)
          ((int N - int 1) * int d) = Some ((B @ concat row1) @ Y3)"
    and lY3: "length Y3 = d + (ncp - (first + N)) * d"
    using lY2 t2 by auto
  have lB1: "length (B @ concat row1) = (first + N) * d"
    using lB l1 N1(1) by (cases N) (simp_all add: add_mult_distrib)
  have "\<exists>Y'. memcpy ((B @ concat row1) @ Y3)
          ((k - int dg) * int d + int d + (int N - int 1) * int d) pts
          (0 + int N * int d - int d) (int d)
        = Some (((B @ concat row1) @ take d (drop ((N - 1) * d) pts)) @ Y') \<and> length Y' = length Y3 - d"
    by (rule memcpy_append)
       (use fN(1) lB1 lY3 lp N1(1) Nd in
          \<open>simp_all add: add_mult_distrib of_nat_diff left_diff_distrib\<close>)
  then obtain Y4 where c4m: "memcpy ((B @ concat row1) @ Y3)
          ((k - int dg) * int d + int d + (int N - int 1) * int d) pts
          (0 + int N * int d - int d) (int d)
        = Some (((B @ concat row1) @ take d (drop ((first + N - 1) * d) C)) @ Y4)"
    and lY4: "length Y4 = (ncp - (first + N)) * d"
    using lY3 t3 by auto
  define E where "E = (B @ concat row1) @ take d (drop ((first + N - 1) * d) C)"
  have c4: "copy_edge d (- int d) pts 1 0
       ((B @ concat row1) @ Y3, 0 + int N * int d - int d, - (int N - int 1 + 1) * int d,
        (k - int dg) * int d + int d + (int N - int 1) * int d)
      = Some (E @ Y4, 0 + int N * int d - int d + - (int N - int 1 + 1) * int d,
              - (int N - int 1 + 1) * int d + - int d,
              (k - int dg) * int d + int d + (int N - int 1) * int d + int d)"
    by (rule copy_edge_once) (use c4m in \<open>simp add: E_def\<close>)
  have lE: "length E = (first + N + 1) * d"
  proof -
    have "(first + N - 1) * d + d \<le> length C"
      using le1(1) N1(1) by (cases N) (simp_all add: add_mult_distrib)
    then show ?thesis unfolding E_def using lB1 by (simp add: add_mult_distrib)
  qed
  have "\<exists>Y'. memcpy (E @ Y4) ((k - int dg) * int d + int d + (int N - int 1) * int d + int d) C
          ((k - int dg + int N) * int d) ((int ncp - (k - int dg + int N)) * int d)
        = Some ((E @ take ((ncp - (first + N)) * d) (drop ((first + N) * d) C)) @ Y')
          \<and> length Y' = length Y4 - (ncp - (first + N)) * d"
  proof (rule memcpy_append)
    show "(k - int dg) * int d + int d + (int N - int 1) * int d + int d = int (length E)"
      unfolding lE fN(1)[symmetric] by (simp add: algebra_simps)
    show "(k - int dg + int N) * int d = int ((first + N) * d)"
      using fN(1) by simp
    show "(int ncp - (k - int dg + int N)) * int d = int ((ncp - (first + N)) * d)"
      using fN by (simp add: of_nat_diff)
    show "(ncp - (first + N)) * d \<le> length Y4" using lY4 by simp
    have "(first + N) * d + (ncp - (first + N)) * d = ncp * d"
      using fN(2) by (simp add: add_mult_distrib[symmetric] del: add_mult_distrib)
    then show "(first + N) * d + (ncp - (first + N)) * d \<le> length C" using w(5) by simp
  qed
  moreover have "take ((ncp - (first + N)) * d) (drop ((first + N) * d) C) = drop ((first + N) * d) C"
  proof -
    have "(first + N) * d + (ncp - (first + N)) * d = ncp * d"
      using fN(2) by (simp add: add_mult_distrib[symmetric] del: add_mult_distrib)
    then have "length (drop ((first + N) * d) C) = (ncp - (first + N)) * d"
      using w(5) by simp
    then show ?thesis by simp
  qed
  ultimately have c5: "memcpy (E @ Y4) ((k - int dg) * int d + int d + (int N - int 1) * int d + int d) C
          ((k - int dg + int N) * int d) ((int ncp - (k - int dg + int N)) * int d)
        = Some (E @ drop ((first + N) * d) C)"
    using lY4 by auto
  have "bs_ctrlp r = E @ drop ((first + N) * d) C"
  proof (rule insert_knot_ctrlp[OF r(1) net(1)])
    show "ts_bspline_new malloc (bs_deg b) (bs_dim b) (bs_n_ctrlp b + 1) TS_OPENED = Some (Inr result)"
      using kn(2) by (simp add: result_def dg_def d_def ncp_def)
    show "memcpy (bs_ctrlp result) 0 (bs_ctrlp b) 0 ((net_k net - int (bs_deg b)) * int (bs_dim b))
       = Some (A @ Y1)"
      using c1 by (simp add: result_def c0'_def net(2) dg_def d_def C_def)
    show "copy_edge (bs_dim b) (- int (bs_dim b)) (net_points net) 1 0
       (A @ Y1, 0, int (net_n_affected net) * int (bs_dim b),
        (net_k net - int (bs_deg b)) * int (bs_dim b))
       = Some (B @ Y2, 0 + int N * int d, int N * int d + - int d, (k - int dg) * int d + int d)"
      using c2 by (simp only: net(2,4) d_def dg_def pts_def)
    show "memcpy (B @ Y2) ((k - int dg) * int d + int d) (net_points net) (0 + int N * int d)
       ((int (net_n_affected net) - int 1) * int (bs_dim b)) = Some ((B @ concat row1) @ Y3)"
      using c3 by (simp only: net(2,4) d_def dg_def pts_def)
    show "copy_edge (bs_dim b) (- int (bs_dim b)) (net_points net) 1 0
       ((B @ concat row1) @ Y3, 0 + int N * int d - int (bs_dim b),
        - (int (net_n_affected net) - int 1 + 1) * int (bs_dim b),
        (k - int dg) * int d + int d + (int (net_n_affected net) - int 1) * int (bs_dim b))
       = Some (E @ Y4, 0 + int N * int d - int d + - (int N - int 1 + 1) * int d,
              - (int N - int 1 + 1) * int d + - int d,
              (k - int dg) * int d + int d + (int N - int 1) * int d + int d)"
      using c4 by (simp only: net(2,4) d_def dg_def pts_def)
    show "memcpy (E @ Y4) ((k - int dg) * int d + int d + (int N - int 1) * int d + int d)
       (bs_ctrlp b)
       (((net_k net - int (bs_deg b)) + int (net_n_affected net)) * int (bs_dim b))
       ((int (bs_n_ctrlp b) - ((net_k net - int (bs_deg b)) + int (net_n_affected net)))
          * int (bs_dim b)) = Some (E @ drop ((first + N) * d) C)"
      using c5 by (simp only: net(2,4) d_def dg_def pts_def ncp_def C_def)
  qed
  moreover have "take d (drop ((first + N - 1) * d) C) @ drop ((first + N) * d) C
      = drop ((first + N - 1) * d) C"
  proof -
    have "(first + N - 1) * d + d = (first + N) * d"
      using N1(1) by (cases N) (simp_all add: add_mult_distrib)
    then have "drop ((first + N) * d) C = drop d (drop ((first + N - 1) * d) C)"
      by (simp add: add.commute)
    then show ?thesis by (simp only: append_take_drop_id)
  qed
  ultimately have "bs_ctrlp r = take ((first + 1) * d) C @ concat row1 @ drop ((first + N - 1) * d) C"
    by (simp add: E_def B)
  with r show ?thesis
    by (intro exI[of _ r]) (simp add: d_def C_def row1_def row0_def)
qed

lemma concat_nth_uniform:
  "\<forall>p \<in> set ps. length p = d \<Longrightarrow> j < length ps \<Longrightarrow> c < d \<Longrightarrow>
   concat ps ! (j * d + c) = ps ! j ! c"
proof (induction ps arbitrary: j)
  case Nil
  then show ?case by simp
next
  case (Cons p ps)
  show ?case
  proof (cases j)
    case 0
    with Cons.prems show ?thesis by (simp add: nth_append)
  next
    case (Suc j')
    with Cons.prems have "concat ps ! (j' * d + c) = ps ! j' ! c"
      by (intro Cons.IH) simp_all
    moreover have "Suc j' * d + c = d + (j' * d + c)" by simp
    ultimately show ?thesis using Cons.prems Suc by (simp add: nth_append)
  qed
qed

lemma nth_three_parts:
  assumes lA: "length A = a * d" and lR: "length R = m * d" and c: "c < d"
  shows "n < a \<Longrightarrow> (A @ R @ E) ! (n * d + c) = A ! (n * d + c)"
    and "a \<le> n \<Longrightarrow> n < a + m \<Longrightarrow> (A @ R @ E) ! (n * d + c) = R ! ((n - a) * d + c)"
    and "a + m \<le> n \<Longrightarrow> (A @ R @ E) ! (n * d + c) = E ! ((n - (a + m)) * d + c)"
proof -
  show "(A @ R @ E) ! (n * d + c) = A ! (n * d + c)" if "n < a"
  proof -
    from that have "(n + 1) * d \<le> a * d" by (intro mult_le_mono1) simp
    with c have "n * d + c < length A" by (simp add: lA)
    then show ?thesis by (simp add: nth_append)
  qed
  show "(A @ R @ E) ! (n * d + c) = R ! ((n - a) * d + c)" if "a \<le> n" "n < a + m"
  proof -
    from that obtain j where j: "n = a + j" "j < m" by (auto simp: le_iff_add)
    then have "(j + 1) * d \<le> m * d" by (intro mult_le_mono1) simp
    with c have "j * d + c < length R" by (simp add: lR)
    moreover have "n * d + c = length A + (j * d + c)" by (simp add: j lA add_mult_distrib)
    ultimately show ?thesis by (simp add: nth_append j)
  qed
  show "(A @ R @ E) ! (n * d + c) = E ! ((n - (a + m)) * d + c)" if "a + m \<le> n"
  proof -
    from that obtain j where j: "n = a + m + j" by (auto simp: le_iff_add)
    have "n * d + c = length A + (length R + (j * d + c))"
      by (simp add: j lA lR add_mult_distrib)
    then show ?thesis by (simp add: nth_append j)
  qed
qed

lemma knot_at_inserted:
  assumes k: "0 \<le> k" "k + 1 < int (length (bs_knots b))"
    and r: "bs_knots r = take (nat (k + 1)) (bs_knots b) @ [u] @ drop (nat (k + 1)) (bs_knots b)"
  shows "knot_at r j = knot_inserted (knot_at b) k u j"
proof -
  define K where "K = bs_knots b"
  define kk where "kk = nat (k + 1)"
  have kk: "int kk = k + 1" "0 < kk" "kk < length K" using k by (simp_all add: kk_def K_def)
  have K': "bs_knots r = take kk K @ [u] @ drop kk K" using r by (simp add: kk_def K_def)
  have l: "length (bs_knots r) = length K + 1" using kk by (simp add: K')
  have ne: "K \<noteq> []" using kk by auto
  consider (neg) "j < 0" | (low) "0 \<le> j" "j \<le> k" | (mid) "j = k + 1"
    | (high) "k + 1 < j" "j < int (length K) + 1" | (out) "int (length K) + 1 \<le> j"
    by linarith
  then show ?thesis
  proof cases
    case neg
    have "hd (bs_knots r) = hd K" using kk ne by (simp add: K' hd_append)
    with neg k show ?thesis by (simp add: knot_at_def knot_inserted_def K_def)
  next
    case low
    then have "nat j < kk" using kk by linarith
    then have "bs_knots r ! nat j = K ! nat j" using kk by (simp add: K' nth_append)
    moreover have "j < int (length K)" "j < int (length (bs_knots r))" using low kk l by linarith+
    ultimately show ?thesis using low by (simp add: knot_at_def knot_inserted_def K_def)
  next
    case mid
    then have "nat j = kk" using kk by linarith
    then have "bs_knots r ! nat j = u" using kk by (simp add: K' nth_append)
    moreover have "j < int (length (bs_knots r))" "0 \<le> j" using mid kk l by linarith+
    ultimately show ?thesis using mid by (simp add: knot_at_def knot_inserted_def)
  next
    case high
    then obtain i where i: "nat j = kk + 1 + i" "kk + i < length K"
      using kk by (intro that[of "nat j - kk - 1"]) linarith+
    then have "bs_knots r ! nat j = K ! (kk + i)" using kk by (simp add: K' nth_append)
    moreover have "nat (j - 1) = kk + i" using i high kk by linarith
    moreover have "j < int (length (bs_knots r))" "0 \<le> j" "0 \<le> j - 1" "j - 1 < int (length K)"
      "\<not> j \<le> k" "j \<noteq> k + 1"
      using high kk l k by linarith+
    ultimately show ?thesis by (simp add: knot_at_def knot_inserted_def K_def)
  next
    case out
    have "last (bs_knots r) = last K" using kk by (simp add: K' last_append)
    moreover have "\<not> j < 0" "\<not> j < int (length (bs_knots r))" "\<not> j - 1 < 0"
      "\<not> j - 1 < int (length K)" "\<not> j \<le> k" "j \<noteq> k + 1"
      using out kk l k by linarith+
    ultimately show ?thesis by (simp add: knot_at_def knot_inserted_def K_def)
  qed
qed

lemma sharp_counts:
  assumes len: "length (bs_knots b) = bs_n_knots b" and so: "sorted (bs_knots b)"
    and sh: "sharp tol (bs_knots b) x" and ks: "find_knot tol b x = Some (k, s)"
  shows "int (length (filter (\<lambda>y. y \<le> x) (bs_knots b))) = k + 1"
    and "int (length (filter (\<lambda>y. y < x) (bs_knots b))) = k + 1 - s"
proof -
  from find_knot_sharp[OF len so sh] ks
  have 1: "k = int (length (filter (\<lambda>y. y \<le> x) (bs_knots b))) - 1"
    and 2: "s = int (length (filter (\<lambda>y. y = x) (bs_knots b)))" by simp_all
  from 1 show "int (length (filter (\<lambda>y. y \<le> x) (bs_knots b))) = k + 1" by simp
  with 2 count_le_split[of x "bs_knots b"]
  show "int (length (filter (\<lambda>y. y < x) (bs_knots b))) = k + 1 - s" by linarith
qed

lemma coord_at_inserted:
  assumes wf: "bspline_wf b" and so: "sorted (bs_knots b)" and su: "sharp tol (bs_knots b) u"
    and ks: "find_knot tol b u = Some (k, s)"
    and lt: "s < int (bs_order b)"
    and lo: "0 \<le> k - int (bs_deg b)" and hi: "k - s < int (bs_n_ctrlp b)"
    and first: "first = nat (k - int (bs_deg b))" and N: "N = nat (int (bs_deg b) - s + 1)"
    and r: "bs_dim r = bs_dim b" "bs_n_ctrlp r = bs_n_ctrlp b + 1"
      "bs_ctrlp r = take ((first + 1) * bs_dim b) (bs_ctrlp b)
          @ concat (next_row b u 1 (first + 1) (map (control_point b) [first ..< first + N]))
          @ drop ((first + N - 1) * bs_dim b) (bs_ctrlp b)"
    and c: "c < bs_dim b"
  shows "coord_at r c i = ctrlp_inserted (knot_at b) (coord_at b c) (int (bs_deg b)) k u i"
proof -
  define d where "d = bs_dim b"
  define dg where "dg = bs_deg b"
  define ncp where "ncp = bs_n_ctrlp b"
  define C where "C = bs_ctrlp b"
  define K where "K = bs_knots b"
  define row0 where "row0 = map (control_point b) [first ..< first + N]"
  define row1 where "row1 = next_row b u 1 (first + 1) row0"
  define t where "t = knot_at b"
  define P where "P = coord_at b c"
  from wf have w: "1 \<le> d" "dg < ncp" "bs_order b = dg + 1" "bs_n_knots b = ncp + (dg + 1)"
    "length C = ncp * d" "length K = ncp + (dg + 1)" "length (bs_knots b) = bs_n_knots b"
    "length (bs_ctrlp b) = bs_n_ctrlp b * bs_dim b"
    by (simp_all add: bspline_wf_def d_def dg_def ncp_def C_def K_def)
  note kb = find_knot_bounds[OF ks w(7)]
  have s: "0 \<le> s" "s \<le> int dg" using kb(1) lt w by simp_all
  have N1: "1 \<le> N" "int N = int dg - s + 1" using s by (simp_all add: N dg_def)
  have fN: "int first = k - int dg" "first + N \<le> ncp" "int (first + N) = k - s + 1"
    using lo hi N1 w by (simp_all add: first dg_def ncp_def)
  note cnt = sharp_counts[OF w(7) so su ks]
  have eq: "t j = u" if "k - s < j" "j \<le> k" for j
    unfolding t_def by (rule knot_at_equal[OF so]) (use that cnt in simp_all)
  have Pin: "P j = C ! (nat j * d + c)" if "0 \<le> j" "j < int ncp" for j
    using that by (simp add: P_def coord_at_def ncp_def C_def d_def)
  have Pout: "P j = 0" if "j < 0 \<or> int ncp \<le> j" for j
    using that by (auto simp: P_def coord_at_def ncp_def)
  have tail: "ctrlp_inserted t P (int dg) k u j = P (j - 1)" if "k - s < j" for j
  proof (cases "j \<le> k")
    case True
    from that lo s have "\<not> j \<le> k - int dg" by (simp add: dg_def)
    with True eq[OF that True] show ?thesis by (simp add: ctrlp_inserted_def)
  next
    case False
    with lo show ?thesis by (simp add: ctrlp_inserted_def dg_def)
  qed
  define A where "A = take ((first + 1) * d) C"
  define R where "R = concat row1"
  define E where "E = drop ((first + N - 1) * d) C"
  have C': "bs_ctrlp r = A @ R @ E"
    using r(3) by (simp add: A_def R_def E_def row1_def row0_def d_def C_def)
  have f1: "(first + 1) * d \<le> length C"
    unfolding w(5) using fN(2) N1(1) by (intro mult_le_mono1) simp
  have lA: "length A = (first + 1) * d" using f1 by (simp add: A_def)
  have p0: "\<forall>p \<in> set row0. length p = d"
  proof
    fix p assume "p \<in> set row0"
    then obtain j where j: "first \<le> j" "j < first + N" "p = control_point b j"
      by (auto simp: row0_def)
    then have "(j + 1) * d \<le> ncp * d" using fN(2) by (intro mult_le_mono1) simp
    with w(5) have "(j + 1) * bs_dim b \<le> length (bs_ctrlp b)" by (simp add: d_def C_def)
    from control_point_length[OF this] j show "length p = d" by (simp add: d_def)
  qed
  have p1: "\<forall>p \<in> set row1. length p = d" unfolding row1_def by (rule next_row_points[OF p0])
  have l1: "length row1 = N - 1" by (simp add: row1_def next_row_length row0_def)
  have lR: "length R = (N - 1) * d"
    unfolding R_def using concat_points_length[OF p1] l1 by simp
  have cd: "c < d" using c by (simp add: d_def)
  note parts = nth_three_parts[where E = E, OF lA lR cd]
  consider (neg) "i < 0" | (left) "0 \<le> i" "i \<le> k - int dg"
    | (mid) "k - int dg < i" "i \<le> k - s" | (right) "k - s < i" "i < int ncp + 1"
    | (out) "int ncp + 1 \<le> i"
    by linarith
  then have "coord_at r c i = ctrlp_inserted t P (int dg) k u i"
  proof cases
    case neg
    with lo Pout[of i] show ?thesis
      by (simp add: coord_at_def ctrlp_inserted_def dg_def)
  next
    case left
    then have n: "nat i < first + 1" using fN(1) by linarith
    have "i < int ncp" using left fN N1(1) by linarith
    moreover have "A ! (nat i * d + c) = C ! (nat i * d + c)"
    proof -
      have "nat i * d + c < (nat i + 1) * d" using cd by simp
      moreover from n have "(nat i + 1) * d \<le> (first + 1) * d" by (intro mult_le_mono1) simp
      ultimately have "nat i * d + c < (first + 1) * d" by (rule less_le_trans)
      then show ?thesis unfolding A_def by (rule nth_take)
    qed
    ultimately show ?thesis
      using left Pin[of i] parts(1)[OF n]
      by (simp add: coord_at_def ctrlp_inserted_def r(1,2) C' ncp_def[symmetric] d_def[symmetric])
  next
    case mid
    define j where "j = nat i - (first + 1)"
    have n: "first + 1 \<le> nat i" "nat i < first + 1 + (N - 1)" "nat i = first + 1 + j" "j < N - 1"
      "j + 1 < length row0"
      using mid fN N1 by (simp_all add: j_def row0_def)
    have i: "0 \<le> i" "i < int ncp" "0 \<le> i - 1" "i - 1 < int ncp" "i < int ncp + 1"
      using mid fN lo by linarith+
    have "coord_at r c i = R ! (j * d + c)"
      using i parts(2)[OF n(1,2)]
      by (simp add: coord_at_def r(1,2) C' ncp_def[symmetric] d_def[symmetric] j_def)
    also have "\<dots> = row1 ! j ! c"
      unfolding R_def by (rule concat_nth_uniform[OF p1 _ cd]) (use n l1 in simp)
    also have "row1 ! j = interpolated (blend_factor b u 1 (first + 1 + j)) (row0 ! j) (row0 ! (j + 1))"
      unfolding row1_def by (rule next_row_nth[OF n(5)])
    finally have "coord_at r c i =
        interpolated (blend_factor b u 1 (first + 1 + j)) (row0 ! j) (row0 ! (j + 1)) ! c" .
    moreover have "row0 ! j = control_point b (first + j)"
      "row0 ! (j + 1) = control_point b (first + (j + 1))"
      using n(4) by (simp_all add: row0_def)
    ultimately have "coord_at r c i =
        interpolated (blend_factor b u 1 (first + 1 + j))
          (control_point b (first + j)) (control_point b (first + (j + 1))) ! c"
      by simp
    moreover have fj: "first + j < ncp" "first + (j + 1) < ncp" using n(4) fN(2) by simp_all
    then have "length (control_point b (first + j)) = d" "length (control_point b (first + (j + 1))) = d"
    proof -
      have "(first + j + 1) * d \<le> ncp * d" "(first + (j + 1) + 1) * d \<le> ncp * d"
        using fj by (intro mult_le_mono1, simp)+
      then show "length (control_point b (first + j)) = d"
        "length (control_point b (first + (j + 1))) = d"
        using w(5) by (simp_all add: control_point_def d_def C_def)
    qed
    moreover have "control_point b (first + j) ! c = P (i - 1)"
      "control_point b (first + (j + 1)) ! c = P i"
    proof -
      have e: "int (first + j) = i - 1" "int (first + (j + 1)) = i" using n(3) i by linarith+
      show "control_point b (first + j) ! c = P (i - 1)"
        unfolding P_def e(1)[symmetric]
        by (rule control_point_nth[OF w(8) _ c]) (use fj in \<open>simp add: ncp_def\<close>)
      show "control_point b (first + (j + 1)) ! c = P i"
        unfolding P_def e(2)[symmetric]
        by (rule control_point_nth[OF w(8) _ c]) (use fj in \<open>simp add: ncp_def\<close>)
    qed
    moreover have "blend_factor b u 1 (first + 1 + j) = (u - t i) / (t (i + int dg) - t i)"
    proof -
      have e: "int (first + 1 + j) = i" using n(3) i by linarith
      have "first + 1 + j + dg < length K" using mid s fN w(6) e by linarith
      then have "blend_factor b u (Suc 0) (first + 1 + j)
         = (u - knot_at b (int (first + 1 + j)))
            / (knot_at b (int (first + 1 + j) + int (bs_deg b) - int 0) - knot_at b (int (first + 1 + j)))"
        by (intro blend_factor_at) (simp_all add: dg_def K_def)
      then show ?thesis unfolding e by (simp add: t_def dg_def)
    qed
    moreover have "ctrlp_inserted t P (int dg) k u i
        = (1 - (u - t i) / (t (i + int dg) - t i)) * P (i - 1) + (u - t i) / (t (i + int dg) - t i) * P i"
      using mid s by (simp add: ctrlp_inserted_def)
    ultimately show ?thesis using cd by (simp add: interpolated_nth)
  next
    case right
    define j where "j = nat i - (first + 1 + (N - 1))"
    have n: "first + 1 + (N - 1) \<le> nat i" "nat i = first + N + j"
      using right fN N1 by (simp_all add: j_def)
    have i: "0 \<le> i" "0 \<le> i - 1" "i - 1 < int ncp" "nat (i - 1) = first + N - 1 + j"
      using right fN lo s n N1 by linarith+
    have "(first + N - 1 + j) * d + d \<le> ncp * d"
    proof -
      have "(first + N - 1 + j + 1) * d \<le> ncp * d" using i by (intro mult_le_mono1) linarith
      then show ?thesis by (simp add: add_mult_distrib)
    qed
    then have "(first + N - 1) * d + (j * d + c) < length C"
      using cd w(5) by (simp add: add_mult_distrib)
    then have "E ! (j * d + c) = C ! ((first + N - 1) * d + (j * d + c))"
      unfolding E_def by (intro nth_drop) simp
    also have "(first + N - 1) * d + (j * d + c) = nat (i - 1) * d + c"
      unfolding i(4) by (simp add: add_mult_distrib)
    finally have "E ! (j * d + c) = P (i - 1)" using Pin[OF i(2,3)] by simp
    moreover have "coord_at r c i = E ! (j * d + c)"
      using right i parts(3)[OF n(1)]
      by (simp add: coord_at_def r(1,2) C' ncp_def[symmetric] d_def[symmetric] j_def)
    ultimately show ?thesis using tail[OF right(1)] by simp
  next
    case out
    then have "k - s < i" using hi by (simp add: ncp_def)
    from tail[OF this] Pout[of "i - 1"] out show ?thesis
      by (simp add: coord_at_def r(2) ncp_def)
  qed
  then show ?thesis by (simp add: t_def P_def dg_def)
qed

subsection \<open>The evaluated point\<close>

lemma control_point_coords:
  assumes "length (bs_ctrlp b) = bs_n_ctrlp b * bs_dim b" "j < bs_n_ctrlp b"
  shows "control_point b j = map (\<lambda>c. coord_at b c (int j)) [0 ..< bs_dim b]"
proof (rule nth_equalityI)
  have "(j + 1) * bs_dim b \<le> bs_n_ctrlp b * bs_dim b"
    using assms(2) by (intro mult_le_mono1) simp
  then have "(j + 1) * bs_dim b \<le> length (bs_ctrlp b)" using assms(1) by simp
  from control_point_length[OF this]
  show l: "length (control_point b j) = length (map (\<lambda>c. coord_at b c (int j)) [0 ..< bs_dim b])"
    by simp
  fix c assume "c < length (control_point b j)"
  with l have c: "c < bs_dim b" by simp
  from control_point_nth[OF assms c] c
  show "control_point b j ! c = map (\<lambda>c. coord_at b c (int j)) [0 ..< bs_dim b] ! c" by simp
qed

lemma evaluate_full_point:
  assumes wf: "bspline_wf b" and ks: "find_knot tol b x = Some (k, s)"
    and full: "s = int (bs_order b)" and m: "\<And>n. malloc n"
  shows "\<exists>c net. ts_bspline_evaluate malloc tol b x = Some (Inr (c, net))
     \<and> take (bs_dim b) (drop (net_last_idx net) (net_points net))
         = control_point b (if k - s < 0 then 0
                            else if int (bs_n_ctrlp b) \<le> k - s + 1 then nat (k - s)
                            else nat (k - s + 1))"
proof -
  define d where "d = bs_dim b"
  define ncp where "ncp = bs_n_ctrlp b"
  define C where "C = bs_ctrlp b"
  from wf have w: "1 \<le> d" "bs_deg b < ncp" "bs_order b = bs_deg b + 1"
    "bs_n_knots b = ncp + bs_order b" "length C = ncp * d" "length (bs_knots b) = bs_n_knots b"
    by (simp_all add: bspline_wf_def d_def ncp_def C_def)
  note kb = find_knot_bounds[OF ks w(6)]
  have fst_hi: "k - s < int ncp" using kb(3) full w by simp
  have room: "(j + 1) * d \<le> length C" if "j < ncp" for j
    unfolding w(5) using that by (intro mult_le_mono1) simp
  consider (first) "k - s < 0" | (last) "0 \<le> k - s" "int ncp \<le> k - s + 1"
    | (both) "0 \<le> k - s" "k - s + 1 < int ncp" by linarith
  then show ?thesis
  proof cases
    case first
    have "memcpy (replicate d 0) 0 C 0 (int d) = Some (take d (drop (nat 0) C))"
      by (rule memcpy_fresh) (use room[of 0] w in simp_all)
    with first m show ?thesis
      unfolding evaluate_cases[OF ks]
      by (simp add: full evaluate_full_multiplicity_def Let_def control_point_def
          d_def[symmetric] C_def[symmetric] ncp_def[symmetric])
  next
    case last
    define j where "j = nat (k - s)"
    have j: "int j = k - s" "j < ncp" using last fst_hi by (simp_all add: j_def)
    have "memcpy (replicate d 0) 0 C ((k - s) * int d) (int d)
        = Some (take 0 (replicate d 0) @ take d (drop (j * d) C) @ drop (0 + d) (replicate d 0))"
      by (rule memcpy_region)
         (use room[OF j(2)] j(1) in \<open>simp_all add: add_mult_distrib\<close>)
    then have "memcpy (replicate d 0) 0 C ((k - s) * int d) (int d) = Some (take d (drop (j * d) C))"
      by simp
    then show ?thesis
      using last m unfolding evaluate_cases[OF ks]
      by (simp add: full[symmetric] evaluate_full_multiplicity_def Let_def control_point_def
          d_def[symmetric] C_def[symmetric] ncp_def[symmetric] j_def[symmetric])
  next
    case both
    define j where "j = nat (k - s)"
    have j: "int j = k - s" "j + 1 < ncp" "nat (k - s + 1) = j + 1" using both by (simp_all add: j_def)
    have "(j + 1 + 1) * d \<le> length C" by (rule room[OF j(2)])
    then have "j * d + 2 * d \<le> length C" by (simp add: add_mult_distrib)
    then have "memcpy (replicate (2 * d) 0) 0 C ((k - s) * int d) (2 * int d)
        = Some (take 0 (replicate (2 * d) 0) @ take (2 * d) (drop (j * d) C)
                @ drop (0 + 2 * d) (replicate (2 * d) 0))"
      using j(1) by (intro memcpy_region) simp_all
    then have "memcpy (replicate (2 * d) 0) 0 C ((k - s) * int d) (2 * int d)
        = Some (take (2 * d) (drop (j * d) C))"
      by simp
    moreover have "take d (drop d (take (2 * d) (drop (j * d) C))) = take d (drop ((j + 1) * d) C)"
      unfolding take_two_points using \<open>j * d + 2 * d \<le> length C\<close> by simp
    ultimately show ?thesis
      using both m unfolding evaluate_cases[OF ks]
      by (simp add: full[symmetric] evaluate_full_multiplicity_def Let_def control_point_def
          d_def[symmetric] C_def[symmetric] ncp_def[symmetric] j)
  qed
qed

text \<open>
  The numbers of the model are real numbers, so the following is a statement about exact
  arithmetic: it says nothing about the rounding of the \<^verbatim>\<open>float\<close> operations. Let the knots
  be non-decreasing, let the evaluation at \<open>u\<close> reach the general case with \<open>s + 1\<close> not above
  the order, and let the evaluation at \<open>v\<close> succeed. Let \<open>u\<close> and \<open>v\<close> be sharp: they compare
  equal to a knot, and to each other, only when they are equal. Then one insertion of \<open>u\<close>
  succeeds, the evaluation of the new curve at \<open>v\<close> succeeds, and the point it returns at
  \<open>last_idx\<close> is the point the original curve returns there.
\<close>

lemma insertion_keeps_point_exact:
  assumes wf: "bspline_wf b" and so: "sorted (bs_knots b)"
    and su: "sharp tol (bs_knots b) u" and sv: "sharp tol (bs_knots b) v"
    and uv: "ts_fequals tol v u \<longleftrightarrow> u = v"
    and ku: "find_knot tol b u = Some (k, s)" and ltu: "s + 1 \<le> int (bs_order b)"
    and lou: "0 \<le> k - int (bs_deg b)" and hiu: "k - s < int (bs_n_ctrlp b)"
    and ev: "ts_bspline_evaluate malloc tol b v = Some (Inr (c, net))"
    and m: "\<And>x. malloc x"
    and ord: "bs_order b \<le> 5792"
  shows "\<exists>b' c' net'. ts_bspline_insert_knot malloc tol b u 1 = Some (Inr b')
      \<and> ts_bspline_evaluate malloc tol b' v = Some (Inr (c', net'))
      \<and> take (bs_dim b) (drop (net_last_idx net') (net_points net'))
          = take (bs_dim b) (drop (net_last_idx net) (net_points net))"
proof -
  define d where "d = bs_dim b"
  define dg where "dg = bs_deg b"
  define ncp where "ncp = bs_n_ctrlp b"
  define K where "K = bs_knots b"
  define t where "t = knot_at b"
  define kv where "kv = net_k net"
  define sv where "sv = net_s net"
  from wf have w: "1 \<le> d" "dg < ncp" "bs_order b = dg + 1" "bs_n_knots b = ncp + (dg + 1)"
    "length K = ncp + (dg + 1)" "length (bs_knots b) = bs_n_knots b"
    "length (bs_ctrlp b) = bs_n_ctrlp b * bs_dim b"
    by (simp_all add: bspline_wf_def d_def dg_def ncp_def K_def)
  have kv: "find_knot tol b v = Some (kv, sv)"
    unfolding kv_def sv_def by (rule evaluate_find_knot[OF ev])
  have ltu': "s < int (bs_order b)" using ltu by simp
  note kbu = find_knot_bounds[OF ku w(6)]
  note kbv = find_knot_bounds[OF kv w(6)]
  have s: "0 \<le> s" "s \<le> int dg" "0 \<le> sv"
    using kbu(1) kbv(1) ltu w by simp_all
  note cu = sharp_counts[OF w(6) so su ku]
  note cv = sharp_counts[OF w(6) so sv kv]
  have k0: "0 \<le> k" "k + 1 < int (length (bs_knots b))"
    using lou hiu s w by (simp_all add: dg_def ncp_def)
  have ce: "length (filter (\<lambda>y. y \<le> u) (bs_knots b)) = nat (k + 1)"
    and cl: "length (filter (\<lambda>y. y < u) (bs_knots b)) = nat (k + 1 - s)"
    using cu by linarith+
  have lo: "t j \<le> u" if "j \<le> k" for j
    unfolding t_def by (rule knot_at_le[OF so]) (use that ce k0 in simp_all)
  have hi: "u < t j" if "k < j" for j
    unfolding t_def by (rule knot_at_greater[OF so]) (use that ce k0 in simp_all)
  have ne: "t j \<noteq> u" if "j \<le> k - s" for j
  proof -
    have "knot_at b j < u"
      by (rule knot_at_less[OF so]) (use that cl lou s in \<open>simp_all add: dg_def\<close>)
    then show ?thesis by (simp add: t_def)
  qed
  have eq: "t j = u" if "k - s < j" "j \<le> k" for j
    unfolding t_def by (rule knot_at_equal[OF so]) (use that cu in simp_all)
  have below: "kv \<le> k - s" if "v < u"
  proof -
    have "length (filter (\<lambda>y. y \<le> v) (bs_knots b)) \<le> length (filter (\<lambda>y. y < u) (bs_knots b))"
      by (rule count_mono) (use that in simp)
    with cu(2) cv(1) show ?thesis by linarith
  qed
  have above: "k < kv + 1 - sv" if "u < v"
  proof -
    have "length (filter (\<lambda>y. y \<le> u) (bs_knots b)) \<le> length (filter (\<lambda>y. y < v) (bs_knots b))"
      by (rule count_mono) (use that in simp)
    with cu(1) cv(2) show ?thesis by linarith
  qed
  have same: "kv = k" "sv = s" if "u = v"
    using that ku kv by simp_all
  from insert_one_knot[where malloc = malloc, OF wf ku ltu' lou hiu m refl refl ord]
  obtain r where r: "ts_bspline_insert_knot malloc tol b u 1 = Some (Inr r)"
    "bs_deg r = bs_deg b" "bs_order r = bs_order b" "bs_dim r = bs_dim b"
    "bs_n_ctrlp r = bs_n_ctrlp b + 1" "bs_n_knots r = bs_n_knots b + 1"
    "length (bs_ctrlp r) = (bs_n_ctrlp b + 1) * bs_dim b"
    "sorted (bs_knots b) \<and> bs_knots b ! nat k \<le> u \<longrightarrow> sorted (bs_knots r)"
    "bs_knots r = take (nat (k + 1)) (bs_knots b) @ [u] @ drop (nat (k + 1)) (bs_knots b)"
    "bs_ctrlp r = take ((nat (k - int (bs_deg b)) + 1) * bs_dim b) (bs_ctrlp b)
          @ concat (next_row b u 1 (nat (k - int (bs_deg b)) + 1)
              (map (control_point b)
                 [nat (k - int (bs_deg b)) ..< nat (k - int (bs_deg b)) + nat (int (bs_deg b) - s + 1)]))
          @ drop ((nat (k - int (bs_deg b)) + nat (int (bs_deg b) - s + 1) - 1) * bs_dim b) (bs_ctrlp b)"
    by blast
  have lK': "length (bs_knots r) = bs_n_knots r"
    using r(6,9) k0 w(6) by simp
  have wf': "bspline_wf r"
    using wf r(2-7) lK' by (simp add: bspline_wf_def)
  have ord': "bs_order r \<le> 5792" using ord r(3) by simp
  note exv = binary32_affected[OF wf s(3) ord]
  have lC': "length (bs_ctrlp r) = bs_n_ctrlp r * bs_dim r" using r(4,5,7) by simp
  have "bs_knots b ! nat k \<le> u"
    using lo[of k] k0 by (simp add: t_def knot_at_def)
  with so r(8) have so': "sorted (bs_knots r)" by simp
  have sv': "sharp tol (bs_knots r) v"
    unfolding r(9) by (rule sharp_inserted[OF sv uv])
  have tK: "knot_at r = knot_inserted t k u"
    unfolding t_def by (rule ext, rule knot_at_inserted[OF k0 r(9)])
  have tP: "coord_at r c = ctrlp_inserted t (coord_at b c) (int dg) k u" if "c < d" for c
    unfolding t_def dg_def
    by (rule ext, rule coord_at_inserted[OF wf so su ku ltu' lou hiu refl refl r(4,5,10)])
       (use that in \<open>simp add: d_def\<close>)
  have tail: "ctrlp_inserted t P (int dg) k u i = P (i - 1)" if "k - s < i" for i P
  proof (cases "i \<le> k")
    case True
    from that lou s have "\<not> i \<le> k - int dg" by (simp add: dg_def)
    with True eq[OF that True] show ?thesis by (simp add: ctrlp_inserted_def)
  next
    case False
    with lou show ?thesis by (simp add: ctrlp_inserted_def dg_def)
  qed
  have cp_left: "control_point r j = control_point b j" if "int j \<le> k - int dg" for j
  proof -
    from that hiu s have j: "j < bs_n_ctrlp b" "j < bs_n_ctrlp r" by (simp_all add: r(5))
    have "coord_at r c (int j) = coord_at b c (int j)" if "c < d" for c
      using tP[OF that] \<open>int j \<le> k - int dg\<close> by (simp add: ctrlp_inserted_def)
    then show ?thesis
      unfolding control_point_coords[OF lC' j(2)] control_point_coords[OF w(7) j(1)]
      by (simp add: r(4) d_def)
  qed
  have cp_right: "control_point r (j + 1) = control_point b j" if "k - s < int j + 1" "j < ncp" for j
  proof -
    from that have j: "j < bs_n_ctrlp b" "j + 1 < bs_n_ctrlp r" by (simp_all add: r(5) ncp_def)
    have "coord_at r c (int (j + 1)) = coord_at b c (int j)" if c: "c < d" for c
    proof -
      have "coord_at r c (int (j + 1)) = coord_at b c (int (j + 1) - 1)"
        unfolding tP[OF c] by (rule tail) (use \<open>k - s < int j + 1\<close> in simp)
      then show ?thesis by simp
    qed
    then show ?thesis
      unfolding control_point_coords[OF lC' j(2)] control_point_coords[OF w(7) j(1)]
      by (simp add: r(4) d_def)
  qed
  define k' where "k' = kv + (if u \<le> v then 1 else 0)"
  define s' where "s' = sv + (if u = v then 1 else 0)"
  have kv': "find_knot tol r v = Some (k', s')"
  proof -
    have "int (length (filter (\<lambda>y. y \<le> v) (bs_knots r))) - 1 = k'"
      unfolding r(9) count_inserted using cv(1) by (simp add: k'_def)
    moreover have "int (length (filter (\<lambda>y. y = v) (bs_knots r))) = s'"
    proof -
      from find_knot_sharp[OF w(6) so sv] kv
      have "sv = int (length (filter (\<lambda>y. y = v) (bs_knots b)))" by simp
      then show ?thesis unfolding r(9) count_inserted by (simp add: s'_def)
    qed
    ultimately show ?thesis using find_knot_sharp[OF lK' so' sv'] by simp
  qed
  have svo: "sv \<le> int (bs_order b)"
    using ev unfolding evaluate_cases[OF kv] by (simp split: if_splits)
  consider (general) "sv < int (bs_order b)" "u = v \<longrightarrow> s + 1 < int (bs_order b)"
    | (filled) "sv < int (bs_order b)" "u = v" "s + 1 = int (bs_order b)"
    | (full) "sv = int (bs_order b)"
    using svo ltu by linarith
  then have "\<exists>c' net'. ts_bspline_evaluate malloc tol r v = Some (Inr (c', net'))
      \<and> take d (drop (net_last_idx net') (net_points net'))
          = take d (drop (net_last_idx net) (net_points net))"
  proof cases
    case general
    note ltv = general(1)
    from ev ltv de_boor_errors(3)[of malloc b v _ kv sv c net]
    have lov: "0 \<le> kv - int (bs_deg b)" and hiv: "kv - sv < int (bs_n_ctrlp b)"
      unfolding evaluate_cases[OF kv] by (auto split: if_splits)
    have sd: "sv \<le> int dg" using ltv w by simp
    have lt': "s' < int (bs_order r)" using ltv general(2) same by (auto simp: s'_def r(3))
    have lo': "0 \<le> k' - int (bs_deg r)" using lov by (simp add: k'_def r(2))
    have hi': "k' - s' < int (bs_n_ctrlp r)" using hiv by (auto simp: k'_def s'_def r(5))
    define Nv where "Nv = nat (int dg - sv + 1)"
    define fv where "fv = nat (kv - int dg)"
    define N' where "N' = nat (int dg - s' + 1)"
    define f' where "f' = nat (k' - int dg)"
    from evaluate_general_case[where malloc = malloc, OF wf kv ltv lov hiv refl m exv] ev
    obtain p where net: "last (de_boor_table b v fv Nv) = [p]"
      "take (bs_dim b) (drop (net_last_idx net) (net_points net)) = p"
      unfolding fv_def Nv_def dg_def by auto
    have "0 \<le> s'" by (rule find_knot_bounds(1)[OF kv' lK'])
    note exv' = binary32_affected[OF wf' this ord']
    from evaluate_general_case[where malloc = malloc, OF wf' kv' lt' lo' hi' refl m exv']
    obtain net' p' where net': "ts_bspline_evaluate malloc tol r v = Some (Inr (0, net'))"
      "last (de_boor_table r v f' N') = [p']"
      "take (bs_dim r) (drop (net_last_idx net') (net_points net')) = p'"
      unfolding f'_def N'_def dg_def r(2) by blast
    have s'0: "0 \<le> s'" "s' \<le> int dg" using s lt' w by (simp_all add: s'_def r(3))
    have Nv: "1 \<le> Nv" "int (Nv - 1) = int dg - sv" "int (fv + Nv - 1) = kv - sv"
      "fv + Nv \<le> ncp" "fv + Nv + dg \<le> length K"
      using s sd lov hiv w by (simp_all add: Nv_def fv_def dg_def ncp_def)
    have N': "1 \<le> N'" "int (N' - 1) = int dg - s'" "int (f' + N' - 1) = k' - s'"
      "f' + N' \<le> ncp + 1" "f' + N' + dg \<le> length K + 1"
      using s'0 lo' hi' w by (simp_all add: N'_def f'_def dg_def ncp_def r(2,5))
    from table_last_point[OF wf Nv(1) _ _ net(1)] Nv(4,5)
    have p: "length p = d"
      "\<And>c. c < d \<Longrightarrow> p ! c = de_boor t (coord_at b c) (int dg) v (Nv - 1) (kv - sv)"
      unfolding Nv(3) by (simp_all add: d_def dg_def ncp_def K_def t_def)
    from table_last_point[OF wf' N'(1) _ _ net'(2)] N'(4,5)
    have p': "length p' = d"
      "\<And>c. c < d \<Longrightarrow> p' ! c = de_boor (knot_at r) (coord_at r c) (int dg) v (N' - 1) (k' - s')"
      unfolding N'(3) using lK' by (simp_all add: d_def dg_def ncp_def K_def r(2,4,5,6) w(6))
    have "p' ! c = p ! c" if c: "c < d" for c
    proof -
      define P where "P = coord_at b c"
      have new: "p' ! c = de_boor (knot_inserted t k u) (ctrlp_inserted t P (int dg) k u) (int dg) v
          (N' - 1) (k' - s')"
        using p'(2)[OF c] by (simp add: tK tP[OF c] P_def)
      have old: "p ! c = de_boor t P (int dg) v (Nv - 1) (kv - sv)"
        using p(2)[OF c] by (simp add: P_def)
      consider (less) "v < u" | (equal) "u = v" | (greater) "u < v" by linarith
      then show ?thesis
      proof cases
        case less
        then have e: "k' = kv" "s' = sv" "N' = Nv" by (simp_all add: k'_def s'_def N'_def Nv_def)
        note kk = below[OF less]
        with s have i: "kv - sv \<le> k - s" by simp
        have "kv - sv + int dg - int (Nv - 1) \<le> k" using Nv(2) kk s by simp
        with insertion_left[of k t u "k - s" "kv - sv" "int dg" "Nv - 1" P v, OF lo hi ne _ i] s
        show ?thesis unfolding new old e by simp
      next
        case equal
        from same[OF equal] equal have e: "k' = k + 1" "s' = s + 1" "kv = k" "sv = s"
          by (simp_all add: k'_def s'_def)
        from general(2) equal s w have "s < int dg" by simp
        then obtain q where q: "Nv - 1 = Suc q" "N' - 1 = q" "int q = int dg - s - 1"
          using Nv(2) N'(2) e by (intro that[of "nat (int dg - s - 1)"]) linarith+
        have ix: "k - s + int dg - int q = k + 1" using q(3) by simp
        have "k < k - s + int dg - int q" using q by simp
        with insertion_left[of k t u "k - s" "k - s" "int dg" q P v, OF lo hi ne] s
        have "de_boor (knot_inserted t k u) (ctrlp_inserted t P (int dg) k u) (int dg) v q (k - s)
            = (1 - (u - t (k - s)) / (t (k - s + int dg - int q) - t (k - s)))
                * de_boor t P (int dg) v q (k - s - 1)
              + (u - t (k - s)) / (t (k - s + int dg - int q) - t (k - s))
                * de_boor t P (int dg) v q (k - s)"
          by simp
        then show ?thesis unfolding new old e q de_boor.simps ix using equal by simp
      next
        case greater
        then have e: "k' = kv + 1" "s' = sv" "N' = Nv" by (simp_all add: k'_def s'_def N'_def Nv_def)
        note i = above[OF greater]
        have "k + 1 \<le> kv + 1 - sv + int dg - int (Nv - 1)" using Nv(2) i s by simp
        from insertion_right[of k t u "kv + 1 - sv" "int dg" "Nv - 1" P v, OF lo hi this] i
        show ?thesis unfolding new old e by simp
      qed
    qed
    with p(1) p'(1) have "p' = p" by (intro nth_equalityI) simp_all
    with net(2) net'(1,3) show ?thesis by (auto simp: r(4) d_def)
  next
    case filled
    note ltv = filled(1)
    from same[OF filled(2)] have e: "kv = k" "sv = s" by simp_all
    have sd: "s = int dg" using filled(3) w by simp
    from evaluate_general_case[where malloc = malloc, OF wf kv ltv _ _ refl m exv] ev lou hiu e
    obtain p where net: "last (de_boor_table b v (nat (k - int dg)) (nat (int dg - s + 1))) = [p]"
      "take (bs_dim b) (drop (net_last_idx net) (net_points net)) = p"
      unfolding dg_def by auto
    have "de_boor_table b v (nat (k - int dg)) (nat (int dg - s + 1))
        = [[control_point b (nat (k - int dg))]]"
      unfolding sd by (simp add: de_boor_table_def)
    with net(1) have p: "p = control_point b (nat (k - int dg))" by simp
    have e': "k' = k + 1" "s' = int dg + 1" using filled e sd by (simp_all add: k'_def s'_def)
    have s'e: "s' = int (bs_order r)" using e' w by (simp add: r(3))
    from evaluate_full_point[where malloc = malloc, OF wf' kv' s'e m]
    obtain c' net' where net': "ts_bspline_evaluate malloc tol r v = Some (Inr (c', net'))"
      "take (bs_dim r) (drop (net_last_idx net') (net_points net'))
         = control_point r (if k' - s' < 0 then 0
                            else if int (bs_n_ctrlp r) \<le> k' - s' + 1 then nat (k' - s')
                            else nat (k' - s' + 1))"
      by blast
    have idx: "(if k' - s' < 0 then 0
                else if int (bs_n_ctrlp r) \<le> k' - s' + 1 then nat (k' - s')
                else nat (k' - s' + 1)) = nat (k - int dg) + 1"
      using lou hiu sd by (simp add: e' r(5) dg_def)
    have "control_point r (nat (k - int dg) + 1) = control_point b (nat (k - int dg))"
      by (rule cp_right) (use lou hiu sd in \<open>simp_all add: dg_def ncp_def\<close>)
    with net'(2)[unfolded idx] net'(1) net(2) p show ?thesis by (auto simp: r(4) d_def)
  next
    case full
    have ne_uv: "u \<noteq> v" using full same ltu by auto
    from evaluate_full_point[where malloc = malloc, OF wf kv full m] ev
    have old: "take (bs_dim b) (drop (net_last_idx net) (net_points net))
         = control_point b (if kv - sv < 0 then 0
                            else if int (bs_n_ctrlp b) \<le> kv - sv + 1 then nat (kv - sv)
                            else nat (kv - sv + 1))"
      by auto
    have s'e: "s' = int (bs_order r)" using full ne_uv by (simp add: s'_def r(3))
    from evaluate_full_point[where malloc = malloc, OF wf' kv' s'e m]
    obtain c' net' where net': "ts_bspline_evaluate malloc tol r v = Some (Inr (c', net'))"
      "take (bs_dim r) (drop (net_last_idx net') (net_points net'))
         = control_point r (if k' - s' < 0 then 0
                            else if int (bs_n_ctrlp r) \<le> k' - s' + 1 then nat (k' - s')
                            else nat (k' - s' + 1))"
      by blast
    have se: "s' = sv" "sv = int dg + 1" using full ne_uv w by (simp_all add: s'_def)
    have fhi: "kv - sv < int ncp" using kbv(3) full w by simp
    have "control_point r (if k' - s' < 0 then 0
                            else if int (bs_n_ctrlp r) \<le> k' - s' + 1 then nat (k' - s')
                            else nat (k' - s' + 1))
        = control_point b (if kv - sv < 0 then 0
                            else if int (bs_n_ctrlp b) \<le> kv - sv + 1 then nat (kv - sv)
                            else nat (kv - sv + 1))"
    proof (cases "v < u")
      case True
      then have e: "k' = kv" by (simp add: k'_def)
      note kk = below[OF True]
      show ?thesis
      proof (cases "kv - sv < 0")
        case neg: True
        have "control_point r 0 = control_point b 0" by (rule cp_left) (use lou in \<open>simp add: dg_def\<close>)
        with neg show ?thesis by (simp add: e se)
      next
        case pos: False
        have in2: "kv - sv + 1 < int ncp" using kk se s hiu by (simp add: ncp_def)
        have "control_point r (nat (kv - sv + 1)) = control_point b (nat (kv - sv + 1))"
          by (rule cp_left) (use kk se s pos in simp)
        with pos in2 show ?thesis by (simp add: e se r(5) ncp_def)
      qed
    next
      case False
      with ne_uv have gr: "u < v" by simp
      then have e: "k' = kv + 1" by (simp add: k'_def)
      note i = above[OF gr]
      have pos: "0 \<le> kv - sv" using i k0 by simp
      show ?thesis
      proof (cases "int ncp \<le> kv - sv + 1")
        case True
        have "control_point r (nat (kv - sv) + 1) = control_point b (nat (kv - sv))"
          by (rule cp_right) (use i s pos fhi in simp_all)
        moreover have "nat (kv + 1 - sv) = nat (kv - sv) + 1" using pos by simp
        ultimately show ?thesis using True pos by (simp add: e se r(5) ncp_def)
      next
        case False
        have "control_point r (nat (kv - sv + 1) + 1) = control_point b (nat (kv - sv + 1))"
          by (rule cp_right) (use i s pos False in simp_all)
        moreover have "nat (kv + 1 - sv + 1) = nat (kv - sv + 1) + 1" using pos by simp
        ultimately show ?thesis using False pos by (simp add: e se r(5) ncp_def)
      qed
    qed
    with old net' show ?thesis by (auto simp: r(4) d_def)
  qed
  with r(1) show ?thesis by (auto simp: d_def)
qed

lemma insertion_keeps_point_parabola:
  "bspline_wf example_parabola \<and> sorted (bs_knots example_parabola)
   \<and> sharp example_tolerance (bs_knots example_parabola) (1 / 4)
   \<and> sharp example_tolerance (bs_knots example_parabola) (3 / 4)
   \<and> (ts_fequals example_tolerance (3 / 4) (1 / 4) \<longleftrightarrow> (1 / 4 :: real) = 3 / 4)
   \<and> find_knot example_tolerance example_parabola (1 / 4) = Some (2, 0)
   \<and> (0::int) + 1 \<le> int (bs_order example_parabola)
   \<and> 0 \<le> 2 - int (bs_deg example_parabola) \<and> 2 - 0 < int (bs_n_ctrlp example_parabola)
   \<and> ts_bspline_evaluate unlimited example_tolerance example_parabola (3 / 4)
       = Some (Inr (0, \<lparr>net_k = 3, net_s = 0, net_h = 2, net_deg = 2, net_dim = 1,
                         net_n_affected = 3, net_n_points = 6, net_last_idx = 5,
                         net_points = [1, 2, 3, 7 / 4, 5 / 2, 17 / 8]\<rparr>))
   \<and> (\<exists>b' c' net'.
         ts_bspline_insert_knot unlimited example_tolerance example_parabola (1 / 4) 1
           = Some (Inr b')
       \<and> ts_bspline_evaluate unlimited example_tolerance b' (3 / 4) = Some (Inr (c', net'))
       \<and> take 1 (drop (net_last_idx net') (net_points net')) = [17 / 8])"
proof -
  have wf: "bspline_wf example_parabola"
    by (simp add: bspline_wf_def example_parabola_def)
  have so: "sorted (bs_knots example_parabola)"
    by (simp add: example_parabola_def)
  have su: "sharp example_tolerance (bs_knots example_parabola) (1 / 4)"
    by (simp add: sharp_def ts_fequals_def example_tolerance_def example_parabola_def)
  have sv: "sharp example_tolerance (bs_knots example_parabola) (3 / 4)"
    by (simp add: sharp_def ts_fequals_def example_tolerance_def example_parabola_def)
  have uv: "ts_fequals example_tolerance (3 / 4) (1 / 4) \<longleftrightarrow> (1 / 4 :: real) = 3 / 4"
    by (simp add: ts_fequals_def example_tolerance_def)
  have ks: "find_knot example_tolerance example_parabola (1 / 4) = Some (2, 0)"
    by (simp add: evaluate_unfold example_tolerance_def example_parabola_def)
  have lt: "(0::int) + 1 \<le> int (bs_order example_parabola)"
    by (simp add: example_parabola_def)
  have lo: "0 \<le> 2 - int (bs_deg example_parabola)"
    by (simp add: example_parabola_def)
  have hi: "2 - 0 < int (bs_n_ctrlp example_parabola)"
    by (simp add: example_parabola_def)
  have ev: "ts_bspline_evaluate unlimited example_tolerance example_parabola (3 / 4)
       = Some (Inr (0, \<lparr>net_k = 3, net_s = 0, net_h = 2, net_deg = 2, net_dim = 1,
                         net_n_affected = 3, net_n_points = 6, net_last_idx = 5,
                         net_points = [1, 2, 3, 7 / 4, 5 / 2, 17 / 8]\<rparr>))"
    by (simp add: evaluate_unfold unlimited_def example_tolerance_def example_parabola_def)
       (simp add: eval_nat_numeral)
  have m: "unlimited x" for x
    by (simp add: unlimited_def)
  have ord: "bs_order example_parabola \<le> 5792"
    by (simp add: example_parabola_def)
  from insertion_keeps_point_exact [where malloc = unlimited, OF wf so su sv uv ks lt lo hi ev m ord]
  have "\<exists>b' c' net'.
         ts_bspline_insert_knot unlimited example_tolerance example_parabola (1 / 4) 1
           = Some (Inr b')
       \<and> ts_bspline_evaluate unlimited example_tolerance b' (3 / 4) = Some (Inr (c', net'))
       \<and> take 1 (drop (net_last_idx net') (net_points net')) = [17 / 8]"
    by (simp add: example_parabola_def)
  with wf so su sv uv ks lt lo hi ev show ?thesis by blast
qed

section \<open>Properties of the split\<close>

lemma evaluate_two_points:
  assumes "ts_bspline_evaluate malloc tol b u = Some (Inr (2, net))"
  shows "find_knot tol b u = Some (net_k net, net_s net) \<and> net_s net = int (bs_order b)
       \<and> 0 \<le> net_k net - net_s net \<and> net_k net - net_s net + 1 < int (bs_n_ctrlp b)"
proof -
  note ks = evaluate_find_knot[OF assms]
  from assms de_boor_shape[of malloc b u _ "net_k net" "net_s net" 2 net] show ?thesis
    unfolding evaluate_cases[OF ks]
    by (auto simp: ks evaluate_full_multiplicity_def Let_def bind_eq_Some_conv split: if_splits)
qed

lemma memcpy_nat:
  assumes "0 \<le> off" "cnt = int n" "length dst = n" "nat off + n \<le> length src"
  shows "memcpy dst 0 src off cnt = Some (take n (drop (nat off) src))"
  using assms by (simp add: memcpy_def)

text \<open>
  Claim C8, as amended. Let the evaluation at \<open>u\<close> succeed, and let \<open>u\<close> compare equal to
  the knot at index \<open>deg\<close> or to the knot at index \<open>n_knots - order\<close>. Then the split returns
  a sequence of one curve, equal to the original in every field, with return code 1 when the
  lower knot matched and 2 otherwise.
\<close>

theorem split_at_boundary:
  assumes wf: "bspline_wf b"
    and ev: "ts_bspline_evaluate malloc tol b u = Some (Inr (ret, net))"
    and bd: "ts_fequals tol (bs_knots b ! bs_deg b) u
           \<or> ts_fequals tol (bs_knots b ! (bs_n_knots b - bs_order b)) u"
    and m: "malloc 1" "malloc (bs_n_ctrlp b * bs_dim b)" "malloc (bs_n_knots b)"
  shows "ts_bspline_split malloc tol b u =
     Some (Inr (if ts_fequals tol (bs_knots b ! bs_deg b) u then 1 else 2,
                \<lparr>seq_n = 1, seq_bsplines = [b]\<rparr>))"
proof -
  from wf have *: "bs_deg b < length (bs_knots b)" "bs_n_knots b - bs_order b < length (bs_knots b)"
    "bs_order b \<le> bs_n_knots b"
    by (auto simp: bspline_wf_def)
  have lo: "load (bs_knots b) (int (bs_deg b)) = Some (bs_knots b ! bs_deg b)"
    using * by (simp add: load_def)
  have up: "load (bs_knots b) (int (bs_n_knots b) - int (bs_order b))
      = Some (bs_knots b ! (bs_n_knots b - bs_order b))"
    using * by (simp add: load_def nat_diff_distrib')
  have ab: "at_boundary tol b u = Some True"
    using bd by (auto simp: at_boundary_def lo up)
  have sq: "ts_bsplinesequence_new malloc (Suc 0)
      = Inr \<lparr>seq_n = Suc 0, seq_bsplines = [ts_bspline_default]\<rparr>"
    using m(1) by (simp add: ts_bsplinesequence_new_def)
  have cp: "split_copy malloc tol b u \<lparr>seq_n = Suc 0, seq_bsplines = [ts_bspline_default]\<rparr> =
     Some (Inr (if ts_fequals tol (bs_knots b ! bs_deg b) u then 1 else 2,
                \<lparr>seq_n = Suc 0, seq_bsplines = [b]\<rparr>))"
    using * by (simp add: split_copy_def ts_bspline_copy_ok[OF wf m(2,3)] lo load_def store_def)
  show ?thesis
    by (simp add: ts_bspline_split_def ev ab sq cp)
qed

lemmas split_unfold =
  ts_bspline_split_def at_boundary_def ts_bsplinesequence_new_def split_copy_def
  split_partition_def split_de_boor_def split_part_def ts_bspline_copy_def ts_bspline_new_def
  fill_const.simps fill_uniform.simps copy_edge.simps insert_u.simps
  ts_bspline_default_def ts_bsplinesequence_default_def

theorem split_at_boundary_counterexample:
  "bspline_wf example_overfull
   \<and> ts_fequals example_tolerance (bs_knots example_overfull ! bs_deg example_overfull) 0
   \<and> ts_bspline_split unlimited example_tolerance example_overfull 0 = Some (Inl TS_MULTIPLICITY)"
  by (simp add: bspline_wf_def evaluate_unfold split_unfold unlimited_def example_tolerance_def
      example_overfull_def)

theorem split_at_boundary_witness:
  "bspline_wf example_polygon
   \<and> ts_bspline_evaluate unlimited example_tolerance example_polygon 1 =
       Some (Inr (1, \<lparr>net_k = 4, net_s = 2, net_h = - 1, net_deg = 1, net_dim = 1,
              net_n_affected = 1, net_n_points = 1, net_last_idx = 0,
              net_points = [0]\<rparr>))
   \<and> ts_fequals example_tolerance
        (bs_knots example_polygon ! (bs_n_knots example_polygon - bs_order example_polygon)) 1
   \<and> ts_bspline_split unlimited example_tolerance example_polygon 1 =
       Some (Inr (2, \<lparr>seq_n = 1, seq_bsplines = [example_polygon]\<rparr>))"
proof -
  have wf: "bspline_wf example_polygon"
    by (simp add: bspline_wf_def example_polygon_def)
  have ev: "ts_bspline_evaluate unlimited example_tolerance example_polygon 1 =
       Some (Inr (1, \<lparr>net_k = 4, net_s = 2, net_h = - 1, net_deg = 1, net_dim = 1,
              net_n_affected = 1, net_n_points = 1, net_last_idx = 0,
              net_points = [0]\<rparr>))"
    by (simp add: evaluate_unfold unlimited_def example_tolerance_def example_polygon_def)
  have up: "ts_fequals example_tolerance
        (bs_knots example_polygon ! (bs_n_knots example_polygon - bs_order example_polygon)) 1"
    by (simp add: ts_fequals_def example_tolerance_def example_polygon_def)
  have lo: "\<not> ts_fequals example_tolerance (bs_knots example_polygon ! bs_deg example_polygon) 1"
    by (simp add: ts_fequals_def example_tolerance_def example_polygon_def)
  have m: "unlimited n" for n by (simp add: unlimited_def)
  from split_at_boundary [where malloc = unlimited, OF wf ev disjI2 [OF up] m m m] lo
  have "ts_bspline_split unlimited example_tolerance example_polygon 1 =
       Some (Inr (2, \<lparr>seq_n = 1, seq_bsplines = [example_polygon]\<rparr>))"
    by simp
  with wf ev up show ?thesis by blast
qed

text \<open>
  Claim C9. Let the evaluation at \<open>u\<close> return the code 2, and let \<open>u\<close> match neither
  boundary knot. Then the split returns two curves and interpolates nothing: with
  \<open>c = k - s + 1\<close>, the left curve has the first \<open>c\<close> control points and the first
  \<open>c + order\<close> knots of the original, the right curve has the other \<open>n_ctrlp - c\<close> control
  points and the trailing \<open>n_ctrlp - c + order\<close> knots, which start at index \<open>c\<close>. (The
  \<open>order\<close> knots that compare equal to \<open>u\<close> belong to both knot vectors.)
\<close>

theorem split_full_multiplicity_partition:
  assumes wf: "bspline_wf b" and sorted: "sorted (bs_knots b)"
    and rel: "FLT_MAX_REL_ERROR tol < 1"
    and ev: "ts_bspline_evaluate malloc tol b u = Some (Inr (2, net))"
    and lo: "\<not> ts_fequals tol (bs_knots b ! bs_deg b) u"
    and up: "\<not> ts_fequals tol (bs_knots b ! (bs_n_knots b - bs_order b)) u"
    and m: "\<And>n. malloc n"
  shows "ts_bspline_split malloc tol b u =
     Some (Inr (0, \<lparr>seq_n = 2, seq_bsplines =
       [\<lparr>bs_deg = bs_deg b, bs_order = bs_order b, bs_dim = bs_dim b,
         bs_n_ctrlp = nat (net_k net - net_s net + 1),
         bs_n_knots = nat (net_k net - net_s net + 1) + bs_order b,
         bs_ctrlp = take (nat (net_k net - net_s net + 1) * bs_dim b) (bs_ctrlp b),
         bs_knots = take (nat (net_k net - net_s net + 1) + bs_order b) (bs_knots b)\<rparr>,
        \<lparr>bs_deg = bs_deg b, bs_order = bs_order b, bs_dim = bs_dim b,
         bs_n_ctrlp = bs_n_ctrlp b - nat (net_k net - net_s net + 1),
         bs_n_knots = bs_n_ctrlp b - nat (net_k net - net_s net + 1) + bs_order b,
         bs_ctrlp = drop (nat (net_k net - net_s net + 1) * bs_dim b) (bs_ctrlp b),
         bs_knots = drop (nat (net_k net - net_s net + 1)) (bs_knots b)\<rparr>]\<rparr>))"
proof -
  define k where "k = net_k net"
  define s where "s = net_s net"
  define c where "c = nat (k - s + 1)"
  define d where "d = bs_dim b"
  define dg where "dg = bs_deg b"
  define n where "n = bs_n_ctrlp b"
  from wf have w: "1 \<le> d" "dg < n" "bs_order b = dg + 1" "bs_n_knots b = n + (dg + 1)"
    "length (bs_ctrlp b) = n * d" "length (bs_knots b) = n + (dg + 1)"
    by (simp_all add: bspline_wf_def d_def dg_def n_def)
  from evaluate_two_points[OF ev]
  have ks: "find_knot tol b u = Some (k, s)" and s: "s = int dg + 1"
    and f: "0 \<le> k - s" "k - s + 1 < int n"
    by (simp_all add: k_def s_def w n_def)
  have len: "length (bs_knots b) = bs_n_knots b" using w by simp
  note kb = find_knot_bounds[OF ks len]
  have c1: "dg < c"
  proof (rule ccontr)
    assume "\<not> dg < c"
    then have "k - int dg < s" using s f by (simp add: c_def)
    from counted_knots_contiguous[OF ks len sorted rel _ _ this] s f
    have "ts_fequals tol u (bs_knots b ! dg)" by simp
    with lo show False by (simp add: ts_fequals_sym dg_def)
  qed
  have c2: "dg < n - c"
  proof (rule ccontr)
    assume "\<not> dg < n - c"
    then have "int n \<le> k" using s f by (simp add: c_def)
    moreover have "k - int n < s" using kb(3) s w by simp
    ultimately have "ts_fequals tol u (bs_knots b ! n)"
      using counted_knots_contiguous[OF ks len sorted rel, of n] s f by simp
    moreover have "bs_n_knots b - bs_order b = n" using w by simp
    ultimately show False using up by (simp add: ts_fequals_sym)
  qed
  have cn: "c \<le> n" using c2 by simp
  have ab: "at_boundary tol b u = Some False"
    using lo up w by (simp add: at_boundary_def load_def dg_def[symmetric] nat_diff_distrib')
  have sq: "ts_bsplinesequence_new malloc 2
      = Inr \<lparr>seq_n = 2, seq_bsplines = [ts_bspline_default, ts_bspline_default]\<rparr>"
    using m by (simp add: ts_bsplinesequence_new_def numeral_2_eq_2)
  from ts_bspline_new_ok[where malloc = malloc and t = TS_CLAMPED, OF w(1) c1 m m]
  obtain kn0 where kn0: "length kn0 = c + (dg + 1)"
    "ts_bspline_new malloc dg d c TS_CLAMPED =
       Some (Inr \<lparr>bs_deg = dg, bs_order = dg + 1, bs_dim = d, bs_n_ctrlp = c,
                  bs_n_knots = c + (dg + 1), bs_ctrlp = replicate (c * d) 0, bs_knots = kn0\<rparr>)"
    by blast
  from ts_bspline_new_ok[where malloc = malloc and t = TS_CLAMPED, OF w(1) c2 m m]
  obtain kn1 where kn1: "length kn1 = n - c + (dg + 1)"
    "ts_bspline_new malloc dg d (n - c) TS_CLAMPED =
       Some (Inr \<lparr>bs_deg = dg, bs_order = dg + 1, bs_dim = d, bs_n_ctrlp = n - c,
                  bs_n_knots = n - c + (dg + 1), bs_ctrlp = replicate ((n - c) * d) 0,
                  bs_knots = kn1\<rparr>)"
    by blast
  have sz: "size_t (k - s + 1) = Some c" "size_t (int n - (k - s + 1)) = Some (n - c)"
    using f by (simp_all add: size_t_def c_def nat_diff_distrib')
  have cd: "c * d \<le> n * d" using cn by simp
  have m0: "memcpy (replicate (c * d) 0) 0 (bs_ctrlp b) 0 (int c * int d)
      = Some (take (c * d) (bs_ctrlp b))"
    using cd w(5) memcpy_nat[where n = "c * d" and off = 0 and src = "bs_ctrlp b"] by simp
  have m1: "memcpy kn0 0 (bs_knots b) 0 (int (c + (dg + 1)))
      = Some (take (c + (dg + 1)) (bs_knots b))"
    using cn w(6) kn0(1) memcpy_nat[where n = "c + (dg + 1)" and off = 0 and src = "bs_knots b"]
    by simp
  have m2: "memcpy (replicate ((n - c) * d) 0) 0 (bs_ctrlp b) (int c * int d) (int (n - c) * int d)
      = Some (drop (c * d) (bs_ctrlp b))"
  proof -
    have *: "(n - c) * d + c * d = n * d" using cn by (simp add: diff_mult_distrib)
    have "memcpy (replicate ((n - c) * d) 0) 0 (bs_ctrlp b) (int c * int d) (int (n - c) * int d)
        = Some (take ((n - c) * d) (drop (nat (int c * int d)) (bs_ctrlp b)))"
      by (rule memcpy_nat) (use * w(5) in \<open>simp_all add: nat_mult_distrib\<close>)
    moreover have "nat (int c * int d) = c * d"
      by (simp add: nat_mult_distrib)
    moreover have "length (drop (c * d) (bs_ctrlp b)) = (n - c) * d"
      using w(5) by (simp add: diff_mult_distrib)
    ultimately show ?thesis by simp
  qed
  have m3: "memcpy kn1 0 (bs_knots b) (int (n + (dg + 1)) - int (n - c + (dg + 1)))
       (int (n - c + (dg + 1))) = Some (drop c (bs_knots b))"
  proof -
    have c: "nat (int (n + (dg + 1)) - int (n - c + (dg + 1))) = c" using cn by simp
    have "memcpy kn1 0 (bs_knots b) (int (n + (dg + 1)) - int (n - c + (dg + 1)))
       (int (n - c + (dg + 1)))
        = Some (take (n - c + (dg + 1))
            (drop (nat (int (n + (dg + 1)) - int (n - c + (dg + 1)))) (bs_knots b)))"
      by (rule memcpy_nat) (use cn w(6) kn1(1) in simp_all)
    moreover have "length (drop c (bs_knots b)) = n - c + (dg + 1)"
      using w(6) cn by simp
    ultimately show ?thesis unfolding c by simp
  qed
  have part: "split_partition malloc b net
       \<lparr>seq_n = 2, seq_bsplines = [ts_bspline_default, ts_bspline_default]\<rparr> =
     Some (Inr (0, \<lparr>seq_n = 2, seq_bsplines =
       [\<lparr>bs_deg = dg, bs_order = dg + 1, bs_dim = d, bs_n_ctrlp = c, bs_n_knots = c + (dg + 1),
         bs_ctrlp = take (c * d) (bs_ctrlp b), bs_knots = take (c + (dg + 1)) (bs_knots b)\<rparr>,
        \<lparr>bs_deg = dg, bs_order = dg + 1, bs_dim = d, bs_n_ctrlp = n - c,
         bs_n_knots = n - c + (dg + 1),
         bs_ctrlp = drop (c * d) (bs_ctrlp b), bs_knots = drop c (bs_knots b)\<rparr>]\<rparr>))"
    unfolding split_partition_def Let_def k_def[symmetric] s_def[symmetric] sz
      d_def[symmetric] dg_def[symmetric] n_def[symmetric] w(4)
    by (simp add: kn0(2) kn1(2) m0[simplified] m1[simplified] m2[simplified] m3[simplified] store_def)
  show ?thesis
    unfolding ts_bspline_split_def ev
    using part
    by (simp add: ab sq k_def s_def c_def d_def dg_def n_def w(3)[unfolded dg_def])
qed

theorem split_full_multiplicity_partition_witness:
  "bspline_wf example_joined \<and> sorted (bs_knots example_joined)
   \<and> FLT_MAX_REL_ERROR example_tolerance < 1
   \<and> ts_bspline_evaluate unlimited example_tolerance example_joined (1 / 2) =
       Some (Inr (2, \<lparr>net_k = 3, net_s = 2, net_h = - 1, net_deg = 1, net_dim = 2,
              net_n_affected = 2, net_n_points = 2, net_last_idx = 2,
              net_points = [1, 10, 2, 20]\<rparr>))
   \<and> \<not> ts_fequals example_tolerance (bs_knots example_joined ! bs_deg example_joined) (1 / 2)
   \<and> \<not> ts_fequals example_tolerance
        (bs_knots example_joined ! (bs_n_knots example_joined - bs_order example_joined)) (1 / 2)
   \<and> ts_bspline_split unlimited example_tolerance example_joined (1 / 2) =
       Some (Inr (0, \<lparr>seq_n = 2, seq_bsplines =
         [\<lparr>bs_deg = 1, bs_order = 2, bs_dim = 2, bs_n_ctrlp = 2, bs_n_knots = 4,
           bs_ctrlp = [0, 0, 1, 10], bs_knots = [0, 0, 1 / 2, 1 / 2]\<rparr>,
          \<lparr>bs_deg = 1, bs_order = 2, bs_dim = 2, bs_n_ctrlp = 2, bs_n_knots = 4,
           bs_ctrlp = [2, 20, 3, 30], bs_knots = [1 / 2, 1 / 2, 1, 1]\<rparr>]\<rparr>))"
proof -
  have wf: "bspline_wf example_joined"
    by (simp add: bspline_wf_def example_joined_def)
  have so: "sorted (bs_knots example_joined)"
    by (simp add: example_joined_def)
  have rel: "FLT_MAX_REL_ERROR example_tolerance < 1"
    by (simp add: example_tolerance_def)
  have ev: "ts_bspline_evaluate unlimited example_tolerance example_joined (1 / 2) =
       Some (Inr (2, \<lparr>net_k = 3, net_s = 2, net_h = - 1, net_deg = 1, net_dim = 2,
              net_n_affected = 2, net_n_points = 2, net_last_idx = 2,
              net_points = [1, 10, 2, 20]\<rparr>))"
    by (simp add: evaluate_unfold unlimited_def example_tolerance_def example_joined_def)
  have lo: "\<not> ts_fequals example_tolerance (bs_knots example_joined ! bs_deg example_joined) (1 / 2)"
    by (simp add: ts_fequals_def example_tolerance_def example_joined_def)
  have up: "\<not> ts_fequals example_tolerance
        (bs_knots example_joined ! (bs_n_knots example_joined - bs_order example_joined)) (1 / 2)"
    by (simp add: ts_fequals_def example_tolerance_def example_joined_def)
  have m: "unlimited n" for n by (simp add: unlimited_def)
  from split_full_multiplicity_partition [where malloc = unlimited, OF wf so rel ev lo up m]
  have "ts_bspline_split unlimited example_tolerance example_joined (1 / 2) =
       Some (Inr (0, \<lparr>seq_n = 2, seq_bsplines =
         [\<lparr>bs_deg = 1, bs_order = 2, bs_dim = 2, bs_n_ctrlp = 2, bs_n_knots = 4,
           bs_ctrlp = [0, 0, 1, 10], bs_knots = [0, 0, 1 / 2, 1 / 2]\<rparr>,
          \<lparr>bs_deg = 1, bs_order = 2, bs_dim = 2, bs_n_ctrlp = 2, bs_n_knots = 4,
           bs_ctrlp = [2, 20, 3, 30], bs_knots = [1 / 2, 1 / 2, 1, 1]\<rparr>]\<rparr>))"
    by (simp add: example_joined_def)
  with wf so rel ev lo up show ?thesis by blast
qed

section \<open>Properties of the decomposition\<close>

text \<open>
  The loop returns the sequence it was given or nothing: an iteration that stores a piece
  ends with a released \<open>current\<close>, and the iteration after it has no defined result.
\<close>

lemma to_bezier_loop_untouched:
  assumes "to_bezier_loop malloc tol bspline sequence i current = Some (Inr result)"
  shows "result = sequence"
proof (cases current)
  case None
  with assms show ?thesis by (simp add: to_bezier_loop.simps)
next
  case (Some c)
  with assms show ?thesis
    by (auto simp: to_bezier_loop.simps split: bind_splits sum.splits if_splits)
qed

text \<open>
  So a sequence that \<^verbatim>\<open>ts_bspline_to_bezier\<close> returns with success has
  \<open>n_knots - 2 * order\<close> entries, and each of them is still the default curve.
\<close>

lemma to_bezier_success:
  assumes "ts_bspline_to_bezier malloc tol bspline = Some (Inr result)"
  shows "\<exists>m. size_t (int (bs_n_knots bspline) - 2 * int (bs_order bspline)) = Some m \<and>
             seq_bsplines result = replicate m ts_bspline_default"
  using assms
  by (auto simp: ts_bspline_to_bezier_def ts_bsplinesequence_new_def
      ts_bsplinesequence_default_def
      dest: to_bezier_loop_untouched split: bind_splits sum.splits if_splits)

text \<open>
  With one inner knot the first split returns 0, the left piece is stored, and the second
  iteration reads the released right piece.
\<close>

lemma to_bezier_of_parabola:
  "ts_bspline_to_bezier unlimited example_tolerance example_parabola = None"
  by (simp add: ts_bspline_to_bezier_def to_bezier_loop.simps evaluate_unfold split_unfold
      unlimited_def example_tolerance_def example_parabola_def)

text \<open>
  Claim C2 at the curve \<^term>\<open>example_bezier\<close>, where \<open>n_knots - 2 * order = 0\<close>: the
  first split returns 2, nothing is stored, and the result is the empty sequence.
\<close>

theorem to_bezier_of_bezier:
  "ts_bspline_to_bezier unlimited example_tolerance example_bezier
     = Some (Inr \<lparr>seq_n = 0, seq_bsplines = []\<rparr>)"
  by (simp add: ts_bspline_to_bezier_def to_bezier_loop.simps evaluate_unfold split_unfold
      unlimited_def example_tolerance_def example_bezier_def)

end
